theory Spec2Isabelle
  imports Main "HOL-Library.Word"
begin

unbundle bit_operations_syntax

section \<open>Machine words and hashing (set.h, lines 39--68; map.h, lines 36--38)\<close>

text \<open>
  \<open>size_t\<close> is taken as a 64 bit word, so \<open>intmix\<close> is the 64 bit overload
  (Thomas Wang's mix function).  All arithmetic on hashes and priorities wraps around.
\<close>

type_synonym size_t = "64 word"

definition intmix :: "size_t \<Rightarrow> size_t" where
  "intmix key0 =
    (let k1 = NOT key0 + push_bit 21 key0;
         k2 = k1 XOR drop_bit 24 k1;
         k3 = (k2 + push_bit 3 k2) + push_bit 8 k2;
         k4 = k3 XOR drop_bit 14 k3;
         k5 = (k4 + push_bit 2 k4) + push_bit 4 k4;
         k6 = k5 XOR drop_bit 28 k5;
         k7 = k6 + push_bit 31 k6
     in k7)"

definition hash_combine :: "size_t \<Rightarrow> size_t \<Rightarrow> size_t" where
  "hash_combine h1 h2 = h1 XOR (h2 + 0x9e3779b9 + push_bit 6 h1 + drop_bit 2 h1)"

definition hash_combine3 :: "size_t \<Rightarrow> size_t \<Rightarrow> size_t \<Rightarrow> size_t" where
  "hash_combine3 h1 h2 h3 = hash_combine (hash_combine h1 h2) h3"

definition hash_combine4 :: "size_t \<Rightarrow> size_t \<Rightarrow> size_t \<Rightarrow> size_t \<Rightarrow> size_t" where
  "hash_combine4 h1 h2 h3 h4 = hash_combine (hash_combine h1 h2) (hash_combine h3 h4)"

section \<open>Nodes and node pointers\<close>

text \<open>
  Nodes are immutable once created (all fields but the reference count and the chain
  pointer are \<open>const\<close>), so a \<open>node_ptr\<close> is modelled as the address it holds together
  with the node stored there: \<open>Null\<close> is \<open>nullptr\<close>, \<open>SNode\<close> points to a
  \<open>node<Traits, set_tag>\<close> and \<open>MNode\<close> to a \<open>node<Traits, map_tag>\<close>.  The overloads
  that the source selects by the static node type are selected by the constructor here.

  The comparison \<open>p == q\<close> of two node pointers is modelled by equality of these values.
  An address is handed out once and never reused (reference counting and the release of
  nodes are not part of the model), and the invariant \<open>inv\<close> below shows that in every
  state the operations produce, two live pointers with the same address are the same value,
  so that equality of values is equality of addresses.

  \<open>size_\<close> counts nodes that each occupy memory, so it cannot wrap around; it is a \<open>nat\<close>.
  The element type is a \<open>linorder\<close>: the provider's \<open>compare\<close> is \<open><\<close> and its
  \<open>equal\<close> is \<open>=\<close>.  The hash functions are the two fields of \<open>env\<close>.
\<close>

datatype ('k, 'm) node_ptr =
    Null
  | SNode (addr: nat) (key: 'k) (priority': size_t) (size': nat) (hash': size_t)
      (left': "('k, 'm) node_ptr") (right': "('k, 'm) node_ptr")
  | MNode (addr: nat) (key: 'k) (mapped: 'm) (key_node': "('k, 'm) node_ptr") (hash': size_t)
      (left': "('k, 'm) node_ptr") (right': "('k, 'm) node_ptr")

text \<open>A \<open>value_type\<close>: an element of a set, or a key with its mapped value.\<close>

datatype ('k, 'm) val = KeyV 'k | PairV 'k 'm

fun val_key :: "('k, 'm) val \<Rightarrow> 'k" where
  "val_key (KeyV k) = k"
| "val_key (PairV k m) = k"

record ('k, 'm) env =
  key_hash :: "'k \<Rightarrow> size_t"
  mapped_hash :: "'m \<Rightarrow> size_t"

fun hash :: "('k, 'm) node_ptr \<Rightarrow> size_t" where
  "hash Null = 0"
| "hash (SNode a k p s h l r) = h"
| "hash (MNode a k m kn h l r) = h"

fun priority :: "('k, 'm) node_ptr \<Rightarrow> size_t" where
  "priority (SNode a k p s h l r) = p"
| "priority (MNode a k m kn h l r) = priority' kn"
| "priority Null = 0"

fun node_size :: "('k, 'm) node_ptr \<Rightarrow> nat" where
  "node_size Null = 0"
| "node_size (SNode a k p s h l r) = s"
| "node_size (MNode a k m kn h l r) = size' kn"

fun key_node :: "('k, 'm) node_ptr \<Rightarrow> ('k, 'm) node_ptr" where
  "key_node Null = Null"
| "key_node (SNode a k p s h l r) = Null"
| "key_node (MNode a k m kn h l r) = kn"

fun node_value :: "('k, 'm) node_ptr \<Rightarrow> ('k, 'm) val" where
  "node_value (SNode a k p s h l r) = KeyV k"
| "node_value (MNode a k m kn h l r) = PairV k m"
| "node_value Null = undefined"

section \<open>The intern table (set.h, lines 167--258)\<close>

record ('k, 'm) hash_table =
  buckets' :: "('k, 'm) node_ptr list list"
  bucket_count' :: nat
  size_ht' :: nat

definition min_bucket_count' :: nat where
  "min_bucket_count' = 8"

definition new_hash_table :: "('k, 'm) hash_table" where
  "new_hash_table =
     \<lparr>buckets' = replicate min_bucket_count' [], bucket_count' = min_bucket_count', size_ht' = 0\<rparr>"

definition pos :: "('k, 'm) hash_table \<Rightarrow> ('k, 'm) node_ptr \<Rightarrow> nat" where
  "pos T n = unat (hash' n AND (word_of_nat (bucket_count' T) - 1))"

text \<open>\<open>env<Traits>::equal\<close> on two values: key equality, and mapped equality for a map.\<close>

fun equal_val :: "('k, 'm) val \<Rightarrow> ('k, 'm) val \<Rightarrow> bool" where
  "equal_val (KeyV k) (KeyV k') = (k = k')"
| "equal_val (PairV k m) (PairV k' m') = (k = k' \<and> m = m')"
| "equal_val (PairV k m) (KeyV k') = (k = k')"
| "equal_val (KeyV k) (PairV k' m') = (k = k')"

definition matches :: "('k, 'm) node_ptr \<Rightarrow> ('k, 'm) node_ptr \<Rightarrow> bool" where
  "matches k q =
     (hash' q = hash' k \<and> left' q = left' k \<and> right' q = right' k \<and>
      equal_val (node_value q) (node_value k))"

definition ht_extend :: "('k, 'm) hash_table \<Rightarrow> ('k, 'm) hash_table" where
  "ht_extend T =
     (let T1 = T\<lparr>bucket_count' := bucket_count' T * 2\<rparr>;
          new_buckets =
            fold (\<lambda>i nb. fold (\<lambda>head nb. nb[pos T1 head := head # nb ! pos T1 head])
                              (buckets' T ! i) nb)
              [0 ..< bucket_count' T1 div 2] (replicate (bucket_count' T1) [])
      in T1\<lparr>buckets' := new_buckets\<rparr>)"

definition ht_reduce :: "('k, 'm) hash_table \<Rightarrow> ('k, 'm) hash_table" where
  "ht_reduce T =
     (let T1 = T\<lparr>bucket_count' := bucket_count' T div 2\<rparr>;
          new_buckets =
            map (\<lambda>i. buckets' T ! i @ buckets' T ! (i + bucket_count' T1))
              [0 ..< bucket_count' T1]
      in T1\<lparr>buckets' := new_buckets\<rparr>)"

definition ht_rehash :: "('k, 'm) hash_table \<Rightarrow> ('k, 'm) hash_table" where
  "ht_rehash T =
     (if size_ht' T \<ge> bucket_count' T then ht_extend T
      else if size_ht' T > min_bucket_count' \<and> size_ht' T * 2 < bucket_count' T then ht_reduce T
      else T)"

definition ht_insert ::
  "('k, 'm) hash_table \<Rightarrow> ('k, 'm) node_ptr \<Rightarrow> ('k, 'm) node_ptr \<times> ('k, 'm) hash_table" where
  "ht_insert T k =
     (let T1 = ht_rehash T; i = pos T1 k; chain = buckets' T1 ! i
      in case find (matches k) chain of
           Some q \<Rightarrow> (q, T1)
         | None \<Rightarrow> (k, T1\<lparr>buckets' := (buckets' T1)[i := chain @ [k]],
                          size_ht' := size_ht' T1 + 1\<rparr>))"

section \<open>Providers and node creation\<close>

text \<open>
  The state of a map provider and of the set provider it extends: the two intern tables
  and the next address the allocator hands out.
\<close>

record ('k, 'm) providers =
  set_table :: "('k, 'm) hash_table"
  map_table :: "('k, 'm) hash_table"
  brk :: nat

definition new_providers :: "('k, 'm) providers" where
  "new_providers = \<lparr>set_table = new_hash_table, map_table = new_hash_table, brk = 0\<rparr>"

type_synonym ('k, 'm) res = "('k, 'm) node_ptr \<times> ('k, 'm) providers"

text \<open>
  \<open>get_unique_node\<close>, for a candidate allocated at address \<open>brk\<close>: when the table
  returns another node, the candidate is deleted and its address is free again.
\<close>

definition get_unique_set :: "('k, 'm) providers \<Rightarrow> ('k, 'm) node_ptr \<Rightarrow> ('k, 'm) res" where
  "get_unique_set S p =
     (let (q, T) = ht_insert (set_table S) p
      in if q = p then (p, S\<lparr>set_table := T, brk := brk S + 1\<rparr>)
         else (q, S\<lparr>set_table := T\<rparr>))"

definition get_unique_map :: "('k, 'm) providers \<Rightarrow> ('k, 'm) node_ptr \<Rightarrow> ('k, 'm) res" where
  "get_unique_map S p =
     (let (q, T) = ht_insert (map_table S) p
      in if q = p then (p, S\<lparr>map_table := T, brk := brk S + 1\<rparr>)
         else (q, S\<lparr>map_table := T\<rparr>))"

definition create_set ::
  "('k, 'm) providers \<Rightarrow> 'k \<Rightarrow> ('k, 'm) node_ptr \<Rightarrow> ('k, 'm) node_ptr \<Rightarrow> size_t \<Rightarrow> ('k, 'm) res"
  where
  "create_set S v l r prio =
     (let sz = 1 + node_size l + node_size r;
          h = hash_combine3 (hash l) (hash r) prio
      in get_unique_set S (SNode (brk S) v prio sz h l r))"

definition create_map ::
  "('k, 'm) providers \<Rightarrow> 'k \<Rightarrow> 'm \<Rightarrow> ('k, 'm) node_ptr \<Rightarrow> ('k, 'm) node_ptr \<Rightarrow>
     ('k, 'm) node_ptr \<Rightarrow> size_t \<Rightarrow> ('k, 'm) res"
  where
  "create_map S k m kn l r mh =
     (let h = hash_combine4 (hash l) (hash r) mh (hash' kn)
      in get_unique_map S (MNode (brk S) k m kn h l r))"

text \<open>\<open>make_node(env, value, left, right)\<close>, for a set and for a map.\<close>

fun make_node ::
  "('k, 'm) env \<Rightarrow> ('k, 'm) providers \<Rightarrow> ('k, 'm) val \<Rightarrow> ('k, 'm) node_ptr \<Rightarrow>
     ('k, 'm) node_ptr \<Rightarrow> ('k, 'm) res"
  where
  "make_node e S (KeyV k) l r = create_set S k l r (intmix (key_hash e k))"
| "make_node e S (PairV k m) l r =
     (let (kn, S1) = create_set S k (key_node l) (key_node r) (intmix (key_hash e k))
      in create_map S1 k m kn l r (mapped_hash e m))"

text \<open>\<open>make_node(env, parent, left, right)\<close>, for a set and for a map.\<close>

fun make_node_p ::
  "('k, 'm) env \<Rightarrow> ('k, 'm) providers \<Rightarrow> ('k, 'm) node_ptr \<Rightarrow> ('k, 'm) node_ptr \<Rightarrow>
     ('k, 'm) node_ptr \<Rightarrow> ('k, 'm) res"
  where
  "make_node_p e S (SNode a k p s h l0 r0) l r = create_set S k l r p"
| "make_node_p e S (MNode a k m kn0 h l0 r0) l r =
     (let (kn, S1) = create_set S (key kn0) (key_node l) (key_node r) (priority kn0)
      in create_map S1 k m kn l r (mapped_hash e m))"
| "make_node_p e S Null l r = (Null, S)"

section \<open>Treap primitives (set.h, lines 373--443)\<close>

datatype ranking = LEFT | SAME | RIGHT | NOT_SAME

definition rank :: "('k::linorder, 'm) node_ptr \<Rightarrow> ('k, 'm) node_ptr \<Rightarrow> ranking" where
  "rank l r =
     (if priority l < priority r then LEFT
      else if priority r < priority l then RIGHT
      else if key l < key r then LEFT
      else if key r < key l then RIGHT
      else SAME)"

definition map_rank :: "('k::linorder, 'm) node_ptr \<Rightarrow> ('k, 'm) node_ptr \<Rightarrow> ranking" where
  "map_rank l r =
     (let r0 = rank l r
      in if r0 = SAME \<and> \<not> (mapped l = mapped r) then NOT_SAME else r0)"

definition replace_left ::
  "('k, 'm) env \<Rightarrow> ('k, 'm) providers \<Rightarrow> ('k, 'm) node_ptr \<Rightarrow> ('k, 'm) node_ptr \<Rightarrow> ('k, 'm) res"
  where
  "replace_left e S parent child =
     (if left' parent = child then (parent, S)
      else make_node_p e S parent child (right' parent))"

definition replace_right ::
  "('k, 'm) env \<Rightarrow> ('k, 'm) providers \<Rightarrow> ('k, 'm) node_ptr \<Rightarrow> ('k, 'm) node_ptr \<Rightarrow> ('k, 'm) res"
  where
  "replace_right e S parent child =
     (if right' parent = child then (parent, S)
      else make_node_p e S parent (left' parent) child)"

fun tsize :: "('k, 'm) node_ptr \<Rightarrow> nat" where
  "tsize Null = 0"
| "tsize (SNode a k p s h l r) = 1 + tsize l + tsize r"
| "tsize (MNode a k m kn h l r) = 1 + tsize l + tsize r"

lemma tsize_left [simp]: "n \<noteq> Null \<Longrightarrow> tsize (left' n) < tsize n"
  by (cases n) auto

lemma tsize_right [simp]: "n \<noteq> Null \<Longrightarrow> tsize (right' n) < tsize n"
  by (cases n) auto

lemma tsize_children: "n \<noteq> Null \<Longrightarrow> tsize n = 1 + tsize (left' n) + tsize (right' n)"
  by (cases n) auto

lemma ht_insert_result:
  "ht_insert T k = (q, T') \<Longrightarrow> q = k \<or> matches k q"
  by (auto simp: ht_insert_def Let_def find_Some_iff split: option.splits)

lemma tsize_matches: "matches k q \<Longrightarrow> tsize q \<le> 1 + tsize (left' k) + tsize (right' k)"
  by (cases q) (auto simp: matches_def)

lemma tsize_get_unique_set:
  "get_unique_set S p = (q, S') \<Longrightarrow> p \<noteq> Null \<Longrightarrow> tsize q \<le> 1 + tsize (left' p) + tsize (right' p)"
  using ht_insert_result tsize_matches
  by (fastforce simp: get_unique_set_def tsize_children split: prod.splits if_splits)

lemma tsize_get_unique_map:
  "get_unique_map S p = (q, S') \<Longrightarrow> p \<noteq> Null \<Longrightarrow> tsize q \<le> 1 + tsize (left' p) + tsize (right' p)"
  using ht_insert_result tsize_matches
  by (fastforce simp: get_unique_map_def tsize_children split: prod.splits if_splits)

lemma tsize_make_node_p:
  "make_node_p e S parent l r = (q, S') \<Longrightarrow> tsize q \<le> 1 + tsize l + tsize r"
  by (cases parent)
     (auto simp: create_set_def create_map_def Let_def split: prod.splits
           dest!: tsize_get_unique_set tsize_get_unique_map)

lemma tsize_replace_left:
  "replace_left e S p c = (q, S') \<Longrightarrow> p \<noteq> Null \<Longrightarrow> tsize q \<le> 1 + tsize c + tsize (right' p)"
  by (auto simp: replace_left_def tsize_children split: if_splits dest!: tsize_make_node_p)

lemma tsize_replace_right:
  "replace_right e S p c = (q, S') \<Longrightarrow> p \<noteq> Null \<Longrightarrow> tsize q \<le> 1 + tsize (left' p) + tsize c"
  by (auto simp: replace_right_def tsize_children split: if_splits dest!: tsize_make_node_p)

function join ::
  "('k::linorder, 'm) env \<Rightarrow> ('k, 'm) providers \<Rightarrow> ('k, 'm) node_ptr \<Rightarrow> ('k, 'm) node_ptr \<Rightarrow>
     ('k, 'm) res"
  where
  "join e S l r =
     (if l = Null then (r, S)
      else if r = Null then (l, S)
      else case rank l r of
             LEFT \<Rightarrow> (let (j, S1) = join e S (right' l) r in replace_right e S1 l j)
           | RIGHT \<Rightarrow> (let (j, S1) = join e S l (left' r) in replace_left e S1 r j)
           | _ \<Rightarrow> (Null, S))"
  by pat_completeness auto
termination
  by (relation "measure (\<lambda>(e, S, l, r). tsize l + tsize r)") auto

function split ::
  "('k::linorder, 'm) env \<Rightarrow> ('k, 'm) providers \<Rightarrow> ('k, 'm) node_ptr \<Rightarrow> 'k \<Rightarrow>
     (('k, 'm) node_ptr \<times> ('k, 'm) node_ptr) \<times> ('k, 'm) providers"
  where
  "split e S p k =
     (if p = Null then ((Null, Null), S)
      else if key p < k then
        (let ((s1, s2), S1) = split e S (right' p) k;
             (n, S2) = replace_right e S1 p s1
         in ((n, s2), S2))
      else
        (let ((s1, s2), S1) = split e S (left' p) k;
             (n, S2) = replace_left e S1 p s2
         in ((s1, n), S2)))"
  by pat_completeness auto
termination
  by (relation "measure (\<lambda>(e, S, p, k). tsize p)") auto

declare join.simps [simp del] split.simps [simp del]

lemma tsize_split:
  "split e S p k = ((a, b), S') \<Longrightarrow> tsize a + tsize b \<le> tsize p"
proof (induction e S p k arbitrary: a b S' rule: split.induct)
  case (1 e S p k)
  show ?case
  proof (cases "p = Null")
    case True
    with "1.prems" show ?thesis by (simp add: split.simps)
  next
    case False
    show ?thesis
    proof (cases "key p < k")
      case True
      obtain s1 s2 S1 where s: "split e S (right' p) k = ((s1, s2), S1)"
        by (metis prod.exhaust)
      obtain n S2 where n: "replace_right e S1 p s1 = (n, S2)" by (metis prod.exhaust)
      from "1.prems" False True s n have "a = n" "b = s2" by (simp_all add: split.simps)
      moreover from "1.IH"(1)[OF False True s] have "tsize s1 + tsize s2 \<le> tsize (right' p)" .
      moreover from tsize_replace_right[OF n False] have "tsize n \<le> 1 + tsize (left' p) + tsize s1" .
      ultimately show ?thesis using tsize_children[OF False] by simp
    next
      case F2: False
      obtain s1 s2 S1 where s: "split e S (left' p) k = ((s1, s2), S1)"
        by (metis prod.exhaust)
      obtain n S2 where n: "replace_left e S1 p s2 = (n, S2)" by (metis prod.exhaust)
      from "1.prems" False F2 s n have "a = s1" "b = n" by (simp_all add: split.simps)
      moreover from "1.IH"(2)[OF False F2 s] have "tsize s1 + tsize s2 \<le> tsize (left' p)" .
      moreover from tsize_replace_left[OF n False] have "tsize n \<le> 1 + tsize s2 + tsize (right' p)" .
      ultimately show ?thesis using tsize_children[OF False] by simp
    qed
  qed
qed

function set_union ::
  "('k::linorder, 'm) env \<Rightarrow> ('k, 'm) providers \<Rightarrow> ('k, 'm) node_ptr \<Rightarrow> ('k, 'm) node_ptr \<Rightarrow>
     ('k, 'm) res"
  where
  "set_union e S l r =
     (if l = r \<or> r = Null then (l, S)
      else if l = Null then (r, S)
      else case rank l r of
             LEFT \<Rightarrow>
               (let ((s1, s2), S1) = split e S r (key l);
                    (a, S2) = set_union e S1 (left' l) s1;
                    (b, S3) = set_union e S2 (right' l) s2
                in make_node_p e S3 l a b)
           | RIGHT \<Rightarrow>
               (let ((s1, s2), S1) = split e S l (key r);
                    (a, S2) = set_union e S1 s1 (left' r);
                    (b, S3) = set_union e S2 s2 (right' r)
                in make_node_p e S3 r a b)
           | _ \<Rightarrow>
               (let (a, S1) = set_union e S (left' l) (left' r);
                    (b, S2) = set_union e S1 (right' l) (right' r)
                in make_node_p e S2 l a b))"
  by pat_completeness auto
termination
  apply (relation "measure (\<lambda>(e, S, l, r). tsize l + tsize r)")
  apply (auto dest!: tsize_split[OF sym] simp: tsize_children)
  done

section \<open>Merge algorithms (set.h, lines 445--592; map.h, lines 76--128)\<close>

declare set_union.simps [simp del]

function set_intersection ::
  "(('k::linorder, 'm) node_ptr \<Rightarrow> ('k, 'm) node_ptr \<Rightarrow> ranking) \<Rightarrow> ('k, 'm) env \<Rightarrow>
     ('k, 'm) providers \<Rightarrow> ('k, 'm) node_ptr \<Rightarrow> ('k, 'm) node_ptr \<Rightarrow> ('k, 'm) res"
  where
  "set_intersection ranker e S l r =
     (if l = Null \<or> r = Null then (Null, S)
      else if l = r then (l, S)
      else case ranker l r of
             LEFT \<Rightarrow>
               (let ((s1, s2), S1) = split e S r (key l);
                    (a, S2) = set_intersection ranker e S1 (left' l) s1;
                    (b, S3) = set_intersection ranker e S2 (right' l) s2
                in join e S3 a b)
           | RIGHT \<Rightarrow>
               (let ((s1, s2), S1) = split e S l (key r);
                    (a, S2) = set_intersection ranker e S1 s1 (left' r);
                    (b, S3) = set_intersection ranker e S2 s2 (right' r)
                in join e S3 a b)
           | NOT_SAME \<Rightarrow>
               (let (a, S1) = set_intersection ranker e S (left' l) (left' r);
                    (b, S2) = set_intersection ranker e S1 (right' l) (right' r)
                in join e S2 a b)
           | SAME \<Rightarrow>
               (let (a, S1) = set_intersection ranker e S (left' l) (left' r);
                    (b, S2) = set_intersection ranker e S1 (right' l) (right' r)
                in make_node_p e S2 l a b))"
  by pat_completeness auto
termination
  apply (relation "measure (\<lambda>(rk, e, S, l, r). tsize l + tsize r)")
  apply (auto dest!: tsize_split[OF sym] simp: tsize_children)
  done

function set_difference ::
  "(('k::linorder, 'm) node_ptr \<Rightarrow> ('k, 'm) node_ptr \<Rightarrow> ranking) \<Rightarrow> ('k, 'm) env \<Rightarrow>
     ('k, 'm) providers \<Rightarrow> ('k, 'm) node_ptr \<Rightarrow> ('k, 'm) node_ptr \<Rightarrow> ('k, 'm) res"
  where
  "set_difference ranker e S l r =
     (if l = r \<or> l = Null then (Null, S)
      else if r = Null then (l, S)
      else case ranker l r of
             LEFT \<Rightarrow>
               (let ((s1, s2), S1) = split e S r (key l);
                    (a, S2) = set_difference ranker e S1 (left' l) s1;
                    (b, S3) = set_difference ranker e S2 (right' l) s2
                in make_node_p e S3 l a b)
           | RIGHT \<Rightarrow>
               (let ((s1, s2), S1) = split e S l (key r);
                    (a, S2) = set_difference ranker e S1 s1 (left' r);
                    (b, S3) = set_difference ranker e S2 s2 (right' r)
                in join e S3 a b)
           | NOT_SAME \<Rightarrow>
               (let (a, S1) = set_difference ranker e S (left' l) (left' r);
                    (b, S2) = set_difference ranker e S1 (right' l) (right' r)
                in make_node_p e S2 l a b)
           | SAME \<Rightarrow>
               (let (a, S1) = set_difference ranker e S (left' l) (left' r);
                    (b, S2) = set_difference ranker e S1 (right' l) (right' r)
                in join e S2 a b))"
  by pat_completeness auto
termination
  apply (relation "measure (\<lambda>(rk, e, S, l, r). tsize l + tsize r)")
  apply (auto dest!: tsize_split[OF sym] simp: tsize_children)
  done

function set_symmetric ::
  "('k::linorder, 'm) env \<Rightarrow> ('k, 'm) providers \<Rightarrow> ('k, 'm) node_ptr \<Rightarrow> ('k, 'm) node_ptr \<Rightarrow>
     ('k, 'm) res"
  where
  "set_symmetric e S l r =
     (if l = Null then (r, S)
      else if r = Null then (l, S)
      else if l = r then (Null, S)
      else case rank l r of
             LEFT \<Rightarrow>
               (let ((s1, s2), S1) = split e S r (key l);
                    (a, S2) = set_symmetric e S1 (left' l) s1;
                    (b, S3) = set_symmetric e S2 (right' l) s2
                in make_node_p e S3 l a b)
           | RIGHT \<Rightarrow>
               (let ((s1, s2), S1) = split e S l (key r);
                    (a, S2) = set_symmetric e S1 s1 (left' r);
                    (b, S3) = set_symmetric e S2 s2 (right' r)
                in make_node_p e S3 r a b)
           | _ \<Rightarrow>
               (let (a, S1) = set_symmetric e S (left' l) (left' r);
                    (b, S2) = set_symmetric e S1 (right' l) (right' r)
                in join e S2 a b))"
  by pat_completeness auto
termination
  apply (relation "measure (\<lambda>(e, S, l, r). tsize l + tsize r)")
  apply (auto dest!: tsize_split[OF sym] simp: tsize_children)
  done

function includes' ::
  "(('k::linorder, 'm) node_ptr \<Rightarrow> ('k, 'm) node_ptr \<Rightarrow> ranking) \<Rightarrow> ('k, 'm) env \<Rightarrow>
     ('k, 'm) providers \<Rightarrow> ('k, 'm) node_ptr \<Rightarrow> ('k, 'm) node_ptr \<Rightarrow>
     bool \<times> ('k, 'm) providers"
  where
  "includes' ranker e S l r =
     (if l = r \<or> r = Null then (True, S)
      else if node_size l < node_size r then (False, S)
      else if l = Null then (False, S)
      else case ranker l r of
             LEFT \<Rightarrow>
               (let ((s1, s2), S1) = split e S r (key l);
                    (b1, S2) = includes' ranker e S1 (left' l) s1
                in if b1 then includes' ranker e S2 (right' l) s2 else (False, S2))
           | SAME \<Rightarrow>
               (let (b1, S1) = includes' ranker e S (left' l) (left' r)
                in if b1 then includes' ranker e S1 (right' l) (right' r) else (False, S1))
           | _ \<Rightarrow> (False, S))"
  by pat_completeness auto
termination
  apply (relation "measure (\<lambda>(rk, e, S, l, r). tsize l + tsize r)")
  apply (auto dest!: tsize_split[OF sym] simp: tsize_children)
  done

function set_intersection_ks ::
  "('k::linorder, 'm) env \<Rightarrow> ('k, 'm) providers \<Rightarrow> ('k, 'm) node_ptr \<Rightarrow> ('k, 'm) node_ptr \<Rightarrow>
     ('k, 'm) res"
  where
  "set_intersection_ks e S l r =
     (if l = Null \<or> r = Null then (Null, S)
      else if key_node l = r then (l, S)
      else case rank (key_node l) r of
             LEFT \<Rightarrow>
               (let ((s1, s2), S1) = split e S r (key l);
                    (a, S2) = set_intersection_ks e S1 (left' l) s1;
                    (b, S3) = set_intersection_ks e S2 (right' l) s2
                in join e S3 a b)
           | RIGHT \<Rightarrow>
               (let ((s1, s2), S1) = split e S l (key r);
                    (a, S2) = set_intersection_ks e S1 s1 (left' r);
                    (b, S3) = set_intersection_ks e S2 s2 (right' r)
                in join e S3 a b)
           | _ \<Rightarrow>
               (let (a, S1) = set_intersection_ks e S (left' l) (left' r);
                    (b, S2) = set_intersection_ks e S1 (right' l) (right' r)
                in make_node_p e S2 l a b))"
  by pat_completeness auto
termination
  apply (relation "measure (\<lambda>(e, S, l, r). tsize l + tsize r)")
  apply (auto dest!: tsize_split[OF sym] simp: tsize_children)
  done

function set_difference_ks ::
  "('k::linorder, 'm) env \<Rightarrow> ('k, 'm) providers \<Rightarrow> ('k, 'm) node_ptr \<Rightarrow> ('k, 'm) node_ptr \<Rightarrow>
     ('k, 'm) res"
  where
  "set_difference_ks e S l r =
     (if l = Null then (Null, S)
      else if key_node l = r then (Null, S)
      else if r = Null then (l, S)
      else case rank (key_node l) r of
             LEFT \<Rightarrow>
               (let ((s1, s2), S1) = split e S r (key l);
                    (a, S2) = set_difference_ks e S1 (left' l) s1;
                    (b, S3) = set_difference_ks e S2 (right' l) s2
                in make_node_p e S3 l a b)
           | RIGHT \<Rightarrow>
               (let ((s1, s2), S1) = split e S l (key r);
                    (a, S2) = set_difference_ks e S1 s1 (left' r);
                    (b, S3) = set_difference_ks e S2 s2 (right' r)
                in join e S3 a b)
           | _ \<Rightarrow>
               (let (a, S1) = set_difference_ks e S (left' l) (left' r);
                    (b, S2) = set_difference_ks e S1 (right' l) (right' r)
                in join e S2 a b))"
  by pat_completeness auto
termination
  apply (relation "measure (\<lambda>(e, S, l, r). tsize l + tsize r)")
  apply (auto dest!: tsize_split[OF sym] simp: tsize_children)
  done

section \<open>Element operations and positional operations (set.h, lines 620--747)\<close>

declare set_intersection.simps [simp del] set_difference.simps [simp del]
  set_symmetric.simps [simp del] includes'.simps [simp del]
  set_intersection_ks.simps [simp del] set_difference_ks.simps [simp del]

text \<open>\<open>env.compare(p->value(), key)\<close>: every overload compares the keys.\<close>

definition compare_val :: "('k::linorder, 'm) val \<Rightarrow> ('k, 'm) val \<Rightarrow> bool" where
  "compare_val v w = (val_key v < val_key w)"

function erase ::
  "('k::linorder, 'm) env \<Rightarrow> ('k, 'm) providers \<Rightarrow> ('k, 'm) node_ptr \<Rightarrow> ('k, 'm) val \<Rightarrow>
     (('k, 'm) node_ptr \<times> bool) \<times> ('k, 'm) providers"
  where
  "erase e S p k =
     (if p = Null then ((Null, False), S)
      else if compare_val (node_value p) k then
        (let ((n, found), S1) = erase e S (right' p) k
         in if found then (let (q, S2) = replace_right e S1 p n in ((q, True), S2))
            else ((p, False), S1))
      else
        (let ((n, found), S1) = erase e S (left' p) k
         in if found then (let (q, S2) = replace_left e S1 p n in ((q, True), S2))
            else if \<not> equal_val (node_value p) k then ((p, True), S1)
            else (let (q, S2) = join e S1 (left' p) (right' p) in ((q, True), S2))))"
  by pat_completeness auto
termination
  by (relation "measure (\<lambda>(e, S, p, k). tsize p)") auto

function tail ::
  "('k::linorder, 'm) env \<Rightarrow> ('k, 'm) providers \<Rightarrow> ('k, 'm) node_ptr \<Rightarrow> nat \<Rightarrow> ('k, 'm) res"
  where
  "tail e S p first =
     (if p \<noteq> Null \<and> first > node_size (left' p)
      then tail e S (right' p) (first - (node_size (left' p) + 1))
      else if first = 0 then (p, S)
      else if p = Null then (Null, S)
      else (let (t, S1) = tail e S (left' p) first in replace_left e S1 p t))"
  by pat_completeness auto
termination
  by (relation "measure (\<lambda>(e, S, p, k). tsize p)") auto

function head ::
  "('k::linorder, 'm) env \<Rightarrow> ('k, 'm) providers \<Rightarrow> ('k, 'm) node_ptr \<Rightarrow> nat \<Rightarrow> ('k, 'm) res"
  where
  "head e S p lst =
     (if p \<noteq> Null \<and> lst \<le> node_size (left' p) then head e S (left' p) lst
      else if lst = node_size p then (p, S)
      else if p = Null then (Null, S)
      else (let (t, S1) = head e S (right' p) (lst - node_size (left' p) - 1)
            in replace_right e S1 p t))"
  by pat_completeness auto
termination
  by (relation "measure (\<lambda>(e, S, p, k). tsize p)") auto

function lower_bound_loop ::
  "('k, 'm) node_ptr \<Rightarrow> (('k, 'm) node_ptr \<Rightarrow> bool) \<Rightarrow> ('k, 'm) node_ptr \<times> nat \<Rightarrow> nat \<Rightarrow>
     ('k, 'm) node_ptr \<times> nat"
  where
  "lower_bound_loop p comparer best i =
     (if p = Null then best
      else if comparer p
        then lower_bound_loop (right' p) comparer best (i + (node_size (left' p) + 1))
      else lower_bound_loop (left' p) comparer (p, i + node_size (left' p)) i)"
  by pat_completeness auto
termination
  by (relation "measure (\<lambda>(p, c, b, k). tsize p)") auto

definition lower_bound ::
  "('k, 'm) node_ptr \<Rightarrow> (('k, 'm) node_ptr \<Rightarrow> bool) \<Rightarrow> ('k, 'm) node_ptr \<times> nat" where
  "lower_bound p comparer = lower_bound_loop p comparer (Null, node_size p) 0"

text \<open>The counts the container operations return are \<open>size_t\<close> differences.\<close>

definition size_diff :: "('k, 'm) node_ptr \<Rightarrow> ('k, 'm) node_ptr \<Rightarrow> size_t" where
  "size_diff p q = word_of_nat (node_size p) - word_of_nat (node_size q)"

definition add ::
  "('k::linorder, 'm) env \<Rightarrow> ('k, 'm) providers \<Rightarrow> ('k, 'm) node_ptr \<Rightarrow> ('k, 'm) node_ptr \<Rightarrow>
     size_t \<times> ('k, 'm) res"
  where
  "add e S p q = (let (p', S1) = set_union e S p q in (size_diff p' p, p', S1))"

definition diff ::
  "(('k::linorder, 'm) node_ptr \<Rightarrow> ('k, 'm) node_ptr \<Rightarrow> ranking) \<Rightarrow> ('k, 'm) env \<Rightarrow>
     ('k, 'm) providers \<Rightarrow> ('k, 'm) node_ptr \<Rightarrow> ('k, 'm) node_ptr \<Rightarrow> size_t \<times> ('k, 'm) res"
  where
  "diff ranker e S p q =
     (let (p', S1) = set_difference ranker e S p q in (size_diff p p', p', S1))"

definition intersect ::
  "(('k::linorder, 'm) node_ptr \<Rightarrow> ('k, 'm) node_ptr \<Rightarrow> ranking) \<Rightarrow> ('k, 'm) env \<Rightarrow>
     ('k, 'm) providers \<Rightarrow> ('k, 'm) node_ptr \<Rightarrow> ('k, 'm) node_ptr \<Rightarrow> size_t \<times> ('k, 'm) res"
  where
  "intersect ranker e S p q =
     (let (p', S1) = set_intersection ranker e S p q in (size_diff p p', p', S1))"

definition diff_ks ::
  "('k::linorder, 'm) env \<Rightarrow> ('k, 'm) providers \<Rightarrow> ('k, 'm) node_ptr \<Rightarrow> ('k, 'm) node_ptr \<Rightarrow>
     size_t \<times> ('k, 'm) res"
  where
  "diff_ks e S p q = (let (p', S1) = set_difference_ks e S p q in (size_diff p p', p', S1))"

definition intersect_ks ::
  "('k::linorder, 'm) env \<Rightarrow> ('k, 'm) providers \<Rightarrow> ('k, 'm) node_ptr \<Rightarrow> ('k, 'm) node_ptr \<Rightarrow>
     size_t \<times> ('k, 'm) res"
  where
  "intersect_ks e S p q =
     (let (p', S1) = set_intersection_ks e S p q in (size_diff p p', p', S1))"

definition erase_range ::
  "('k::linorder, 'm) env \<Rightarrow> ('k, 'm) providers \<Rightarrow> ('k, 'm) node_ptr \<Rightarrow> nat \<Rightarrow> nat \<Rightarrow>
     size_t \<times> ('k, 'm) res"
  where
  "erase_range e S p first lst =
     (let (h, S1) = head e S p first;
          (t, S2) = tail e S1 p lst;
          (p', S3) = join e S2 h t
      in (size_diff p p', p', S3))"

definition insert_value ::
  "('k::linorder, 'm) env \<Rightarrow> ('k, 'm) providers \<Rightarrow> ('k, 'm) node_ptr \<Rightarrow> ('k, 'm) val \<Rightarrow>
     size_t \<times> ('k, 'm) res"
  where
  "insert_value e S p v = (let (q, S1) = make_node e S v Null Null in add e S1 p q)"

definition erase_key ::
  "('k::linorder, 'm) env \<Rightarrow> ('k, 'm) providers \<Rightarrow> ('k, 'm) node_ptr \<Rightarrow> ('k, 'm) val \<Rightarrow>
     size_t \<times> ('k, 'm) res"
  where
  "erase_key e S p k = (let ((p', found), S1) = erase e S p k in (size_diff p p', p', S1))"

definition retain ::
  "('k::linorder, 'm) env \<Rightarrow> ('k, 'm) providers \<Rightarrow> ('k, 'm) node_ptr \<Rightarrow> nat \<Rightarrow> nat \<Rightarrow>
     size_t \<times> ('k, 'm) res"
  where
  "retain e S p first lst =
     (let (h, S1) = head e S p lst;
          (p', S2) = tail e S1 h first
      in (size_diff p p', p', S2))"

definition symmetric ::
  "('k::linorder, 'm) env \<Rightarrow> ('k, 'm) providers \<Rightarrow> ('k, 'm) node_ptr \<Rightarrow> ('k, 'm) node_ptr \<Rightarrow>
     ('k, 'm) res"
  where
  "symmetric e S p q = set_symmetric e S p q"

definition insert_or_assign_n ::
  "('k::linorder, 'm) env \<Rightarrow> ('k, 'm) providers \<Rightarrow> ('k, 'm) node_ptr \<Rightarrow> ('k, 'm) node_ptr \<Rightarrow>
     bool \<times> ('k, 'm) res"
  where
  "insert_or_assign_n e S p q = (let (r, S1) = set_union e S q p in (r \<noteq> p, r, S1))"

definition insert_or_assign ::
  "('k::linorder, 'm) env \<Rightarrow> ('k, 'm) providers \<Rightarrow> ('k, 'm) node_ptr \<Rightarrow> ('k, 'm) val \<Rightarrow>
     bool \<times> ('k, 'm) res"
  where
  "insert_or_assign e S p v =
     (let (q, S1) = make_node e S v Null Null in insert_or_assign_n e S1 p q)"

section \<open>Bulk build (set.h, lines 594--618)\<close>

function build ::
  "('k::linorder, 'm) env \<Rightarrow> ('k, 'm) providers \<Rightarrow> ('k, 'm) val list \<Rightarrow> nat \<Rightarrow>
     ('k, 'm) node_ptr \<times> ('k, 'm) val list \<times> ('k, 'm) providers"
  and build_loop ::
  "('k::linorder, 'm) env \<Rightarrow> ('k, 'm) providers \<Rightarrow> ('k, 'm) val list \<Rightarrow> ('k, 'm) node_ptr \<Rightarrow>
     nat \<Rightarrow> nat \<Rightarrow> ('k, 'm) node_ptr \<times> ('k, 'm) val list \<times> ('k, 'm) providers"
  where
  "build e S xs max_depth =
     (case xs of
        [] \<Rightarrow> (Null, xs, S)
      | x # xs' \<Rightarrow>
          (let (root, S1) = make_node e S x Null Null
           in build_loop e S1 xs' root 0 max_depth))"
| "build_loop e S xs root depth max_depth =
     (if depth < max_depth then
        (let (branch, xs', S1) = build e S xs depth
         in if branch = Null then (root, xs', S1)
            else (let (root', S2) = set_union e S1 root branch
                  in build_loop e S2 xs' root' (depth + 1) max_depth))
      else (root, xs, S))"
  by pat_completeness auto

termination
proof -
  have len:
    "build_build_loop_dom (Inl (e, S, xs, md)) \<Longrightarrow>
       length (fst (snd (build e S xs md))) \<le> length xs"
    "build_build_loop_dom (Inr (e, S, xs, root, d, md)) \<Longrightarrow>
       length (fst (snd (build_loop e S xs root d md))) \<le> length xs"
    for e :: "('k::linorder, 'm) env" and S xs md root d
  proof (induction e S xs md and e S xs root d md rule: build_build_loop.pinduct)
    case (1 e S xs max_depth)
    then show ?case
      by (auto simp: build.psimps split: list.splits prod.splits) fastforce
  next
    case (2 e S xs root depth max_depth)
    then show ?case
      by (auto simp: build_loop.psimps split: prod.splits if_splits) fastforce+
  qed
  show ?thesis
  proof (relation "inv_image (less_than <*lex*> less_than <*lex*> less_than)
         (\<lambda>x. case x of Inl (e, S, xs, md) \<Rightarrow> (length xs, md, 0::nat)
                 | Inr (e, S, xs, root, d, md) \<Rightarrow> (length xs, md, Suc (md - d)))", goal_cases)
    case 1
    then show ?case by (intro wf_inv_image wf_lex_prod wf_less_than)
  next
    case (2 e S xs max_depth x21 x22 x y)
    then show ?case by simp
  next
    case (3 e S xs root depth max_depth)
    then show ?case by simp
  next
    case (4 e S xs root depth max_depth x xa y xb ya xc yb)
    from 4(8) have "length (fst (snd (build e S xs depth))) \<le> length xs"
      by (rule len(1))
    moreover from 4(2,3,4) have "fst (snd (build e S xs depth)) = xb"
      by (metis fst_conv snd_conv)
    ultimately show ?case using 4(1) by auto
  qed
qed

section \<open>The public operations of the containers\<close>

text \<open>
  \<open>make_node(env, first, last)\<close> builds a tree from a range with the largest depth a
  \<open>size_t\<close> can hold; \<open>internal::insert\<close>, \<open>internal::assign\<close> and
  \<open>internal::insert_or_assign\<close> on a range go through it.
\<close>

definition make_node_range ::
  "('k::linorder, 'm) env \<Rightarrow> ('k, 'm) providers \<Rightarrow> ('k, 'm) val list \<Rightarrow>
     ('k, 'm) node_ptr \<times> ('k, 'm) val list \<times> ('k, 'm) providers"
  where
  "make_node_range e S xs = build e S xs (2 ^ 64 - 1)"

definition insert_range ::
  "('k::linorder, 'm) env \<Rightarrow> ('k, 'm) providers \<Rightarrow> ('k, 'm) node_ptr \<Rightarrow> ('k, 'm) val list \<Rightarrow>
     size_t \<times> ('k, 'm) res"
  where
  "insert_range e S p xs = (let (q, rest, S1) = make_node_range e S xs in add e S1 p q)"

definition assign_range ::
  "('k::linorder, 'm) env \<Rightarrow> ('k, 'm) providers \<Rightarrow> ('k, 'm) val list \<Rightarrow> ('k, 'm) res"
  where
  "assign_range e S xs = (let (q, rest, S1) = make_node_range e S xs in (q, S1))"

definition insert_or_assign_range ::
  "('k::linorder, 'm) env \<Rightarrow> ('k, 'm) providers \<Rightarrow> ('k, 'm) node_ptr \<Rightarrow> ('k, 'm) val list \<Rightarrow>
     bool \<times> ('k, 'm) res"
  where
  "insert_or_assign_range e S p xs =
     (let (q, rest, S1) = make_node_range e S xs in insert_or_assign_n e S1 p q)"

text \<open>\<open>clear()\<close> resets the root; \<open>empty()\<close> and \<open>size()\<close> read it.\<close>

definition clear :: "('k, 'm) node_ptr \<Rightarrow> ('k, 'm) node_ptr" where
  "clear p = (if p \<noteq> Null then Null else p)"

definition empty :: "('k, 'm) node_ptr \<Rightarrow> bool" where
  "empty p = (p = Null)"

text \<open>\<open>map::key_set()\<close>: the root of the result is the key node of the map's root.\<close>

definition key_set :: "('k, 'm) node_ptr \<Rightarrow> ('k, 'm) node_ptr" where
  "key_set p = (if p \<noteq> Null then key_node p else Null)"

text \<open>
  \<open>operator==\<close> compares the two root pointers, that is, the addresses of the two
  roots; the null pointer has no address.
\<close>

fun address :: "('k, 'm) node_ptr \<Rightarrow> nat option" where
  "address Null = None"
| "address (SNode a k p s h l r) = Some a"
| "address (MNode a k m kn h l r) = Some a"

definition ptr_eq :: "('k, 'm) node_ptr \<Rightarrow> ('k, 'm) node_ptr \<Rightarrow> bool" where
  "ptr_eq a b = (address a = address b)"

text \<open>\<open>map::at\<close>: the lower bound of the key, or \<open>std::out_of_range\<close>.\<close>

datatype error = KeyNotFound

definition at :: "('k::linorder, 'm) node_ptr \<Rightarrow> 'k \<Rightarrow> error + 'm" where
  "at p k =
     (let q = fst (lower_bound p (\<lambda>n. key n < k))
      in if q = Null \<or> \<not> key q = k then Inl KeyNotFound else Inr (mapped q))"

text \<open>
  Expressions over the operators \<open>|\<close>, \<open>&\<close>, \<open>-\<close> and \<open>^\<close> of \<open>set\<close>, evaluated from
  left to right; every operator interns the nodes of its result in the provider.
\<close>

datatype ('k, 'm) set_expr =
    Operand "('k, 'm) node_ptr"
  | Or_op "('k, 'm) set_expr" "('k, 'm) set_expr"
  | And_op "('k, 'm) set_expr" "('k, 'm) set_expr"
  | Minus_op "('k, 'm) set_expr" "('k, 'm) set_expr"
  | Xor_op "('k, 'm) set_expr" "('k, 'm) set_expr"

fun eval ::
  "('k::linorder, 'm) env \<Rightarrow> ('k, 'm) providers \<Rightarrow> ('k, 'm) set_expr \<Rightarrow> ('k, 'm) res" where
  "eval e S (Operand a) = (a, S)"
| "eval e S (Or_op x y) =
     (let (a, S1) = eval e S x; (b, S2) = eval e S1 y in set_union e S2 a b)"
| "eval e S (And_op x y) =
     (let (a, S1) = eval e S x; (b, S2) = eval e S1 y in set_intersection rank e S2 a b)"
| "eval e S (Minus_op x y) =
     (let (a, S1) = eval e S x; (b, S2) = eval e S1 y in set_difference rank e S2 a b)"
| "eval e S (Xor_op x y) =
     (let (a, S1) = eval e S x; (b, S2) = eval e S1 y in set_symmetric e S2 a b)"

definition equal_exprs ::
  "('k::linorder, 'm) env \<Rightarrow> ('k, 'm) providers \<Rightarrow> ('k, 'm) set_expr \<Rightarrow> ('k, 'm) set_expr \<Rightarrow>
     bool" where
  "equal_exprs e S x y = (let (a, S1) = eval e S x; (b, S2) = eval e S1 y in ptr_eq a b)"

definition empty_expr ::
  "('k::linorder, 'm) env \<Rightarrow> ('k, 'm) providers \<Rightarrow> ('k, 'm) set_expr \<Rightarrow> bool" where
  "empty_expr e S x = empty (fst (eval e S x))"

text \<open>
  Copy assignment and \<open>swap\<close> act on two container objects, which may be the same
  object: a container is a provider and a root, and the objects live in a store.
\<close>

record ('k, 'm) container =
  provider' :: nat
  node' :: "('k, 'm) node_ptr"

type_synonym ('k, 'm) store = "nat \<Rightarrow> ('k, 'm) container"

definition clear_at :: "('k, 'm) store \<Rightarrow> nat \<Rightarrow> ('k, 'm) store" where
  "clear_at H this = H(this := (H this)\<lparr>node' := clear (node' (H this))\<rparr>)"

definition assign :: "('k, 'm) store \<Rightarrow> nat \<Rightarrow> nat \<Rightarrow> ('k, 'm) store" where
  "assign H this other =
     (let H1 = clear_at H this;
          H2 = H1(this := (H1 this)\<lparr>provider' := provider' (H1 other)\<rparr>);
          H3 = H2(this := (H2 this)\<lparr>node' := node' (H2 other)\<rparr>)
      in H3)"

definition swap :: "('k, 'm) store \<Rightarrow> nat \<Rightarrow> nat \<Rightarrow> ('k, 'm) store" where
  "swap H this other =
     (let p = provider' (H this);
          H1 = H(this := (H this)\<lparr>provider' := provider' (H other)\<rparr>);
          H2 = H1(other := (H1 other)\<lparr>provider' := p\<rparr>);
          n = node' (H2 this);
          H3 = H2(this := (H2 this)\<lparr>node' := node' (H2 other)\<rparr>);
          H4 = H3(other := (H3 other)\<lparr>node' := n\<rparr>)
      in H4)"

text \<open>
  The states a program reaches through the public operations: the tables of the
  provider, the roots of the sets and the roots of the maps that exist. A copy of a
  container has the root of the original, and \<open>clear\<close> gives the empty root, which
  is there from the start.
\<close>

inductive reach ::
  "('k::linorder, 'm) env \<Rightarrow> ('k, 'm) providers \<Rightarrow> ('k, 'm) node_ptr set \<Rightarrow>
     ('k, 'm) node_ptr set \<Rightarrow> bool"
  for e :: "('k::linorder, 'm) env"
  where
    init: "reach e new_providers {Null} {Null}"
  | set_insert:
      "reach e S A M \<Longrightarrow> a \<in> A \<Longrightarrow> insert_value e S a (KeyV x) = (cnt, n, S') \<Longrightarrow>
         reach e S' (insert n A) M"
  | set_insert_range:
      "reach e S A M \<Longrightarrow> a \<in> A \<Longrightarrow> insert_range e S a (map KeyV xs) = (cnt, n, S') \<Longrightarrow>
         reach e S' (insert n A) M"
  | set_insert_set:
      "reach e S A M \<Longrightarrow> a \<in> A \<Longrightarrow> b \<in> A \<Longrightarrow> add e S a b = (cnt, n, S') \<Longrightarrow>
         reach e S' (insert n A) M"
  | set_erase:
      "reach e S A M \<Longrightarrow> a \<in> A \<Longrightarrow> erase_key e S a (KeyV x) = (cnt, n, S') \<Longrightarrow>
         reach e S' (insert n A) M"
  | set_erase_range:
      "reach e S A M \<Longrightarrow> a \<in> A \<Longrightarrow> first \<le> lst \<Longrightarrow> lst \<le> node_size a \<Longrightarrow>
         erase_range e S a first lst = (cnt, n, S') \<Longrightarrow> reach e S' (insert n A) M"
  | set_erase_set:
      "reach e S A M \<Longrightarrow> a \<in> A \<Longrightarrow> b \<in> A \<Longrightarrow> diff rank e S a b = (cnt, n, S') \<Longrightarrow>
         reach e S' (insert n A) M"
  | set_retain_range:
      "reach e S A M \<Longrightarrow> a \<in> A \<Longrightarrow> first \<le> lst \<Longrightarrow> lst \<le> node_size a \<Longrightarrow>
         retain e S a first lst = (cnt, n, S') \<Longrightarrow> reach e S' (insert n A) M"
  | set_retain_set:
      "reach e S A M \<Longrightarrow> a \<in> A \<Longrightarrow> b \<in> A \<Longrightarrow> intersect rank e S a b = (cnt, n, S') \<Longrightarrow>
         reach e S' (insert n A) M"
  | set_assign_range:
      "reach e S A M \<Longrightarrow> assign_range e S (map KeyV xs) = (n, S') \<Longrightarrow>
         reach e S' (insert n A) M"
  | set_or:
      "reach e S A M \<Longrightarrow> a \<in> A \<Longrightarrow> b \<in> A \<Longrightarrow> set_union e S a b = (n, S') \<Longrightarrow>
         reach e S' (insert n A) M"
  | set_and:
      "reach e S A M \<Longrightarrow> a \<in> A \<Longrightarrow> b \<in> A \<Longrightarrow> set_intersection rank e S a b = (n, S') \<Longrightarrow>
         reach e S' (insert n A) M"
  | set_minus:
      "reach e S A M \<Longrightarrow> a \<in> A \<Longrightarrow> b \<in> A \<Longrightarrow> set_difference rank e S a b = (n, S') \<Longrightarrow>
         reach e S' (insert n A) M"
  | set_xor:
      "reach e S A M \<Longrightarrow> a \<in> A \<Longrightarrow> b \<in> A \<Longrightarrow> symmetric e S a b = (n, S') \<Longrightarrow>
         reach e S' (insert n A) M"
  | set_includes:
      "reach e S A M \<Longrightarrow> a \<in> A \<Longrightarrow> b \<in> A \<Longrightarrow> includes' rank e S a b = (r, S') \<Longrightarrow>
         reach e S' A M"
  | map_insert:
      "reach e S A M \<Longrightarrow> m \<in> M \<Longrightarrow> insert_value e S m (PairV x y) = (cnt, n, S') \<Longrightarrow>
         reach e S' A (insert n M)"
  | map_insert_range:
      "reach e S A M \<Longrightarrow> m \<in> M \<Longrightarrow>
         insert_range e S m (map (\<lambda>p. PairV (fst p) (snd p)) xs) = (cnt, n, S') \<Longrightarrow>
         reach e S' A (insert n M)"
  | map_insert_map:
      "reach e S A M \<Longrightarrow> m \<in> M \<Longrightarrow> m' \<in> M \<Longrightarrow> add e S m m' = (cnt, n, S') \<Longrightarrow>
         reach e S' A (insert n M)"
  | map_insert_or_assign:
      "reach e S A M \<Longrightarrow> m \<in> M \<Longrightarrow> insert_or_assign e S m (PairV x y) = (chg, n, S') \<Longrightarrow>
         reach e S' A (insert n M)"
  | map_insert_or_assign_range:
      "reach e S A M \<Longrightarrow> m \<in> M \<Longrightarrow>
         insert_or_assign_range e S m (map (\<lambda>p. PairV (fst p) (snd p)) xs) = (chg, n, S') \<Longrightarrow>
         reach e S' A (insert n M)"
  | map_insert_or_assign_map:
      "reach e S A M \<Longrightarrow> m \<in> M \<Longrightarrow> m' \<in> M \<Longrightarrow>
         insert_or_assign_n e S m m' = (chg, n, S') \<Longrightarrow> reach e S' A (insert n M)"
  | map_erase:
      "reach e S A M \<Longrightarrow> m \<in> M \<Longrightarrow> erase_key e S m (KeyV x) = (cnt, n, S') \<Longrightarrow>
         reach e S' A (insert n M)"
  | map_erase_value:
      "reach e S A M \<Longrightarrow> m \<in> M \<Longrightarrow> erase_key e S m (PairV x y) = (cnt, n, S') \<Longrightarrow>
         reach e S' A (insert n M)"
  | map_erase_range:
      "reach e S A M \<Longrightarrow> m \<in> M \<Longrightarrow> first \<le> lst \<Longrightarrow> lst \<le> node_size m \<Longrightarrow>
         erase_range e S m first lst = (cnt, n, S') \<Longrightarrow> reach e S' A (insert n M)"
  | map_erase_keys:
      "reach e S A M \<Longrightarrow> m \<in> M \<Longrightarrow> a \<in> A \<Longrightarrow> diff_ks e S m a = (cnt, n, S') \<Longrightarrow>
         reach e S' A (insert n M)"
  | map_erase_map:
      "reach e S A M \<Longrightarrow> m \<in> M \<Longrightarrow> m' \<in> M \<Longrightarrow> diff map_rank e S m m' = (cnt, n, S') \<Longrightarrow>
         reach e S' A (insert n M)"
  | map_retain_range:
      "reach e S A M \<Longrightarrow> m \<in> M \<Longrightarrow> first \<le> lst \<Longrightarrow> lst \<le> node_size m \<Longrightarrow>
         retain e S m first lst = (cnt, n, S') \<Longrightarrow> reach e S' A (insert n M)"
  | map_retain_keys:
      "reach e S A M \<Longrightarrow> m \<in> M \<Longrightarrow> a \<in> A \<Longrightarrow> intersect_ks e S m a = (cnt, n, S') \<Longrightarrow>
         reach e S' A (insert n M)"
  | map_retain_map:
      "reach e S A M \<Longrightarrow> m \<in> M \<Longrightarrow> m' \<in> M \<Longrightarrow>
         intersect map_rank e S m m' = (cnt, n, S') \<Longrightarrow> reach e S' A (insert n M)"
  | map_assign_range:
      "reach e S A M \<Longrightarrow>
         assign_range e S (map (\<lambda>p. PairV (fst p) (snd p)) xs) = (n, S') \<Longrightarrow>
         reach e S' A (insert n M)"
  | map_or:
      "reach e S A M \<Longrightarrow> m \<in> M \<Longrightarrow> m' \<in> M \<Longrightarrow> set_union e S m m' = (n, S') \<Longrightarrow>
         reach e S' A (insert n M)"
  | map_and:
      "reach e S A M \<Longrightarrow> m \<in> M \<Longrightarrow> m' \<in> M \<Longrightarrow>
         set_intersection map_rank e S m m' = (n, S') \<Longrightarrow> reach e S' A (insert n M)"
  | map_and_keys:
      "reach e S A M \<Longrightarrow> m \<in> M \<Longrightarrow> a \<in> A \<Longrightarrow> set_intersection_ks e S m a = (n, S') \<Longrightarrow>
         reach e S' A (insert n M)"
  | map_minus:
      "reach e S A M \<Longrightarrow> m \<in> M \<Longrightarrow> m' \<in> M \<Longrightarrow>
         set_difference map_rank e S m m' = (n, S') \<Longrightarrow> reach e S' A (insert n M)"
  | map_minus_keys:
      "reach e S A M \<Longrightarrow> m \<in> M \<Longrightarrow> a \<in> A \<Longrightarrow> set_difference_ks e S m a = (n, S') \<Longrightarrow>
         reach e S' A (insert n M)"
  | map_includes:
      "reach e S A M \<Longrightarrow> m \<in> M \<Longrightarrow> m' \<in> M \<Longrightarrow> includes' map_rank e S m m' = (r, S') \<Longrightarrow>
         reach e S' A M"
  | map_key_set:
      "reach e S A M \<Longrightarrow> m \<in> M \<Longrightarrow> reach e S (insert (key_set m) A) M"

text \<open>The nodes of a tree, in order.\<close>

fun subtrees :: "('k, 'm) node_ptr \<Rightarrow> ('k, 'm) node_ptr list" where
  "subtrees Null = []"
| "subtrees (SNode a k p s h l r) = subtrees l @ SNode a k p s h l r # subtrees r"
| "subtrees (MNode a k m kn h l r) = subtrees l @ MNode a k m kn h l r # subtrees r"

section \<open>The intern table keeps its nodes\<close>

definition nodes :: "('k, 'm) hash_table \<Rightarrow> ('k, 'm) node_ptr set" where
  "nodes T = \<Union> (set ` set (buckets' T))"

definition ht_ok :: "('k, 'm) hash_table \<Rightarrow> bool" where
  "ht_ok T =
     ((\<exists>j. bucket_count' T = 2 ^ j) \<and>
      length (buckets' T) = bucket_count' T \<and>
      (\<forall>i < bucket_count' T. \<forall>n \<in> set (buckets' T ! i). pos T n = i) \<and>
      (bucket_count' T = min_bucket_count' \<or> bucket_count' T \<le> 2 * size_ht' T))"

lemma mask_and_less:
  fixes h :: size_t
  shows "unat (h AND (word_of_nat (2 ^ j) - 1)) < 2 ^ j"
proof (cases "j < 64")
  case True
  have "(word_of_nat (2 ^ j) - 1 :: size_t) = mask j"
    by (simp add: mask_eq_exp_minus_1)
  then have "h AND (word_of_nat (2 ^ j) - 1) = take_bit j h"
    by (simp add: take_bit_eq_mask)
  then show ?thesis
    by (simp add: unsigned_take_bit_eq take_bit_nat_less_exp)
next
  case False
  have "unat (h AND (word_of_nat (2 ^ j) - 1)) < 2 ^ 64"
    using unsigned_less[of "h AND (word_of_nat (2 ^ j) - 1)"] by simp
  also have "(2::nat) ^ 64 \<le> 2 ^ j"
    using False by (intro power_increasing) auto
  finally show ?thesis .
qed

lemma nodes_nth: "nodes T = (\<Union>i < length (buckets' T). set (buckets' T ! i))"
proof -
  have "set (buckets' T) = (\<lambda>i. buckets' T ! i) ` {..< length (buckets' T)}"
    by (auto simp: set_conv_nth)
  then show ?thesis by (simp add: nodes_def image_image)
qed

lemma pos_less: "ht_ok T \<Longrightarrow> pos T n < bucket_count' T"
  unfolding ht_ok_def pos_def using mask_and_less by metis

lemma fold_buckets_concat:
  "n \<le> length B \<Longrightarrow> fold (\<lambda>i nb. fold g (B ! i) nb) [0 ..< n] nb0 = fold g (concat (take n B)) nb0"
  by (induction n arbitrary: nb0) (auto simp: take_Suc_conv_app_nth)

lemma fold_push_length:
  "length (fold (\<lambda>x nb. nb[f x := x # nb ! f x]) xs nb) = length nb"
  by (induction xs arbitrary: nb) auto

lemma fold_push_nth:
  "(\<forall>x \<in> set xs. f x < length nb) \<Longrightarrow> j < length nb \<Longrightarrow>
     set (fold (\<lambda>x nb. nb[f x := x # nb ! f x]) xs nb ! j) = set (nb ! j) \<union> {x \<in> set xs. f x = j}"
proof (induction xs arbitrary: nb)
  case Nil
  then show ?case by simp
next
  case (Cons a xs)
  let ?nb = "nb[f a := a # nb ! f a]"
  have "set (fold (\<lambda>x nb. nb[f x := x # nb ! f x]) xs ?nb ! j) = set (?nb ! j) \<union> {x \<in> set xs. f x = j}"
    using Cons.prems by (intro Cons.IH) auto
  moreover have "set (?nb ! j) = set (nb ! j) \<union> (if f a = j then {a} else {})"
    using Cons.prems by (auto simp: nth_list_update)
  ultimately show ?case by auto
qed

lemma extend_buckets:
  assumes "ht_ok T"
  shows "bucket_count' (ht_extend T) = 2 * bucket_count' T"
    and "length (buckets' (ht_extend T)) = 2 * bucket_count' T"
    and "size_ht' (ht_extend T) = size_ht' T"
    and "j < 2 * bucket_count' T \<Longrightarrow>
           set (buckets' (ht_extend T) ! j) = {x \<in> nodes T. pos (ht_extend T) x = j}"
proof -
  let ?T1 = "T\<lparr>bucket_count' := bucket_count' T * 2\<rparr>"
  let ?f = "pos ?T1"
  have len: "length (buckets' T) = bucket_count' T" using assms by (simp add: ht_ok_def)
  have b: "buckets' (ht_extend T) =
             fold (\<lambda>x nb. nb[?f x := x # nb ! ?f x]) (concat (buckets' T))
               (replicate (2 * bucket_count' T) [])"
    using len by (simp add: ht_extend_def Let_def fold_buckets_concat mult.commute)
  show "bucket_count' (ht_extend T) = 2 * bucket_count' T" by (simp add: ht_extend_def Let_def)
  show "length (buckets' (ht_extend T)) = 2 * bucket_count' T"
    by (simp add: b fold_push_length)
  show "size_ht' (ht_extend T) = size_ht' T" by (simp add: ht_extend_def Let_def)
  have pe: "pos (ht_extend T) = ?f" by (simp add: ht_extend_def Let_def pos_def fun_eq_iff)
  obtain k where k: "bucket_count' T = 2 ^ k" using assms by (auto simp: ht_ok_def)
  have "bucket_count' ?T1 = 2 ^ Suc k" using k by simp
  then have fl: "?f x < 2 * bucket_count' T" for x
    unfolding pos_def using mask_and_less[of "hash' x" "Suc k"] k by (simp add: mult.commute)
  show "set (buckets' (ht_extend T) ! j) = {x \<in> nodes T. pos (ht_extend T) x = j}"
    if "j < 2 * bucket_count' T"
    unfolding b pe using that fl
    by (subst fold_push_nth) (auto simp: nodes_def)
qed

lemma ht_ok_extend:
  assumes "ht_ok T" "size_ht' T \<ge> bucket_count' T"
  shows "ht_ok (ht_extend T)" "nodes (ht_extend T) = nodes T"
proof -
  note eb = extend_buckets[OF assms(1)]
  obtain k where k: "bucket_count' T = 2 ^ k" using assms by (auto simp: ht_ok_def)
  have "bucket_count' (ht_extend T) = 2 ^ Suc k" using k eb(1) by simp
  then have "\<exists>j. bucket_count' (ht_extend T) = 2 ^ j" by blast
  then show ok: "ht_ok (ht_extend T)"
    unfolding ht_ok_def using eb assms(2) by auto
  have "nodes (ht_extend T) = (\<Union>j < 2 * bucket_count' T. set (buckets' (ht_extend T) ! j))"
    using eb(2) by (simp add: nodes_nth)
  also have "\<dots> = (\<Union>j < 2 * bucket_count' T. {x \<in> nodes T. pos (ht_extend T) x = j})"
    using eb(4) by simp
  also have "\<dots> = nodes T"
    using pos_less[OF ok] eb(1) by auto
  finally show "nodes (ht_extend T) = nodes T" .
qed

lemma rehash_ok:
  assumes "ht_ok T"
  shows "ht_ok (ht_rehash T)" "nodes (ht_rehash T) = nodes T"
    "size_ht' (ht_rehash T) = size_ht' T"
proof -
  have nr: "\<not> (size_ht' T > min_bucket_count' \<and> size_ht' T * 2 < bucket_count' T)"
    using assms by (auto simp: ht_ok_def)
  show "ht_ok (ht_rehash T)" "nodes (ht_rehash T) = nodes T" "size_ht' (ht_rehash T) = size_ht' T"
    using assms nr ht_ok_extend[of T] extend_buckets(3)[of T]
    by (auto simp: ht_rehash_def)
qed

lemma nodes_chain:
  "ht_ok T \<Longrightarrow> i < bucket_count' T \<Longrightarrow> set (buckets' T ! i) = {n \<in> nodes T. pos T n = i}"
  unfolding ht_ok_def nodes_nth by auto

lemma matches_hash: "matches k q \<Longrightarrow> hash' q = hash' k"
  by (simp add: matches_def)

lemma ht_insert_spec:
  assumes "ht_ok T" "ht_insert T k = (q, T')"
  shows "ht_ok T'"
    and "nodes T' = insert q (nodes T)"
    and "q = k \<or> (q \<in> nodes T \<and> matches k q)"
    and "q = k \<Longrightarrow> k \<in> nodes T \<or> (\<forall>n \<in> nodes T. \<not> matches k n)"
proof -
  let ?T1 = "ht_rehash T"
  let ?i = "pos ?T1 k"
  let ?chain = "buckets' ?T1 ! ?i"
  note r = rehash_ok[OF assms(1)]
  have il: "?i < bucket_count' ?T1" using pos_less[OF r(1)] .
  have ch: "set ?chain = {n \<in> nodes T. pos ?T1 n = ?i}"
    using nodes_chain[OF r(1) il] r(2) by simp
  have samepos: "matches k n \<Longrightarrow> pos ?T1 n = ?i" for n
    by (simp add: pos_def matches_hash)
  have all: "ht_ok T' \<and> nodes T' = insert q (nodes T) \<and>
      (q = k \<or> (q \<in> nodes T \<and> matches k q)) \<and>
      (q = k \<longrightarrow> k \<in> nodes T \<or> (\<forall>n \<in> nodes T. \<not> matches k n))"
  proof (cases "find (matches k) ?chain")
    case None
    then have qk: "q = k"
      and T': "T' = ?T1\<lparr>buckets' := (buckets' ?T1)[?i := ?chain @ [k]], size_ht' := size_ht' ?T1 + 1\<rparr>"
      using assms(2) by (auto simp: ht_insert_def Let_def)
    have "\<forall>n \<in> set ?chain. \<not> matches k n"
      using None by (simp add: find_None_iff)
    then have nomatch: "\<forall>n \<in> nodes T. \<not> matches k n"
      using ch samepos by blast
    have len: "length (buckets' ?T1) = bucket_count' ?T1" using r(1) by (simp add: ht_ok_def)
    have posT': "pos T' = pos ?T1" by (simp add: T' pos_def fun_eq_iff)
    have "ht_ok T'"
      unfolding ht_ok_def
    proof (intro conjI allI impI ballI)
      show "\<exists>j. bucket_count' T' = 2 ^ j" using r(1) by (simp add: T' ht_ok_def)
      show "length (buckets' T') = bucket_count' T'" using len by (simp add: T')
      show "pos T' n = j" if "j < bucket_count' T'" "n \<in> set (buckets' T' ! j)" for j n
      proof (cases "j = ?i")
        case True
        then have "n \<in> set ?chain \<or> n = k" using that il len by (simp add: T') blast
        then show ?thesis using ch True posT' by (cases "n = k") auto
      next
        case False
        then have "n \<in> set (buckets' ?T1 ! j)" using that by (simp add: T')
        moreover have "j < bucket_count' ?T1" using that by (simp add: T')
        ultimately show ?thesis using r(1) posT' by (simp add: ht_ok_def)
      qed
      show "bucket_count' T' = min_bucket_count' \<or> bucket_count' T' \<le> 2 * size_ht' T'"
        using r(1) by (simp add: T' ht_ok_def) linarith
    qed
    moreover have "nodes T' = insert k (nodes T)"
    proof -
      let ?B = "buckets' ?T1"
      have "nodes T' = (\<Union>j < length ?B. set (?B[?i := ?chain @ [k]] ! j))"
        by (simp add: nodes_nth T')
      also have "\<dots> = (\<Union>j < length ?B. set (?B ! j) \<union> (if j = ?i then {k} else {}))"
        by (intro SUP_cong) (auto simp: nth_list_update)
      also have "\<dots> = insert k (\<Union>j < length ?B. set (?B ! j))"
        using il len by (auto split: if_splits)
      finally show ?thesis using r(2) by (simp add: nodes_nth)
    qed
    ultimately show ?thesis
      using qk nomatch by simp
  next
    case (Some q')
    then have q: "q = q'" and T': "T' = ?T1" using assms(2) by (auto simp: ht_insert_def Let_def)
    from Some have "q' \<in> set ?chain" "matches k q'" by (auto simp: find_Some_iff)
    then have "q \<in> nodes T" "matches k q" using ch q by auto
    then show ?thesis
      using r T' by (auto simp: insert_absorb)
  qed
  from all show "ht_ok T'" "nodes T' = insert q (nodes T)"
    "q = k \<or> (q \<in> nodes T \<and> matches k q)"
    "q = k \<Longrightarrow> k \<in> nodes T \<or> (\<forall>n \<in> nodes T. \<not> matches k n)"
    by simp_all
qed

section \<open>Contents of a tree\<close>

fun keys :: "('k, 'm) node_ptr \<Rightarrow> 'k set" where
  "keys Null = {}"
| "keys (SNode a k p s h l r) = insert k (keys l \<union> keys r)"
| "keys (MNode a k m kn h l r) = insert k (keys l \<union> keys r)"

fun vals :: "('k, 'm) node_ptr \<Rightarrow> ('k, 'm) val set" where
  "vals Null = {}"
| "vals (SNode a k p s h l r) = insert (KeyV k) (vals l \<union> vals r)"
| "vals (MNode a k m kn h l r) = insert (PairV k m) (vals l \<union> vals r)"

fun inorder :: "('k, 'm) node_ptr \<Rightarrow> ('k, 'm) val list" where
  "inorder Null = []"
| "inorder (SNode a k p s h l r) = inorder l @ KeyV k # inorder r"
| "inorder (MNode a k m kn h l r) = inorder l @ PairV k m # inorder r"

lemma set_inorder: "set (inorder n) = vals n"
  by (induction n) auto

lemma keys_vals: "keys n = val_key ` vals n"
  by (induction n) auto

lemma keys_node: "n \<noteq> Null \<Longrightarrow> keys n = insert (key n) (keys (left' n) \<union> keys (right' n))"
  by (cases n) auto

lemma vals_node:
  "n \<noteq> Null \<Longrightarrow> vals n = insert (node_value n) (vals (left' n) \<union> vals (right' n))"
  by (cases n) auto

lemma inorder_node:
  "n \<noteq> Null \<Longrightarrow> inorder n = inorder (left' n) @ node_value n # inorder (right' n)"
  by (cases n) auto

lemma val_key_node_value [simp]: "n \<noteq> Null \<Longrightarrow> val_key (node_value n) = key n"
  by (cases n) auto

lemma keys_empty_iff [simp]: "keys n = {} \<longleftrightarrow> n = Null"
  by (cases n) auto

lemma vals_empty_iff [simp]: "vals n = {} \<longleftrightarrow> n = Null"
  by (cases n) auto

lemma finite_keys [simp]: "finite (keys n)"
  by (induction n) auto

section \<open>The order of the treap: priority first, then key\<close>

definition prio :: "('k, 'm) env \<Rightarrow> 'k \<Rightarrow> size_t" where
  "prio e k = intmix (key_hash e k)"

definition before :: "('k::linorder, 'm) env \<Rightarrow> 'k \<Rightarrow> 'k \<Rightarrow> bool" where
  "before e a b = (prio e a < prio e b \<or> (prio e a = prio e b \<and> a < b))"

lemma before_irrefl [simp]: "\<not> before e a a"
  by (simp add: before_def)

lemma before_trans: "before e a b \<Longrightarrow> before e b c \<Longrightarrow> before e a c"
  by (auto simp: before_def)

lemma before_asym: "before e a b \<Longrightarrow> \<not> before e b a"
  by (auto simp: before_def)

lemma before_total: "a \<noteq> b \<Longrightarrow> before e a b \<or> before e b a"
  by (auto simp: before_def)

section \<open>The invariant of the providers\<close>

datatype category = set_tag | map_tag

fun table :: "category \<Rightarrow> ('k, 'm) providers \<Rightarrow> ('k, 'm) hash_table" where
  "table set_tag S = set_table S"
| "table map_tag S = map_table S"

fun is_cat :: "category \<Rightarrow> ('k, 'm) node_ptr \<Rightarrow> bool" where
  "is_cat set_tag n = is_SNode n"
| "is_cat map_tag n = is_MNode n"

definition live :: "category \<Rightarrow> ('k, 'm) providers \<Rightarrow> ('k, 'm) node_ptr \<Rightarrow> bool" where
  "live c S n = (n = Null \<or> n \<in> nodes (table c S))"

fun fields_ok :: "('k, 'm) env \<Rightarrow> ('k, 'm) providers \<Rightarrow> ('k, 'm) node_ptr \<Rightarrow> bool" where
  "fields_ok e S Null = False"
| "fields_ok e S (SNode a k p s h l r) =
     (p = prio e k \<and> s = 1 + node_size l + node_size r \<and>
      h = hash_combine3 (hash l) (hash r) p)"
| "fields_ok e S (MNode a k m kn h l r) =
     (kn \<in> nodes (set_table S) \<and> key kn = k \<and>
      left' kn = key_node l \<and> right' kn = key_node r \<and>
      h = hash_combine4 (hash l) (hash r) (mapped_hash e m) (hash' kn))"

definition good ::
  "('k::linorder, 'm) env \<Rightarrow> ('k, 'm) providers \<Rightarrow> category \<Rightarrow> ('k, 'm) node_ptr \<Rightarrow> bool" where
  "good e S c n =
     (is_cat c n \<and> addr n < brk S \<and>
      live c S (left' n) \<and> live c S (right' n) \<and>
      (\<forall>x \<in> keys (left' n). x < key n) \<and>
      (\<forall>x \<in> keys (right' n). key n < x) \<and>
      (\<forall>x \<in> keys (left' n) \<union> keys (right' n). before e (key n) x) \<and>
      fields_ok e S n)"

definition tinv ::
  "('k::linorder, 'm) env \<Rightarrow> ('k, 'm) providers \<Rightarrow> category \<Rightarrow> bool" where
  "tinv e S c =
     (ht_ok (table c S) \<and>
      (\<forall>n \<in> nodes (table c S). good e S c n) \<and>
      (\<forall>n \<in> nodes (table c S). \<forall>m \<in> nodes (table c S). matches n m \<longrightarrow> n = m) \<and>
      (\<forall>n \<in> nodes (table c S). \<forall>m \<in> nodes (table c S). addr n = addr m \<longrightarrow> n = m))"

definition invar :: "('k::linorder, 'm) env \<Rightarrow> ('k, 'm) providers \<Rightarrow> bool" where
  "invar e S = (tinv e S set_tag \<and> tinv e S map_tag)"

definition ext :: "('k, 'm) providers \<Rightarrow> ('k, 'm) providers \<Rightarrow> bool" where
  "ext S S' =
     (nodes (set_table S) \<subseteq> nodes (set_table S') \<and>
      nodes (map_table S) \<subseteq> nodes (map_table S') \<and> brk S \<le> brk S')"

lemma ext_refl [simp]: "ext S S"
  by (simp add: ext_def)

lemma ext_trans: "ext S S1 \<Longrightarrow> ext S1 S2 \<Longrightarrow> ext S S2"
  by (auto simp: ext_def)

lemma live_Null [simp]: "live c S Null"
  by (simp add: live_def)

lemma live_ext: "live c S n \<Longrightarrow> ext S S' \<Longrightarrow> live c S' n"
  by (cases c) (auto simp: live_def ext_def)

lemma live_good: "invar e S \<Longrightarrow> live c S n \<Longrightarrow> n \<noteq> Null \<Longrightarrow> good e S c n"
  by (cases c) (auto simp: invar_def tinv_def live_def)

lemma live_left: "invar e S \<Longrightarrow> live c S n \<Longrightarrow> n \<noteq> Null \<Longrightarrow> live c S (left' n)"
  by (drule (2) live_good) (simp add: good_def)

lemma live_right: "invar e S \<Longrightarrow> live c S n \<Longrightarrow> n \<noteq> Null \<Longrightarrow> live c S (right' n)"
  by (drule (2) live_good) (simp add: good_def)

lemma live_bst_left:
  "invar e S \<Longrightarrow> live c S n \<Longrightarrow> n \<noteq> Null \<Longrightarrow> x \<in> keys (left' n) \<Longrightarrow> x < key n"
  by (drule (2) live_good) (simp add: good_def)

lemma live_bst_right:
  "invar e S \<Longrightarrow> live c S n \<Longrightarrow> n \<noteq> Null \<Longrightarrow> x \<in> keys (right' n) \<Longrightarrow> key n < x"
  by (drule (2) live_good) (simp add: good_def)

lemma live_heap:
  "invar e S \<Longrightarrow> live c S n \<Longrightarrow> n \<noteq> Null \<Longrightarrow> x \<in> keys (left' n) \<union> keys (right' n) \<Longrightarrow>
     before e (key n) x"
  by (drule (2) live_good) (simp add: good_def)

lemma live_is_cat: "invar e S \<Longrightarrow> live c S n \<Longrightarrow> n \<noteq> Null \<Longrightarrow> is_cat c n"
  by (drule (2) live_good) (simp add: good_def)

lemma live_key_node:
  assumes "invar e S" "live map_tag S n"
  shows "live set_tag S (key_node n)"
proof (cases "n = Null")
  case False
  from live_good[OF assms False] show ?thesis
    by (cases n) (auto simp: good_def live_def)
qed simp

lemma key_node_fields:
  assumes "invar e S" "live map_tag S n" "n \<noteq> Null"
  shows "key_node n \<noteq> Null" "key (key_node n) = key n"
    "left' (key_node n) = key_node (left' n)" "right' (key_node n) = key_node (right' n)"
    "key_node n \<in> nodes (set_table S)"
proof -
  from live_good[OF assms] obtain a k m kn h l r where n: "n = MNode a k m kn h l r"
    by (cases n) (auto simp: good_def)
  from live_good[OF assms] have f: "kn \<in> nodes (set_table S)" "key kn = k"
    "left' kn = key_node l" "right' kn = key_node r"
    by (auto simp: good_def n)
  from f(1) assms(1) have "good e S set_tag kn" by (auto simp: invar_def tinv_def)
  then have "kn \<noteq> Null" by (auto simp: good_def)
  with f show "key_node n \<noteq> Null" "key (key_node n) = key n"
    "left' (key_node n) = key_node (left' n)" "right' (key_node n) = key_node (right' n)"
    "key_node n \<in> nodes (set_table S)"
    by (simp_all add: n)
qed

lemma live_priority:
  assumes "invar e S" "live c S n" "n \<noteq> Null"
  shows "priority n = prio e (key n)"
proof (cases c)
  case set_tag
  with live_good[OF assms] show ?thesis by (cases n) (auto simp: good_def)
next
  case map_tag
  with assms have m: "live map_tag S n" by simp
  from key_node_fields[OF assms(1) m assms(3)]
  have "live set_tag S (key_node n)" "key_node n \<noteq> Null" "key (key_node n) = key n"
    by (simp_all add: live_def)
  with live_good[OF assms(1) this(1,2)] have "priority' (key_node n) = prio e (key n)"
    by (cases "key_node n") (auto simp: good_def)
  moreover from live_good[OF assms] map_tag have "is_MNode n" by (simp add: good_def)
  ultimately show ?thesis by (cases n) auto
qed

lemma keys_key_node:
  "invar e S \<Longrightarrow> live map_tag S n \<Longrightarrow> keys (key_node n) = keys n"
proof (induction n)
  case Null
  then show ?case by simp
next
  case (SNode a k p s h l r)
  from live_is_cat[OF SNode.prems] show ?case by simp
next
  case (MNode a k m kn h l r)
  let ?n = "MNode a k m kn h l r"
  have nn: "?n \<noteq> Null" by simp
  note f = key_node_fields[OF MNode.prems nn]
  have "keys (key_node l) = keys l"
    using MNode.IH(2) MNode.prems live_left[OF MNode.prems nn] by simp
  moreover have "keys (key_node r) = keys r"
    using MNode.IH(3) MNode.prems live_right[OF MNode.prems nn] by simp
  ultimately show ?case using f keys_node[OF f(1)] by simp
qed

lemma node_size_key_node:
  assumes "invar e S" "live map_tag S n"
  shows "node_size (key_node n) = node_size n"
proof (cases "n = Null")
  case False
  from key_node_fields[OF assms False]
  have "live set_tag S (key_node n)" "key_node n \<noteq> Null" by (simp_all add: live_def)
  from live_is_cat[OF assms(1) this] have "is_SNode (key_node n)" by simp
  moreover from live_is_cat[OF assms False] have "is_MNode n" by simp
  ultimately show ?thesis by (cases n; cases "key_node n") auto
qed simp

lemma live_node_size:
  assumes "invar e S" "live c S n" "n \<noteq> Null"
  shows "node_size n = 1 + node_size (left' n) + node_size (right' n)"
proof (cases c)
  case set_tag
  with live_good[OF assms] show ?thesis by (cases n) (auto simp: good_def)
next
  case map_tag
  with assms have m: "live map_tag S n" by simp
  note f = key_node_fields[OF assms(1) m assms(3)]
  have lk: "live set_tag S (key_node n)" using f by (simp add: live_def)
  from live_good[OF assms(1) lk f(1)]
  have "node_size (key_node n) =
          1 + node_size (left' (key_node n)) + node_size (right' (key_node n))"
    by (cases "key_node n") (auto simp: good_def)
  then show ?thesis
    using f node_size_key_node[OF assms(1) m]
      node_size_key_node[OF assms(1) live_left[OF assms(1) m assms(3)]]
      node_size_key_node[OF assms(1) live_right[OF assms(1) m assms(3)]]
    by simp
qed

lemma live_size_card: "invar e S \<Longrightarrow> live c S n \<Longrightarrow> node_size n = card (keys n)"
proof (induction n)
  case Null
  then show ?case by simp
next
  case (SNode a k p s h l r)
  let ?n = "SNode a k p s h l r"
  have nn: "?n \<noteq> Null" by simp
  have l: "node_size l = card (keys l)" and r: "node_size r = card (keys r)"
    using SNode.IH SNode.prems live_left[OF SNode.prems nn] live_right[OF SNode.prems nn]
    by simp_all
  have d: "k \<notin> keys l" "k \<notin> keys r" "keys l \<inter> keys r = {}"
    using live_bst_left[OF SNode.prems nn] live_bst_right[OF SNode.prems nn]
    by (fastforce simp: disjoint_iff)+
  have "card (insert k (keys l \<union> keys r)) = 1 + card (keys l) + card (keys r)"
    using d by (simp add: card_Un_disjoint)
  then show ?case using live_node_size[OF SNode.prems nn] l r by simp
next
  case (MNode a k m kn h l r)
  let ?n = "MNode a k m kn h l r"
  have nn: "?n \<noteq> Null" by simp
  have l: "node_size l = card (keys l)" and r: "node_size r = card (keys r)"
    using MNode.IH MNode.prems live_left[OF MNode.prems nn] live_right[OF MNode.prems nn]
    by simp_all
  have d: "k \<notin> keys l" "k \<notin> keys r" "keys l \<inter> keys r = {}"
    using live_bst_left[OF MNode.prems nn] live_bst_right[OF MNode.prems nn]
    by (fastforce simp: disjoint_iff)+
  have "card (insert k (keys l \<union> keys r)) = 1 + card (keys l) + card (keys r)"
    using d by (simp add: card_Un_disjoint)
  then show ?case using live_node_size[OF MNode.prems nn] l r by simp
qed

section \<open>Creating a node keeps the invariant\<close>

lemma equal_val_sym: "equal_val v w = equal_val w v"
  by (cases v; cases w) auto

lemma matches_sym: "matches a b = matches b a"
  by (auto simp: matches_def equal_val_sym)

lemma fields_ok_ext: "fields_ok e S n \<Longrightarrow> ext S S' \<Longrightarrow> fields_ok e S' n"
  by (cases n) (auto simp: ext_def)

lemma good_ext: "good e S c n \<Longrightarrow> ext S S' \<Longrightarrow> good e S' c n"
  unfolding good_def using live_ext fields_ok_ext
  by (fastforce simp: ext_def)

lemma tinv_same:
  assumes "tinv e S c" "ext S S'" "table c S' = table c S"
  shows "tinv e S' c"
  using assms good_ext[OF _ assms(2)] unfolding tinv_def by auto

lemma tinv_insert:
  assumes "tinv e S c" "ext S S'" "ht_ok (table c S')"
    "nodes (table c S') = insert q (nodes (table c S))"
    "q \<in> nodes (table c S) \<or>
       (good e S' c q \<and> (\<forall>m \<in> nodes (table c S). \<not> matches q m \<and> addr m \<noteq> addr q))"
  shows "tinv e S' c"
  unfolding tinv_def
proof (intro conjI ballI impI)
  show "ht_ok (table c S')" by fact
  show "good e S' c n" if "n \<in> nodes (table c S')" for n
    using that assms(1,4,5) good_ext[OF _ assms(2)] by (auto simp: tinv_def)
  show "n = m" if "n \<in> nodes (table c S')" "m \<in> nodes (table c S')" "matches n m" for n m
    using that assms(1,4,5) matches_sym[of n q] matches_sym[of m q] by (auto simp: tinv_def)
  show "n = m" if "n \<in> nodes (table c S')" "m \<in> nodes (table c S')" "addr n = addr m" for n m
    using that assms(1,4,5) by (auto simp: tinv_def)
qed

lemma addr_less_brk: "invar e S \<Longrightarrow> n \<in> nodes (table c S) \<Longrightarrow> addr n < brk S"
  by (cases c) (auto simp: invar_def tinv_def good_def)

lemma create_set_spec:
  assumes inv: "invar e S"
    and l: "live set_tag S l" and r: "live set_tag S r"
    and bl: "\<forall>x \<in> keys l. x < k" and br: "\<forall>x \<in> keys r. k < x"
    and hp: "\<forall>x \<in> keys l \<union> keys r. before e k x"
    and c: "create_set S k l r (prio e k) = (n, S')"
  shows "invar e S'" "ext S S'" "n \<in> nodes (set_table S')"
    "is_SNode n" "key n = k" "left' n = l" "right' n = r"
proof -
  let ?cand = "SNode (brk S) k (prio e k) (1 + node_size l + node_size r)
                 (hash_combine3 (hash l) (hash r) (prio e k)) l r"
  let ?T = "set_table S"
  obtain q T' where ins: "ht_insert ?T ?cand = (q, T')" by (metis prod.exhaust)
  have ok: "ht_ok ?T" using inv by (simp add: invar_def tinv_def)
  note sp = ht_insert_spec[OF ok ins]
  have fresh: "?cand \<notin> nodes ?T"
    using addr_less_brk[OF inv, of ?cand set_tag] by auto
  have all: "invar e S' \<and> ext S S' \<and> n \<in> nodes (set_table S') \<and>
             is_SNode n \<and> key n = k \<and> left' n = l \<and> right' n = r"
  proof (cases "q = ?cand")
    case True
    then have n: "n = ?cand" and S': "S' = S\<lparr>set_table := T', brk := brk S + 1\<rparr>"
      using c ins by (simp_all add: create_set_def get_unique_set_def Let_def)
    have e: "ext S S'" using sp(2) by (auto simp: ext_def S')
    have nomatch: "\<forall>m \<in> nodes ?T. \<not> matches ?cand m"
      using sp(4)[OF True] fresh by simp
    have g: "good e S' set_tag ?cand"
      using live_ext[OF l e] live_ext[OF r e] bl br hp by (simp add: good_def S')
    have "tinv e S' set_tag"
    proof (rule tinv_insert[where q = ?cand and S = S])
      show "tinv e S set_tag" using inv by (simp add: invar_def)
      show "ext S S'" by fact
      show "ht_ok (table set_tag S')" using sp(1) by (simp add: S')
      show "nodes (table set_tag S') = insert ?cand (nodes (table set_tag S))"
        using sp(2) True by (simp add: S')
      show "?cand \<in> nodes (table set_tag S) \<or>
              good e S' set_tag ?cand \<and>
              (\<forall>m \<in> nodes (table set_tag S). \<not> matches ?cand m \<and> addr m \<noteq> addr ?cand)"
        using g nomatch addr_less_brk[OF inv, of _ set_tag] by fastforce
    qed
    moreover have "tinv e S' map_tag"
      by (rule tinv_same[where S = S]) (use inv e in \<open>simp_all add: invar_def S'\<close>)
    ultimately show ?thesis using e sp(2) True by (simp add: invar_def n S')
  next
    case False
    then have n: "n = q" and S': "S' = S\<lparr>set_table := T'\<rparr>"
      using c ins by (simp_all add: create_set_def get_unique_set_def Let_def)
    from False sp(3) have q: "q \<in> nodes ?T" "matches ?cand q" by simp_all
    have nT': "nodes T' = nodes ?T" using sp(2) q(1) by auto
    have e: "ext S S'" by (simp add: ext_def S' nT')
    have "tinv e S' set_tag"
    proof (rule tinv_insert[where q = q and S = S])
      show "tinv e S set_tag" using inv by (simp add: invar_def)
      show "ext S S'" by fact
      show "ht_ok (table set_tag S')" using sp(1) by (simp add: S')
      show "nodes (table set_tag S') = insert q (nodes (table set_tag S))"
        using sp(2) by (simp add: S')
      show "q \<in> nodes (table set_tag S) \<or>
              good e S' set_tag q \<and>
              (\<forall>m \<in> nodes (table set_tag S). \<not> matches q m \<and> addr m \<noteq> addr q)"
        using q(1) by simp
    qed
    moreover have "tinv e S' map_tag"
      by (rule tinv_same[where S = S]) (use inv e in \<open>simp_all add: invar_def S'\<close>)
    moreover have "good e S set_tag q" using inv q(1) by (simp add: invar_def tinv_def)
    then have "is_SNode q \<and> key q = k \<and> left' q = l \<and> right' q = r"
      using q(2) by (cases q) (auto simp: good_def matches_def)
    ultimately show ?thesis using e q(1) nT' by (simp add: invar_def n S')
  qed
  then show "invar e S'" "ext S S'" "n \<in> nodes (set_table S')"
    "is_SNode n" "key n = k" "left' n = l" "right' n = r"
    by simp_all
qed

lemma create_map_spec:
  assumes inv: "invar e S"
    and l: "live map_tag S l" and r: "live map_tag S r"
    and kn: "kn \<in> nodes (set_table S)" "key kn = k"
      "left' kn = key_node l" "right' kn = key_node r"
    and bl: "\<forall>x \<in> keys l. x < k" and br: "\<forall>x \<in> keys r. k < x"
    and hp: "\<forall>x \<in> keys l \<union> keys r. before e k x"
    and c: "create_map S k m kn l r (mapped_hash e m) = (n, S')"
  shows "invar e S'" "ext S S'" "n \<in> nodes (map_table S')"
    "node_value n = PairV k m" "left' n = l" "right' n = r"
proof -
  let ?cand = "MNode (brk S) k m kn
                 (hash_combine4 (hash l) (hash r) (mapped_hash e m) (hash' kn)) l r"
  let ?T = "map_table S"
  obtain q T' where ins: "ht_insert ?T ?cand = (q, T')" by (metis prod.exhaust)
  have ok: "ht_ok ?T" using inv by (simp add: invar_def tinv_def)
  note sp = ht_insert_spec[OF ok ins]
  have fresh: "?cand \<notin> nodes ?T"
    using addr_less_brk[OF inv, of ?cand map_tag] by auto
  have all: "invar e S' \<and> ext S S' \<and> n \<in> nodes (map_table S') \<and>
             node_value n = PairV k m \<and> left' n = l \<and> right' n = r"
  proof (cases "q = ?cand")
    case True
    then have n: "n = ?cand" and S': "S' = S\<lparr>map_table := T', brk := brk S + 1\<rparr>"
      using c ins by (simp_all add: create_map_def get_unique_map_def Let_def)
    have e: "ext S S'" using sp(2) by (auto simp: ext_def S')
    have nomatch: "\<forall>m \<in> nodes ?T. \<not> matches ?cand m"
      using sp(4)[OF True] fresh by simp
    have g: "good e S' map_tag ?cand"
      using live_ext[OF l e] live_ext[OF r e] bl br hp kn by (simp add: good_def S')
    have "tinv e S' map_tag"
    proof (rule tinv_insert[where q = ?cand and S = S])
      show "tinv e S map_tag" using inv by (simp add: invar_def)
      show "ext S S'" by fact
      show "ht_ok (table map_tag S')" using sp(1) by (simp add: S')
      show "nodes (table map_tag S') = insert ?cand (nodes (table map_tag S))"
        using sp(2) True by (simp add: S')
      show "?cand \<in> nodes (table map_tag S) \<or>
              good e S' map_tag ?cand \<and>
              (\<forall>m \<in> nodes (table map_tag S). \<not> matches ?cand m \<and> addr m \<noteq> addr ?cand)"
        using g nomatch addr_less_brk[OF inv, of _ map_tag] by fastforce
    qed
    moreover have "tinv e S' set_tag"
      by (rule tinv_same[where S = S]) (use inv e in \<open>simp_all add: invar_def S'\<close>)
    ultimately show ?thesis using e sp(2) True by (simp add: invar_def n S')
  next
    case False
    then have n: "n = q" and S': "S' = S\<lparr>map_table := T'\<rparr>"
      using c ins by (simp_all add: create_map_def get_unique_map_def Let_def)
    from False sp(3) have q: "q \<in> nodes ?T" "matches ?cand q" by simp_all
    have nT': "nodes T' = nodes ?T" using sp(2) q(1) by auto
    have e: "ext S S'" by (simp add: ext_def S' nT')
    have "tinv e S' map_tag"
    proof (rule tinv_insert[where q = q and S = S])
      show "tinv e S map_tag" using inv by (simp add: invar_def)
      show "ext S S'" by fact
      show "ht_ok (table map_tag S')" using sp(1) by (simp add: S')
      show "nodes (table map_tag S') = insert q (nodes (table map_tag S))"
        using sp(2) by (simp add: S')
      show "q \<in> nodes (table map_tag S) \<or>
              good e S' map_tag q \<and>
              (\<forall>m \<in> nodes (table map_tag S). \<not> matches q m \<and> addr m \<noteq> addr q)"
        using q(1) by simp
    qed
    moreover have "tinv e S' set_tag"
      by (rule tinv_same[where S = S]) (use inv e in \<open>simp_all add: invar_def S'\<close>)
    moreover have "good e S map_tag q" using inv q(1) by (simp add: invar_def tinv_def)
    then have "node_value q = PairV k m \<and> left' q = l \<and> right' q = r"
      using q(2) by (cases q) (auto simp: good_def matches_def)
    ultimately show ?thesis using e q(1) nT' by (simp add: invar_def n S')
  qed
  then show "invar e S'" "ext S S'" "n \<in> nodes (map_table S')"
    "node_value n = PairV k m" "left' n = l" "right' n = r"
    by simp_all
qed

lemma nodes_not_Null: "invar e S \<Longrightarrow> n \<in> nodes (table c S) \<Longrightarrow> n \<noteq> Null"
  by (cases c) (auto simp: invar_def tinv_def good_def)

lemma live_set_fields:
  assumes "invar e S" "live set_tag S n" "n \<noteq> Null"
  obtains a k s h l r where "n = SNode a k (prio e k) s h l r"
  using live_good[OF assms] by (cases n) (auto simp: good_def)

lemma live_map_fields:
  assumes "invar e S" "live map_tag S n" "n \<noteq> Null"
  obtains a k m kn h l r where "n = MNode a k m kn h l r" "kn \<in> nodes (set_table S)"
    "key kn = k" "priority kn = prio e k"
proof -
  from live_good[OF assms] obtain a k m kn h l r where n: "n = MNode a k m kn h l r"
    by (cases n) (auto simp: good_def)
  note f = key_node_fields[OF assms]
  have "live set_tag S kn" "kn \<noteq> Null" using f by (simp_all add: n live_def)
  from live_priority[OF assms(1) this] f have "priority kn = prio e k" by (simp add: n)
  with f n that show thesis by simp
qed

lemma make_node_p_spec:
  assumes inv: "invar e S"
    and p: "live c S parent" "parent \<noteq> Null"
    and l: "live c S l" and r: "live c S r"
    and bl: "\<forall>x \<in> keys l. x < key parent" and br: "\<forall>x \<in> keys r. key parent < x"
    and hp: "\<forall>x \<in> keys l \<union> keys r. before e (key parent) x"
    and mk: "make_node_p e S parent l r = (n, S')"
  shows "invar e S'" "ext S S'" "live c S' n" "n \<noteq> Null"
    "node_value n = node_value parent" "left' n = l" "right' n = r"
proof -
  have "invar e S' \<and> ext S S' \<and> live c S' n \<and> n \<noteq> Null \<and>
        node_value n = node_value parent \<and> left' n = l \<and> right' n = r"
  proof (cases c)
    case set_tag
    from inv p set_tag obtain a k s h l0 r0 where par: "parent = SNode a k (prio e k) s h l0 r0"
      by (auto elim: live_set_fields)
    from mk have c: "create_set S k l r (prio e k) = (n, S')" by (simp add: par)
    note sp = create_set_spec[OF inv _ _ _ _ _ c]
    have "invar e S'" "ext S S'" "n \<in> nodes (set_table S')" "is_SNode n" "key n = k"
      "left' n = l" "right' n = r"
      using sp l r bl br hp set_tag by (simp_all add: par)
    then show ?thesis using set_tag by (cases n) (auto simp: live_def par)
  next
    case map_tag
    from inv p map_tag obtain a k m kn0 h l0 r0 where par: "parent = MNode a k m kn0 h l0 r0"
      and kn0: "kn0 \<in> nodes (set_table S)" "key kn0 = k" "priority kn0 = prio e k"
      by (auto elim: live_map_fields)
    have lm: "live map_tag S l" "live map_tag S r" using l r map_tag by simp_all
    obtain kn S1 where c1: "create_set S k (key_node l) (key_node r) (prio e k) = (kn, S1)"
      by (metis prod.exhaust)
    from mk c1 have c2: "create_map S1 k m kn l r (mapped_hash e m) = (n, S')"
      by (simp add: par kn0)
    have "invar e S1" "ext S S1" "kn \<in> nodes (set_table S1)" "key kn = k"
      "left' kn = key_node l" "right' kn = key_node r"
      using create_set_spec[OF inv live_key_node[OF inv lm(1)] live_key_node[OF inv lm(2)] _ _ _ c1]
        bl br hp keys_key_node[OF inv lm(1)] keys_key_node[OF inv lm(2)]
      by (simp_all add: par)
    note s1 = this
    have "invar e S'" "ext S1 S'" "n \<in> nodes (map_table S')" "node_value n = PairV k m"
      "left' n = l" "right' n = r"
      using create_map_spec[OF s1(1) live_ext[OF lm(1) s1(2)] live_ext[OF lm(2) s1(2)]
          s1(3,4,5,6) _ _ _ c2] bl br hp
      by (simp_all add: par)
    then show ?thesis using map_tag s1(2) nodes_not_Null[of e S' n map_tag]
      by (auto simp: live_def par intro: ext_trans)
  qed
  then show "invar e S'" "ext S S'" "live c S' n" "n \<noteq> Null"
    "node_value n = node_value parent" "left' n = l" "right' n = r"
    by simp_all
qed

text \<open>The category of a value: an element of a set or a pair of a map.\<close>

fun val_cat :: "('k, 'm) val \<Rightarrow> category" where
  "val_cat (KeyV k) = set_tag"
| "val_cat (PairV k m) = map_tag"

lemma make_node_spec:
  assumes inv: "invar e S"
    and l: "live (val_cat v) S l" and r: "live (val_cat v) S r"
    and bl: "\<forall>x \<in> keys l. x < val_key v" and br: "\<forall>x \<in> keys r. val_key v < x"
    and hp: "\<forall>x \<in> keys l \<union> keys r. before e (val_key v) x"
    and mk: "make_node e S v l r = (n, S')"
  shows "invar e S'" "ext S S'" "live (val_cat v) S' n" "n \<noteq> Null"
    "node_value n = v" "left' n = l" "right' n = r"
proof -
  have "invar e S' \<and> ext S S' \<and> live (val_cat v) S' n \<and> n \<noteq> Null \<and>
        node_value n = v \<and> left' n = l \<and> right' n = r"
  proof (cases v)
    case (KeyV k)
    from mk have c: "create_set S k l r (prio e k) = (n, S')" by (simp add: KeyV prio_def)
    have "invar e S'" "ext S S'" "n \<in> nodes (set_table S')" "is_SNode n" "key n = k"
      "left' n = l" "right' n = r"
      using create_set_spec[OF inv _ _ _ _ _ c] l r bl br hp by (simp_all add: KeyV)
    then show ?thesis by (cases n) (auto simp: live_def KeyV)
  next
    case (PairV k m)
    have lm: "live map_tag S l" "live map_tag S r" using l r PairV by simp_all
    obtain kn S1 where c1: "create_set S k (key_node l) (key_node r) (prio e k) = (kn, S1)"
      by (metis prod.exhaust)
    from mk c1 have c2: "create_map S1 k m kn l r (mapped_hash e m) = (n, S')"
      by (simp add: PairV prio_def)
    have "invar e S1" "ext S S1" "kn \<in> nodes (set_table S1)" "key kn = k"
      "left' kn = key_node l" "right' kn = key_node r"
      using create_set_spec[OF inv live_key_node[OF inv lm(1)] live_key_node[OF inv lm(2)] _ _ _ c1]
        bl br hp keys_key_node[OF inv lm(1)] keys_key_node[OF inv lm(2)]
      by (simp_all add: PairV)
    note s1 = this
    have "invar e S'" "ext S1 S'" "n \<in> nodes (map_table S')" "node_value n = PairV k m"
      "left' n = l" "right' n = r"
      using create_map_spec[OF s1(1) live_ext[OF lm(1) s1(2)] live_ext[OF lm(2) s1(2)]
          s1(3,4,5,6) _ _ _ c2] bl br hp
      by (simp_all add: PairV)
    then show ?thesis using s1(2) nodes_not_Null[of e S' n map_tag]
      by (auto simp: live_def PairV intro: ext_trans)
  qed
  then show "invar e S'" "ext S S'" "live (val_cat v) S' n" "n \<noteq> Null"
    "node_value n = v" "left' n = l" "right' n = r"
    by simp_all
qed

lemma replace_left_spec:
  assumes inv: "invar e S"
    and p: "live c S p" "p \<noteq> Null"
    and ch: "live c S ch"
    and bl: "\<forall>x \<in> keys ch. x < key p"
    and hp: "\<forall>x \<in> keys ch. before e (key p) x"
    and rp: "replace_left e S p ch = (n, S')"
  shows "invar e S'" "ext S S'" "live c S' n" "n \<noteq> Null"
    "node_value n = node_value p" "left' n = ch" "right' n = right' p"
proof -
  have "invar e S' \<and> ext S S' \<and> live c S' n \<and> n \<noteq> Null \<and>
        node_value n = node_value p \<and> left' n = ch \<and> right' n = right' p"
  proof (cases "left' p = ch")
    case True
    with rp inv p show ?thesis by (simp add: replace_left_def)
  next
    case False
    with rp have mk: "make_node_p e S p ch (right' p) = (n, S')"
      by (simp add: replace_left_def)
    show ?thesis
      using make_node_p_spec[OF inv p ch live_right[OF inv p] _ _ _ mk]
        bl hp live_bst_right[OF inv p] live_heap[OF inv p]
      by auto
  qed
  then show "invar e S'" "ext S S'" "live c S' n" "n \<noteq> Null"
    "node_value n = node_value p" "left' n = ch" "right' n = right' p"
    by simp_all
qed

lemma replace_right_spec:
  assumes inv: "invar e S"
    and p: "live c S p" "p \<noteq> Null"
    and ch: "live c S ch"
    and br: "\<forall>x \<in> keys ch. key p < x"
    and hp: "\<forall>x \<in> keys ch. before e (key p) x"
    and rp: "replace_right e S p ch = (n, S')"
  shows "invar e S'" "ext S S'" "live c S' n" "n \<noteq> Null"
    "node_value n = node_value p" "left' n = left' p" "right' n = ch"
proof -
  have "invar e S' \<and> ext S S' \<and> live c S' n \<and> n \<noteq> Null \<and>
        node_value n = node_value p \<and> left' n = left' p \<and> right' n = ch"
  proof (cases "right' p = ch")
    case True
    with rp inv p show ?thesis by (simp add: replace_right_def)
  next
    case False
    with rp have mk: "make_node_p e S p (left' p) ch = (n, S')"
      by (simp add: replace_right_def)
    show ?thesis
      using make_node_p_spec[OF inv p live_left[OF inv p] ch _ _ _ mk]
        br hp live_bst_left[OF inv p] live_heap[OF inv p]
      by auto
  qed
  then show "invar e S'" "ext S S'" "live c S' n" "n \<noteq> Null"
    "node_value n = node_value p" "left' n = left' p" "right' n = ch"
    by simp_all
qed

section \<open>Rank\<close>

lemma rank_before:
  assumes "priority l = prio e (key l)" "priority r = prio e (key r)"
  shows "rank l r = (if before e (key l) (key r) then LEFT
                     else if before e (key r) (key l) then RIGHT else SAME)"
  using assms by (auto simp: rank_def before_def)

lemma live_rank:
  assumes "invar e S" "live c S l" "l \<noteq> Null" "live c' S r" "r \<noteq> Null"
  shows "rank l r = LEFT \<longleftrightarrow> before e (key l) (key r)"
    and "rank l r = RIGHT \<longleftrightarrow> before e (key r) (key l)"
    and "rank l r = SAME \<longleftrightarrow> key l = key r"
    and "rank l r \<noteq> NOT_SAME"
  using rank_before[OF live_priority[OF assms(1,2,3)] live_priority[OF assms(1,4,5)]]
    before_total[of "key l" "key r" e] before_asym[of e "key l" "key r"]
  by auto

lemma live_root_min:
  assumes "invar e S" "live c S n" "n \<noteq> Null" "x \<in> keys n"
  shows "x = key n \<or> before e (key n) x"
  using assms(4) keys_node[OF assms(3)] live_heap[OF assms(1,2,3)] by auto

lemma key_in_keys [simp]: "n \<noteq> Null \<Longrightarrow> key n \<in> keys n"
  by (cases n) auto

section \<open>What an operation establishes\<close>

definition post ::
  "('k::linorder, 'm) env \<Rightarrow> category \<Rightarrow> ('k, 'm) providers \<Rightarrow> ('k, 'm) providers \<Rightarrow>
     ('k, 'm) node_ptr \<Rightarrow> ('k, 'm) val set \<Rightarrow> bool" where
  "post e c S S' n V = (invar e S' \<and> ext S S' \<and> live c S' n \<and> vals n = V)"

lemma postD:
  assumes "post e c S S' n V"
  shows "invar e S'" "ext S S'" "live c S' n" "vals n = V" "keys n = val_key ` V"
  using assms by (simp_all add: post_def keys_vals)

lemma postI: "invar e S' \<Longrightarrow> ext S S' \<Longrightarrow> live c S' n \<Longrightarrow> vals n = V \<Longrightarrow> post e c S S' n V"
  by (simp add: post_def)

lemma post_trans: "ext S0 S \<Longrightarrow> post e c S S' n V \<Longrightarrow> post e c S0 S' n V"
  by (auto simp: post_def intro: ext_trans)

lemma replace_left_post:
  assumes inv: "invar e S"
    and p: "live c S p" "p \<noteq> Null"
    and ch: "live c S ch"
    and bl: "\<forall>x \<in> keys ch. x < key p"
    and hp: "\<forall>x \<in> keys ch. before e (key p) x"
    and rp: "replace_left e S p ch = (n, S')"
  shows "post e c S S' n (insert (node_value p) (vals ch \<union> vals (right' p)))"
  using replace_left_spec[OF assms] vals_node[of n] by (simp add: post_def)

lemma replace_right_post:
  assumes inv: "invar e S"
    and p: "live c S p" "p \<noteq> Null"
    and ch: "live c S ch"
    and br: "\<forall>x \<in> keys ch. key p < x"
    and hp: "\<forall>x \<in> keys ch. before e (key p) x"
    and rp: "replace_right e S p ch = (n, S')"
  shows "post e c S S' n (insert (node_value p) (vals (left' p) \<union> vals ch))"
  using replace_right_spec[OF assms] vals_node[of n] by (simp add: post_def)

lemma make_node_p_post:
  assumes inv: "invar e S"
    and p: "live c S parent" "parent \<noteq> Null"
    and l: "live c S l" and r: "live c S r"
    and bl: "\<forall>x \<in> keys l. x < key parent" and br: "\<forall>x \<in> keys r. key parent < x"
    and hp: "\<forall>x \<in> keys l \<union> keys r. before e (key parent) x"
    and mk: "make_node_p e S parent l r = (n, S')"
  shows "post e c S S' n (insert (node_value parent) (vals l \<union> vals r))"
  using make_node_p_spec[OF assms] vals_node[of n] by (simp add: post_def)

section \<open>Join and split\<close>

lemma join_Null [simp]: "join e S Null r = (r, S)" "join e S l Null = (l, S)"
  by (simp_all add: join.simps)

lemma join_post:
  "invar e S \<Longrightarrow> live c S l \<Longrightarrow> live c S r \<Longrightarrow> \<forall>x \<in> keys l. \<forall>y \<in> keys r. x < y \<Longrightarrow>
     join e S l r = (n, S') \<Longrightarrow> post e c S S' n (vals l \<union> vals r)"
proof (induction e S l r arbitrary: n S' rule: join.induct)
  case (1 e S l r)
  note inv = "1.prems"(1) and l = "1.prems"(2) and r = "1.prems"(3) and sep = "1.prems"(4)
    and j = "1.prems"(5)
  show ?case
  proof (cases "l = Null \<or> r = Null")
    case True
    with j inv l r show ?thesis by (auto simp: post_def)
  next
    case False
    then have ln: "l \<noteq> Null" and rn: "r \<noteq> Null" by simp_all
    note rk = live_rank[OF inv l ln r rn]
    have kl: "key l < key r" using sep ln rn by simp
    consider (L) "rank l r = LEFT" | (R) "rank l r = RIGHT"
      using rk kl by (cases "rank l r") auto
    then show ?thesis
    proof cases
      case L
      obtain j1 S1 where j1: "join e S (right' l) r = (j1, S1)" by (metis prod.exhaust)
      from j ln rn L j1 have rp: "replace_right e S1 l j1 = (n, S')"
        by (simp add: join.simps)
      have sep1: "\<forall>x \<in> keys (right' l). \<forall>y \<in> keys r. x < y"
        using sep keys_node[OF ln] by auto
      note p1 = postD[OF "1.IH"(1)[OF ln rn L inv live_right[OF inv l ln] r sep1 j1]]
      have b: "before e (key l) (key r)" using rk L by simp
      have kj: "keys j1 = keys (right' l) \<union> keys r"
        using p1(5) by (simp add: image_Un keys_vals[symmetric])
      have br: "\<forall>x \<in> keys j1. key l < x"
        using kj sep ln live_bst_right[OF inv l ln] by auto
      have hp: "\<forall>x \<in> keys j1. before e (key l) x"
        using kj live_heap[OF inv l ln] live_root_min[OF inv r rn] b before_trans
        by blast
      have "post e c S1 S' n (insert (node_value l) (vals (left' l) \<union> vals j1))"
        by (rule replace_right_post[OF p1(1) live_ext[OF l p1(2)] ln p1(3) br hp rp])
      then have "post e c S S' n (insert (node_value l) (vals (left' l) \<union> vals j1))"
        by (rule post_trans[OF p1(2)])
      then show ?thesis using p1(4) vals_node[OF ln] by (simp add: Un_assoc)
    next
      case R
      obtain j1 S1 where j1: "join e S l (left' r) = (j1, S1)" by (metis prod.exhaust)
      from j ln rn R j1 have rp: "replace_left e S1 r j1 = (n, S')"
        by (simp add: join.simps)
      have sep1: "\<forall>x \<in> keys l. \<forall>y \<in> keys (left' r). x < y"
        using sep keys_node[OF rn] by auto
      note p1 = postD[OF "1.IH"(2)[OF ln rn R inv l live_left[OF inv r rn] sep1 j1]]
      have b: "before e (key r) (key l)" using rk R by simp
      have kj: "keys j1 = keys l \<union> keys (left' r)"
        using p1(5) by (simp add: image_Un keys_vals[symmetric])
      have bl: "\<forall>x \<in> keys j1. x < key r"
        using kj sep rn live_bst_left[OF inv r rn] by auto
      have hp: "\<forall>x \<in> keys j1. before e (key r) x"
        using kj live_heap[OF inv r rn] live_root_min[OF inv l ln] b before_trans
        by blast
      have "post e c S1 S' n (insert (node_value r) (vals j1 \<union> vals (right' r)))"
        by (rule replace_left_post[OF p1(1) live_ext[OF r p1(2)] rn p1(3) bl hp rp])
      then have "post e c S S' n (insert (node_value r) (vals j1 \<union> vals (right' r)))"
        by (rule post_trans[OF p1(2)])
      then show ?thesis using p1(4) vals_node[OF rn] by (simp add: Un_assoc Un_commute Un_left_commute insert_commute) 
    qed
  qed
qed

lemma vals_bst_left:
  "invar e S \<Longrightarrow> live c S n \<Longrightarrow> n \<noteq> Null \<Longrightarrow> v \<in> vals (left' n) \<Longrightarrow> val_key v < key n"
  using live_bst_left[of e S c n "val_key v"] by (simp add: keys_vals)

lemma vals_bst_right:
  "invar e S \<Longrightarrow> live c S n \<Longrightarrow> n \<noteq> Null \<Longrightarrow> v \<in> vals (right' n) \<Longrightarrow> key n < val_key v"
  using live_bst_right[of e S c n "val_key v"] by (simp add: keys_vals)

lemma split_Null [simp]: "split e S Null k = ((Null, Null), S)"
  by (simp add: split.simps)

lemma split_post:
  "invar e S \<Longrightarrow> live c S p \<Longrightarrow> split e S p k = ((a, b), S') \<Longrightarrow>
     post e c S S' a {v \<in> vals p. val_key v < k} \<and>
     post e c S S' b {v \<in> vals p. \<not> val_key v < k}"
proof (induction e S p k arbitrary: a b S' rule: split.induct)
  case (1 e S p k)
  note inv = "1.prems"(1) and p = "1.prems"(2) and sp = "1.prems"(3)
  show ?case
  proof (cases "p = Null")
    case True
    with sp inv show ?thesis by (auto simp: post_def)
  next
    case pn: False
    note vp = vals_node[OF pn]
    show ?thesis
    proof (cases "key p < k")
      case True
      obtain s1 s2 S1 where s: "split e S (right' p) k = ((s1, s2), S1)"
        by (metis prod.exhaust)
      obtain n S2 where rp: "replace_right e S1 p s1 = (n, S2)" by (metis prod.exhaust)
      from sp pn True s rp have res: "a = n" "b = s2" "S' = S2" by (simp_all add: split.simps)
      from "1.IH"(1)[OF pn True inv live_right[OF inv p pn] s]
      have p1: "post e c S S1 s1 {v \<in> vals (right' p). val_key v < k}"
        and p2: "post e c S S1 s2 {v \<in> vals (right' p). \<not> val_key v < k}" by simp_all
      note d1 = postD[OF p1] and d2 = postD[OF p2]
      have sub: "keys s1 \<subseteq> keys (right' p)" using d1(5) by (auto simp: keys_vals)
      have br: "\<forall>x \<in> keys s1. key p < x" using sub live_bst_right[OF inv p pn] by blast
      have hp: "\<forall>x \<in> keys s1. before e (key p) x" using sub live_heap[OF inv p pn] by blast
      have q1: "post e c S1 S2 n (insert (node_value p) (vals (left' p) \<union> vals s1))"
        by (rule replace_right_post[OF d1(1) live_ext[OF p d1(2)] pn d1(3) br hp rp])
      then have pn2: "post e c S S2 n (insert (node_value p) (vals (left' p) \<union> vals s1))"
        by (rule post_trans[OF d1(2)])
      have "insert (node_value p) (vals (left' p) \<union> vals s1) = {v \<in> vals p. val_key v < k}"
        using d1(4) True pn vals_bst_left[OF inv p pn] by (subst vp) fastforce
      moreover have "{v \<in> vals (right' p). \<not> val_key v < k} = {v \<in> vals p. \<not> val_key v < k}"
        using True pn vals_bst_left[OF inv p pn] by (subst vp) fastforce
      moreover have "post e c S S2 s2 {v \<in> vals (right' p). \<not> val_key v < k}"
        using d2(4) postD(1,2)[OF pn2] live_ext[OF d2(3) postD(2)[OF q1]] by (simp add: post_def)
      ultimately show ?thesis using pn2 res by simp
    next
      case False
      obtain s1 s2 S1 where s: "split e S (left' p) k = ((s1, s2), S1)"
        by (metis prod.exhaust)
      obtain n S2 where rp: "replace_left e S1 p s2 = (n, S2)" by (metis prod.exhaust)
      from sp pn False s rp have res: "a = s1" "b = n" "S' = S2" by (simp_all add: split.simps)
      from "1.IH"(2)[OF pn False inv live_left[OF inv p pn] s]
      have p1: "post e c S S1 s1 {v \<in> vals (left' p). val_key v < k}"
        and p2: "post e c S S1 s2 {v \<in> vals (left' p). \<not> val_key v < k}" by simp_all
      note d1 = postD[OF p1] and d2 = postD[OF p2]
      have sub: "keys s2 \<subseteq> keys (left' p)" using d2(5) by (auto simp: keys_vals)
      have bl: "\<forall>x \<in> keys s2. x < key p" using sub live_bst_left[OF inv p pn] by blast
      have hp: "\<forall>x \<in> keys s2. before e (key p) x" using sub live_heap[OF inv p pn] by blast
      have q1: "post e c S1 S2 n (insert (node_value p) (vals s2 \<union> vals (right' p)))"
        by (rule replace_left_post[OF d2(1) live_ext[OF p d2(2)] pn d2(3) bl hp rp])
      then have pn2: "post e c S S2 n (insert (node_value p) (vals s2 \<union> vals (right' p)))"
        by (rule post_trans[OF d2(2)])
      have "insert (node_value p) (vals s2 \<union> vals (right' p)) = {v \<in> vals p. \<not> val_key v < k}"
        using d2(4) False pn vals_bst_right[OF inv p pn] by (subst vp) fastforce
      moreover have "{v \<in> vals (left' p). val_key v < k} = {v \<in> vals p. val_key v < k}"
        using False pn vals_bst_right[OF inv p pn] by (subst vp) fastforce
      moreover have "post e c S S2 s1 {v \<in> vals (left' p). val_key v < k}"
        using d1(4) postD(1,2)[OF pn2] live_ext[OF d1(3) postD(2)[OF q1]] by (simp add: post_def)
      ultimately show ?thesis using pn2 res by simp
    qed
  qed
qed

lemma live_nodeD:
  assumes "invar e S" "live c S n" "n \<noteq> Null"
  shows "vals n = insert (node_value n) (vals (left' n) \<union> vals (right' n))"
    and "keys n = insert (key n) (keys (left' n) \<union> keys (right' n))"
    and "\<forall>x \<in> keys (left' n). x < key n"
    and "\<forall>x \<in> keys (right' n). key n < x"
    and "\<forall>x \<in> keys (left' n) \<union> keys (right' n). before e (key n) x"
    and "live c S (left' n)"
    and "live c S (right' n)"
    and "val_key (node_value n) = key n"
    and "\<forall>x \<in> keys n. x = key n \<or> before e (key n) x"
  using vals_node[OF assms(3)] keys_node[OF assms(3)] live_bst_left[OF assms]
    live_bst_right[OF assms] live_heap[OF assms] live_left[OF assms] live_right[OF assms]
    assms(3) live_root_min[OF assms]
  by auto

lemma keys_filter: "val_key ` {v \<in> vals r. P (val_key v)} = {x \<in> keys r. P x}"
  by (auto simp: keys_vals)

lemma keys_filter_less [simp]:
  "val_key ` {v \<in> vals r. val_key v < k} = {x \<in> keys r. x < k}"
  "val_key ` {v \<in> vals r. \<not> val_key v < k} = {x \<in> keys r. \<not> x < k}"
  by (auto simp: keys_vals)

lemma keys_union: "val_key ` (vals a \<union> vals b) = keys a \<union> keys b"
  by (auto simp: keys_vals)

lemma keys_union_filter:
  "val_key ` (vals a \<union> {v \<in> vals r. P (val_key v)}) = keys a \<union> {x \<in> keys r. P x}"
  by (auto simp: keys_vals)

lemma keys_filter_union:
  "val_key ` ({v \<in> vals r. P (val_key v)} \<union> vals a) = {x \<in> keys r. P x} \<union> keys a"
  by (auto simp: keys_vals)

lemma set_union_base [simp]:
  "set_union e S l l = (l, S)" "set_union e S l Null = (l, S)" "set_union e S Null r = (r, S)"
  by (auto simp: set_union.simps)

definition union_vals :: "('k, 'm) node_ptr \<Rightarrow> ('k, 'm) node_ptr \<Rightarrow> ('k, 'm) val set" where
  "union_vals l r = vals l \<union> {v \<in> vals r. val_key v \<notin> keys l}"

lemma keys_union_vals: "val_key ` union_vals l r = keys l \<union> keys r"
  by (auto simp: union_vals_def keys_vals)

lemma set_union_post:
  "invar e S \<Longrightarrow> live c S l \<Longrightarrow> live c S r \<Longrightarrow> set_union e S l r = (n, S') \<Longrightarrow>
     post e c S S' n (union_vals l r)"
proof (induction e S l r arbitrary: n S' rule: set_union.induct)
  case (1 e S l r)
  note inv = "1.prems"(1) and l = "1.prems"(2) and r = "1.prems"(3) and u = "1.prems"(4)
  show ?case
  proof (cases "l = r \<or> r = Null \<or> l = Null")
    case True
    with u inv l r show ?thesis by (auto simp: post_def union_vals_def keys_vals)
  next
    case False
    then have ln: "l \<noteq> Null" and rn: "r \<noteq> Null" and ne: "l \<noteq> r"
      and nlr: "\<not> (l = r \<or> r = Null)" by simp_all
    note rk = live_rank[OF inv l ln r rn]
    note L = live_nodeD[OF inv l ln] and R = live_nodeD[OF inv r rn]
    consider (LEFT) "rank l r = LEFT" | (RIGHT) "rank l r = RIGHT" | (SAME) "rank l r = SAME"
      using rk(4) by (cases "rank l r") auto
    then show ?thesis
    proof cases
      case LEFT
      obtain s1 s2 S1 where s: "split e S r (key l) = ((s1, s2), S1)" by (metis prod.exhaust)
      obtain a S2 where ua: "set_union e S1 (left' l) s1 = (a, S2)" by (metis prod.exhaust)
      obtain b S3 where ub: "set_union e S2 (right' l) s2 = (b, S3)" by (metis prod.exhaust)
      from u ln rn ne LEFT s ua ub have mk: "make_node_p e S3 l a b = (n, S')"
        by (simp add: set_union.simps)
      from split_post[OF inv r s]
      have ps1: "post e c S S1 s1 {v \<in> vals r. val_key v < key l}"
        and ps2: "post e c S S1 s2 {v \<in> vals r. \<not> val_key v < key l}" by simp_all
      note d1 = postD[OF ps1] and d2 = postD[OF ps2]
      have pa: "post e c S1 S2 a (union_vals (left' l) s1)"
        by (rule "1.IH"(1)[OF nlr ln LEFT s[symmetric] refl refl d1(1) live_ext[OF L(6) d1(2)] d1(3) ua])
      note da = postD[OF pa]
      have pb: "post e c S2 S3 b (union_vals (right' l) s2)"
        by (rule "1.IH"(2)[OF nlr ln LEFT s[symmetric] refl refl ua[symmetric] refl da(1)
              live_ext[OF live_ext[OF L(7) d1(2)] da(2)] live_ext[OF d2(3) da(2)] ub])
      note db = postD[OF pb]
      have e03: "ext S S3" using d1(2) da(2) db(2) by (blast intro: ext_trans)
      have b: "before e (key l) (key r)" using rk LEFT by simp
      have hr: "\<forall>x \<in> keys r. before e (key l) x"
        using R(9) b by (auto intro: before_trans)
      have ka: "keys a = keys (left' l) \<union> {x \<in> keys r. x < key l}"
        using da(5) d1(5) by (simp add: keys_union_vals keys_filter)
      have kb: "keys b = keys (right' l) \<union> {x \<in> keys r. \<not> x < key l}"
        using db(5) d2(5) by (simp add: keys_union_vals keys_filter)
      have nk: "key l \<notin> keys r" using hr by auto
      then have nkv: "\<forall>v \<in> vals r. val_key v \<noteq> key l" by (force simp: keys_vals)
      have "post e c S3 S' n (insert (node_value l) (vals a \<union> vals b))"
      proof (rule make_node_p_post[OF db(1) live_ext[OF l e03] ln live_ext[OF da(3) db(2)] db(3) _ _ _ mk])
        show "\<forall>x \<in> keys a. x < key l" using ka L(3) by auto
        show "\<forall>x \<in> keys b. key l < x" using kb L(4) nk by force
        show "\<forall>x \<in> keys a \<union> keys b. before e (key l) x" using ka kb L(5) hr by auto
      qed
      then have "post e c S S' n (insert (node_value l) (vals a \<union> vals b))"
        by (rule post_trans[OF e03])
      moreover have "insert (node_value l) (vals a \<union> vals b) = union_vals l r"
        unfolding da(4) db(4) d1(4) d2(4) union_vals_def keys_vals L(1)
        using L(3,4,8) nkv by (auto simp: keys_vals)
      ultimately show ?thesis by simp
    next
      case RIGHT
      obtain s1 s2 S1 where s: "split e S l (key r) = ((s1, s2), S1)" by (metis prod.exhaust)
      obtain a S2 where ua: "set_union e S1 s1 (left' r) = (a, S2)" by (metis prod.exhaust)
      obtain b S3 where ub: "set_union e S2 s2 (right' r) = (b, S3)" by (metis prod.exhaust)
      from u ln rn ne RIGHT s ua ub have mk: "make_node_p e S3 r a b = (n, S')"
        by (simp add: set_union.simps)
      from split_post[OF inv l s]
      have ps1: "post e c S S1 s1 {v \<in> vals l. val_key v < key r}"
        and ps2: "post e c S S1 s2 {v \<in> vals l. \<not> val_key v < key r}" by simp_all
      note d1 = postD[OF ps1] and d2 = postD[OF ps2]
      have pa: "post e c S1 S2 a (union_vals s1 (left' r))"
        by (rule "1.IH"(5)[OF nlr ln RIGHT s[symmetric] refl refl d1(1) d1(3) live_ext[OF R(6) d1(2)] ua])
      note da = postD[OF pa]
      have pb: "post e c S2 S3 b (union_vals s2 (right' r))"
        by (rule "1.IH"(6)[OF nlr ln RIGHT s[symmetric] refl refl ua[symmetric] refl da(1)
              live_ext[OF d2(3) da(2)] live_ext[OF live_ext[OF R(7) d1(2)] da(2)] ub])
      note db = postD[OF pb]
      have e03: "ext S S3" using d1(2) da(2) db(2) by (blast intro: ext_trans)
      have b: "before e (key r) (key l)" using rk RIGHT by simp
      have hl: "\<forall>x \<in> keys l. before e (key r) x"
        using L(9) b by (auto intro: before_trans)
      have ka: "keys a = {x \<in> keys l. x < key r} \<union> keys (left' r)"
        using da(5) d1(5) by (simp add: keys_union_vals keys_filter)
      have kb: "keys b = {x \<in> keys l. \<not> x < key r} \<union> keys (right' r)"
        using db(5) d2(5) by (simp add: keys_union_vals keys_filter)
      have nk: "key r \<notin> keys l" using hl by auto
      then have nkv: "\<forall>v \<in> vals l. val_key v \<noteq> key r" by (force simp: keys_vals)
      have "post e c S3 S' n (insert (node_value r) (vals a \<union> vals b))"
      proof (rule make_node_p_post[OF db(1) live_ext[OF r e03] rn live_ext[OF da(3) db(2)] db(3) _ _ _ mk])
        show "\<forall>x \<in> keys a. x < key r" using ka R(3) by auto
        show "\<forall>x \<in> keys b. key r < x" using kb R(4) nk by force
        show "\<forall>x \<in> keys a \<union> keys b. before e (key r) x" using ka kb R(5) hl by auto
      qed
      then have "post e c S S' n (insert (node_value r) (vals a \<union> vals b))"
        by (rule post_trans[OF e03])
      moreover have "insert (node_value r) (vals a \<union> vals b) = union_vals l r"
        unfolding da(4) db(4) d1(4) d2(4) union_vals_def keys_vals R(1)
        using R(3,4,8) nkv by (auto simp: keys_vals)
      ultimately show ?thesis by simp
    next
      case SAME
      obtain a S1 where ua: "set_union e S (left' l) (left' r) = (a, S1)" by (metis prod.exhaust)
      obtain b S2 where ub: "set_union e S1 (right' l) (right' r) = (b, S2)" by (metis prod.exhaust)
      from u ln rn ne SAME ua ub have mk: "make_node_p e S2 l a b = (n, S')"
        by (simp add: set_union.simps)
      have pa: "post e c S S1 a (union_vals (left' l) (left' r))"
        by (rule "1.IH"(3)[OF nlr ln SAME inv L(6) R(6) ua])
      note da = postD[OF pa]
      have pb: "post e c S1 S2 b (union_vals (right' l) (right' r))"
        by (rule "1.IH"(4)[OF nlr ln SAME ua[symmetric] refl da(1) live_ext[OF L(7) da(2)]
              live_ext[OF R(7) da(2)] ub])
      note db = postD[OF pb]
      have e02: "ext S S2" using da(2) db(2) by (blast intro: ext_trans)
      have k: "key l = key r" using rk SAME by simp
      have ka: "keys a = keys (left' l) \<union> keys (left' r)"
        using da(5) by (simp add: keys_union_vals)
      have kb: "keys b = keys (right' l) \<union> keys (right' r)"
        using db(5) by (simp add: keys_union_vals)
      have "post e c S2 S' n (insert (node_value l) (vals a \<union> vals b))"
      proof (rule make_node_p_post[OF db(1) live_ext[OF l e02] ln live_ext[OF da(3) db(2)] db(3) _ _ _ mk])
        show "\<forall>x \<in> keys a. x < key l" using ka L(3) R(3) k by auto
        show "\<forall>x \<in> keys b. key l < x" using kb L(4) R(4) k by auto
        show "\<forall>x \<in> keys a \<union> keys b. before e (key l) x" using ka kb L(5) R(5) k by auto
      qed
      then have "post e c S S' n (insert (node_value l) (vals a \<union> vals b))"
        by (rule post_trans[OF e02])
      moreover have "insert (node_value l) (vals a \<union> vals b) = union_vals l r"
        unfolding da(4) db(4) union_vals_def keys_vals L(1) R(1)
        using L(3,4,8) R(3,4,8) k by (auto simp: keys_vals) (metis order_less_asym)+
      ultimately show ?thesis by simp
    qed
  qed
qed

lemma keys_mono: "vals a \<subseteq> vals b \<Longrightarrow> keys a \<subseteq> keys b"
  by (auto simp: keys_vals)

lemma val_key_in_keys: "v \<in> vals n \<Longrightarrow> val_key v \<in> keys n"
  by (auto simp: keys_vals)

text \<open>The ranker a container passes: \<open>internal::rank\<close> for a set, \<open>map::rank\<close> for a map.\<close>

fun ranker_for :: "category \<Rightarrow> ('k::linorder, 'm) node_ptr \<Rightarrow> ('k, 'm) node_ptr \<Rightarrow> ranking" where
  "ranker_for set_tag = rank"
| "ranker_for map_tag = map_rank"

lemma live_ranker:
  assumes "invar e S" "live c S l" "l \<noteq> Null" "live c S r" "r \<noteq> Null"
  shows "ranker_for c l r = LEFT \<longleftrightarrow> before e (key l) (key r)"
    and "ranker_for c l r = RIGHT \<longleftrightarrow> before e (key r) (key l)"
    and "ranker_for c l r = SAME \<longleftrightarrow> node_value l = node_value r"
    and "ranker_for c l r = NOT_SAME \<longleftrightarrow> key l = key r \<and> node_value l \<noteq> node_value r"
proof -
  note rk = live_rank[OF assms]
  have cl: "is_cat c l" "is_cat c r"
    using live_is_cat[OF assms(1,2,3)] live_is_cat[OF assms(1,4,5)] by simp_all
  have "(ranker_for c l r = LEFT \<longleftrightarrow> before e (key l) (key r)) \<and>
        (ranker_for c l r = RIGHT \<longleftrightarrow> before e (key r) (key l)) \<and>
        (ranker_for c l r = SAME \<longleftrightarrow> node_value l = node_value r) \<and>
        (ranker_for c l r = NOT_SAME \<longleftrightarrow> key l = key r \<and> node_value l \<noteq> node_value r)"
  proof (cases c)
    case set_tag
    with cl rk show ?thesis by (cases l; cases r) auto
  next
    case map_tag
    with cl rk show ?thesis by (cases l; cases r) (auto simp: map_rank_def Let_def)
  qed
  then show "ranker_for c l r = LEFT \<longleftrightarrow> before e (key l) (key r)"
    and "ranker_for c l r = RIGHT \<longleftrightarrow> before e (key r) (key l)"
    and "ranker_for c l r = SAME \<longleftrightarrow> node_value l = node_value r"
    and "ranker_for c l r = NOT_SAME \<longleftrightarrow> key l = key r \<and> node_value l \<noteq> node_value r"
    by blast+
qed

text \<open>In a tree, the root is the only element with the root's key.\<close>

lemma live_key_unique:
  assumes "invar e S" "live c S n" "n \<noteq> Null" "v \<in> vals n" "val_key v = key n"
  shows "v = node_value n"
  using assms(4,5) vals_node[OF assms(3)] vals_bst_left[OF assms(1,2,3), of v]
    vals_bst_right[OF assms(1,2,3), of v]
  by auto

lemma set_intersection_base [simp]:
  "set_intersection rk e S Null r = (Null, S)" "set_intersection rk e S l Null = (Null, S)"
  "set_intersection rk e S l l = (l, S)"
  by (auto simp: set_intersection.simps)

lemma set_intersection_post:
  "invar e S \<Longrightarrow> live c S l \<Longrightarrow> live c S r \<Longrightarrow> rk = ranker_for c \<Longrightarrow>
     set_intersection rk e S l r = (n, S') \<Longrightarrow> post e c S S' n (vals l \<inter> vals r)"
proof (induction rk e S l r arbitrary: n S' rule: set_intersection.induct)
  case (1 rk e S l r)
  note inv = "1.prems"(1) and l = "1.prems"(2) and r = "1.prems"(3) and rkc = "1.prems"(4)
    and u = "1.prems"(5)
  show ?case
  proof (cases "l = Null \<or> r = Null \<or> l = r")
    case True
    with u inv l r show ?thesis by (auto simp: post_def)
  next
    case False
    then have ln: "l \<noteq> Null" and rn: "r \<noteq> Null" and ne: "l \<noteq> r"
      and nlr: "\<not> (l = Null \<or> r = Null)" by simp_all
    note rk = live_ranker[OF inv l ln r rn, folded rkc]
    note L = live_nodeD[OF inv l ln] and R = live_nodeD[OF inv r rn]
    consider (LEFT) "rk l r = LEFT" | (RIGHT) "rk l r = RIGHT" | (SAME) "rk l r = SAME"
      | (NOT_SAME) "rk l r = NOT_SAME"
      by (cases "rk l r") auto
    then show ?thesis
    proof cases
      case LEFT
      obtain s1 s2 S1 where s: "split e S r (key l) = ((s1, s2), S1)" by (metis prod.exhaust)
      obtain a S2 where ua: "set_intersection rk e S1 (left' l) s1 = (a, S2)"
        by (metis prod.exhaust)
      obtain b S3 where ub: "set_intersection rk e S2 (right' l) s2 = (b, S3)"
        by (metis prod.exhaust)
      from u ln rn ne LEFT s ua ub have mk: "join e S3 a b = (n, S')"
        by (simp add: set_intersection.simps)
      from split_post[OF inv r s]
      have ps1: "post e c S S1 s1 {v \<in> vals r. val_key v < key l}"
        and ps2: "post e c S S1 s2 {v \<in> vals r. \<not> val_key v < key l}" by simp_all
      note d1 = postD[OF ps1] and d2 = postD[OF ps2]
      have pa: "post e c S1 S2 a (vals (left' l) \<inter> vals s1)"
        by (rule "1.IH"(1)[OF nlr ne LEFT s[symmetric] refl refl d1(1) live_ext[OF L(6) d1(2)]
              d1(3) rkc ua])
      note da = postD[OF pa]
      have pb: "post e c S2 S3 b (vals (right' l) \<inter> vals s2)"
        by (rule "1.IH"(2)[OF nlr ne LEFT s[symmetric] refl refl ua[symmetric] refl da(1)
              live_ext[OF live_ext[OF L(7) d1(2)] da(2)] live_ext[OF d2(3) da(2)] rkc ub])
      note db = postD[OF pb]
      have e03: "ext S S3" using d1(2) da(2) db(2) by (blast intro: ext_trans)
      have b: "before e (key l) (key r)" using rk LEFT by simp
      have hr: "\<forall>x \<in> keys r. before e (key l) x"
        using R(9) b by (auto intro: before_trans)
      have nk: "key l \<notin> keys r" using hr by auto
      then have nkv: "\<forall>v \<in> vals r. val_key v \<noteq> key l" by (force simp: keys_vals)
      have ka: "keys a \<subseteq> keys (left' l)" using da(4) by (intro keys_mono) simp
      have kb: "keys b \<subseteq> keys (right' l)" using db(4) by (intro keys_mono) simp
      have sep: "\<forall>x \<in> keys a. \<forall>y \<in> keys b. x < y"
        using ka kb L(3,4) by (meson order_less_trans subsetD)
      have "post e c S3 S' n (vals a \<union> vals b)"
        by (rule join_post[OF db(1) live_ext[OF da(3) db(2)] db(3) sep mk])
      then have "post e c S S' n (vals a \<union> vals b)"
        by (rule post_trans[OF e03])
      moreover have "vals a \<union> vals b = vals l \<inter> vals r"
        unfolding da(4) db(4) d1(4) d2(4) L(1)
        using L(3,4,8) nkv by (auto simp: keys_vals)
      ultimately show ?thesis by simp
    next
      case RIGHT
      obtain s1 s2 S1 where s: "split e S l (key r) = ((s1, s2), S1)" by (metis prod.exhaust)
      obtain a S2 where ua: "set_intersection rk e S1 s1 (left' r) = (a, S2)"
        by (metis prod.exhaust)
      obtain b S3 where ub: "set_intersection rk e S2 s2 (right' r) = (b, S3)"
        by (metis prod.exhaust)
      from u ln rn ne RIGHT s ua ub have mk: "join e S3 a b = (n, S')"
        by (simp add: set_intersection.simps)
      from split_post[OF inv l s]
      have ps1: "post e c S S1 s1 {v \<in> vals l. val_key v < key r}"
        and ps2: "post e c S S1 s2 {v \<in> vals l. \<not> val_key v < key r}" by simp_all
      note d1 = postD[OF ps1] and d2 = postD[OF ps2]
      have pa: "post e c S1 S2 a (vals s1 \<inter> vals (left' r))"
        by (rule "1.IH"(5)[OF nlr ne RIGHT s[symmetric] refl refl d1(1) d1(3)
              live_ext[OF R(6) d1(2)] rkc ua])
      note da = postD[OF pa]
      have pb: "post e c S2 S3 b (vals s2 \<inter> vals (right' r))"
        by (rule "1.IH"(6)[OF nlr ne RIGHT s[symmetric] refl refl ua[symmetric] refl da(1)
              live_ext[OF d2(3) da(2)] live_ext[OF live_ext[OF R(7) d1(2)] da(2)] rkc ub])
      note db = postD[OF pb]
      have e03: "ext S S3" using d1(2) da(2) db(2) by (blast intro: ext_trans)
      have b: "before e (key r) (key l)" using rk RIGHT by simp
      have hl: "\<forall>x \<in> keys l. before e (key r) x"
        using L(9) b by (auto intro: before_trans)
      have nk: "key r \<notin> keys l" using hl by auto
      then have nkv: "\<forall>v \<in> vals l. val_key v \<noteq> key r" by (force simp: keys_vals)
      have ka: "keys a \<subseteq> keys (left' r)" using da(4) by (intro keys_mono) simp
      have kb: "keys b \<subseteq> keys (right' r)" using db(4) by (intro keys_mono) simp
      have sep: "\<forall>x \<in> keys a. \<forall>y \<in> keys b. x < y"
        using ka kb R(3,4) by (meson order_less_trans subsetD)
      have "post e c S3 S' n (vals a \<union> vals b)"
        by (rule join_post[OF db(1) live_ext[OF da(3) db(2)] db(3) sep mk])
      then have "post e c S S' n (vals a \<union> vals b)"
        by (rule post_trans[OF e03])
      moreover have "vals a \<union> vals b = vals l \<inter> vals r"
        unfolding da(4) db(4) d1(4) d2(4) R(1)
        using R(3,4,8) nkv by (auto simp: keys_vals)
      ultimately show ?thesis by simp
    next
      case NOT_SAME
      obtain a S1 where ua: "set_intersection rk e S (left' l) (left' r) = (a, S1)"
        by (metis prod.exhaust)
      obtain b S2 where ub: "set_intersection rk e S1 (right' l) (right' r) = (b, S2)"
        by (metis prod.exhaust)
      from u ln rn ne NOT_SAME ua ub have mk: "join e S2 a b = (n, S')"
        by (simp add: set_intersection.simps)
      have pa: "post e c S S1 a (vals (left' l) \<inter> vals (left' r))"
        by (rule "1.IH"(7)[OF nlr ne NOT_SAME inv L(6) R(6) rkc ua])
      note da = postD[OF pa]
      have pb: "post e c S1 S2 b (vals (right' l) \<inter> vals (right' r))"
        by (rule "1.IH"(8)[OF nlr ne NOT_SAME ua[symmetric] refl da(1) live_ext[OF L(7) da(2)]
              live_ext[OF R(7) da(2)] rkc ub])
      note db = postD[OF pb]
      have e02: "ext S S2" using da(2) db(2) by (blast intro: ext_trans)
      have k: "key l = key r" "node_value l \<noteq> node_value r" using rk NOT_SAME by simp_all
      have ka: "keys a \<subseteq> keys (left' l)" using da(4) by (intro keys_mono) simp
      have kb: "keys b \<subseteq> keys (right' l)" using db(4) by (intro keys_mono) simp
      have sep: "\<forall>x \<in> keys a. \<forall>y \<in> keys b. x < y"
        using ka kb L(3,4) by (meson order_less_trans subsetD)
      have "post e c S2 S' n (vals a \<union> vals b)"
        by (rule join_post[OF db(1) live_ext[OF da(3) db(2)] db(3) sep mk])
      then have "post e c S S' n (vals a \<union> vals b)"
        by (rule post_trans[OF e02])
      moreover have "vals a \<union> vals b = vals l \<inter> vals r"
        unfolding da(4) db(4) L(1) R(1)
        using L(3,4,8) R(3,4,8) k by (auto simp: keys_vals) (metis order_less_asym order_less_irrefl)+
      ultimately show ?thesis by simp
    next
      case SAME
      obtain a S1 where ua: "set_intersection rk e S (left' l) (left' r) = (a, S1)"
        by (metis prod.exhaust)
      obtain b S2 where ub: "set_intersection rk e S1 (right' l) (right' r) = (b, S2)"
        by (metis prod.exhaust)
      from u ln rn ne SAME ua ub have mk: "make_node_p e S2 l a b = (n, S')"
        by (simp add: set_intersection.simps)
      have pa: "post e c S S1 a (vals (left' l) \<inter> vals (left' r))"
        by (rule "1.IH"(3)[OF nlr ne SAME inv L(6) R(6) rkc ua])
      note da = postD[OF pa]
      have pb: "post e c S1 S2 b (vals (right' l) \<inter> vals (right' r))"
        by (rule "1.IH"(4)[OF nlr ne SAME ua[symmetric] refl da(1) live_ext[OF L(7) da(2)]
              live_ext[OF R(7) da(2)] rkc ub])
      note db = postD[OF pb]
      have e02: "ext S S2" using da(2) db(2) by (blast intro: ext_trans)
      have k: "node_value l = node_value r" using rk SAME by simp
      then have kk: "key l = key r" using L(8) R(8) by simp
      have ka: "keys a \<subseteq> keys (left' l)" using da(4) by (intro keys_mono) simp
      have kb: "keys b \<subseteq> keys (right' l)" using db(4) by (intro keys_mono) simp
      have "post e c S2 S' n (insert (node_value l) (vals a \<union> vals b))"
      proof (rule make_node_p_post[OF db(1) live_ext[OF l e02] ln live_ext[OF da(3) db(2)] db(3) _ _ _ mk])
        show "\<forall>x \<in> keys a. x < key l" using ka L(3) by auto
        show "\<forall>x \<in> keys b. key l < x" using kb L(4) by auto
        show "\<forall>x \<in> keys a \<union> keys b. before e (key l) x" using ka kb L(5) by auto
      qed
      then have "post e c S S' n (insert (node_value l) (vals a \<union> vals b))"
        by (rule post_trans[OF e02])
      moreover have "insert (node_value l) (vals a \<union> vals b) = vals l \<inter> vals r"
        unfolding da(4) db(4) L(1) R(1)
        using L(3,4,8) R(3,4,8) k kk by (auto simp: keys_vals) (metis order_less_asym order_less_irrefl)+
      ultimately show ?thesis by simp
    qed
  qed
qed

lemma set_difference_base [simp]:
  "set_difference rk e S Null r = (Null, S)" "set_difference rk e S l l = (Null, S)"
  "l \<noteq> Null \<Longrightarrow> set_difference rk e S l Null = (l, S)"
  by (auto simp: set_difference.simps)

lemma set_difference_post:
  "invar e S \<Longrightarrow> live c S l \<Longrightarrow> live c S r \<Longrightarrow> rk = ranker_for c \<Longrightarrow>
     set_difference rk e S l r = (n, S') \<Longrightarrow> post e c S S' n (vals l - vals r)"
proof (induction rk e S l r arbitrary: n S' rule: set_difference.induct)
  case (1 rk e S l r)
  note inv = "1.prems"(1) and l = "1.prems"(2) and r = "1.prems"(3) and rkc = "1.prems"(4)
    and u = "1.prems"(5)
  show ?case
  proof (cases "l = r \<or> l = Null \<or> r = Null")
    case True
    with u inv l r show ?thesis by (cases "l = Null") (auto simp: post_def)
  next
    case False
    then have ln: "l \<noteq> Null" and rn: "r \<noteq> Null" and ne: "l \<noteq> r"
      and nlr: "\<not> (l = r \<or> l = Null)" by simp_all
    note rk = live_ranker[OF inv l ln r rn, folded rkc]
    note L = live_nodeD[OF inv l ln] and R = live_nodeD[OF inv r rn]
    consider (LEFT) "rk l r = LEFT" | (RIGHT) "rk l r = RIGHT" | (SAME) "rk l r = SAME"
      | (NOT_SAME) "rk l r = NOT_SAME"
      by (cases "rk l r") auto
    then show ?thesis
    proof cases
      case LEFT
      obtain s1 s2 S1 where s: "split e S r (key l) = ((s1, s2), S1)" by (metis prod.exhaust)
      obtain a S2 where ua: "set_difference rk e S1 (left' l) s1 = (a, S2)"
        by (metis prod.exhaust)
      obtain b S3 where ub: "set_difference rk e S2 (right' l) s2 = (b, S3)"
        by (metis prod.exhaust)
      from u ln rn ne LEFT s ua ub have mk: "make_node_p e S3 l a b = (n, S')"
        by (simp add: set_difference.simps)
      from split_post[OF inv r s]
      have ps1: "post e c S S1 s1 {v \<in> vals r. val_key v < key l}"
        and ps2: "post e c S S1 s2 {v \<in> vals r. \<not> val_key v < key l}" by simp_all
      note d1 = postD[OF ps1] and d2 = postD[OF ps2]
      have pa: "post e c S1 S2 a (vals (left' l) - vals s1)"
        by (rule "1.IH"(1)[OF nlr rn LEFT s[symmetric] refl refl d1(1) live_ext[OF L(6) d1(2)]
              d1(3) rkc ua])
      note da = postD[OF pa]
      have pb: "post e c S2 S3 b (vals (right' l) - vals s2)"
        by (rule "1.IH"(2)[OF nlr rn LEFT s[symmetric] refl refl ua[symmetric] refl da(1)
              live_ext[OF live_ext[OF L(7) d1(2)] da(2)] live_ext[OF d2(3) da(2)] rkc ub])
      note db = postD[OF pb]
      have e03: "ext S S3" using d1(2) da(2) db(2) by (blast intro: ext_trans)
      have b: "before e (key l) (key r)" using rk LEFT by simp
      have hr: "\<forall>x \<in> keys r. before e (key l) x"
        using R(9) b by (auto intro: before_trans)
      have nk: "key l \<notin> keys r" using hr by auto
      then have nkv: "\<forall>v \<in> vals r. val_key v \<noteq> key l" by (force simp: keys_vals)
      have ka: "keys a \<subseteq> keys (left' l)" using da(4) by (intro keys_mono) auto
      have kb: "keys b \<subseteq> keys (right' l)" using db(4) by (intro keys_mono) auto
      have "post e c S3 S' n (insert (node_value l) (vals a \<union> vals b))"
      proof (rule make_node_p_post[OF db(1) live_ext[OF l e03] ln live_ext[OF da(3) db(2)] db(3) _ _ _ mk])
        show "\<forall>x \<in> keys a. x < key l" using ka L(3) by auto
        show "\<forall>x \<in> keys b. key l < x" using kb L(4) by auto
        show "\<forall>x \<in> keys a \<union> keys b. before e (key l) x" using ka kb L(5) by auto
      qed
      then have "post e c S S' n (insert (node_value l) (vals a \<union> vals b))"
        by (rule post_trans[OF e03])
      moreover have "insert (node_value l) (vals a \<union> vals b) = vals l - vals r"
        unfolding da(4) db(4) d1(4) d2(4) L(1)
        using L(3,4,8) nkv by (auto simp: keys_vals)
      ultimately show ?thesis by simp
    next
      case RIGHT
      obtain s1 s2 S1 where s: "split e S l (key r) = ((s1, s2), S1)" by (metis prod.exhaust)
      obtain a S2 where ua: "set_difference rk e S1 s1 (left' r) = (a, S2)"
        by (metis prod.exhaust)
      obtain b S3 where ub: "set_difference rk e S2 s2 (right' r) = (b, S3)"
        by (metis prod.exhaust)
      from u ln rn ne RIGHT s ua ub have mk: "join e S3 a b = (n, S')"
        by (simp add: set_difference.simps)
      from split_post[OF inv l s]
      have ps1: "post e c S S1 s1 {v \<in> vals l. val_key v < key r}"
        and ps2: "post e c S S1 s2 {v \<in> vals l. \<not> val_key v < key r}" by simp_all
      note d1 = postD[OF ps1] and d2 = postD[OF ps2]
      have pa: "post e c S1 S2 a (vals s1 - vals (left' r))"
        by (rule "1.IH"(5)[OF nlr rn RIGHT s[symmetric] refl refl d1(1) d1(3)
              live_ext[OF R(6) d1(2)] rkc ua])
      note da = postD[OF pa]
      have pb: "post e c S2 S3 b (vals s2 - vals (right' r))"
        by (rule "1.IH"(6)[OF nlr rn RIGHT s[symmetric] refl refl ua[symmetric] refl da(1)
              live_ext[OF d2(3) da(2)] live_ext[OF live_ext[OF R(7) d1(2)] da(2)] rkc ub])
      note db = postD[OF pb]
      have e03: "ext S S3" using d1(2) da(2) db(2) by (blast intro: ext_trans)
      have b: "before e (key r) (key l)" using rk RIGHT by simp
      have hl: "\<forall>x \<in> keys l. before e (key r) x"
        using L(9) b by (auto intro: before_trans)
      have nk: "key r \<notin> keys l" using hl by auto
      then have nkv: "\<forall>v \<in> vals l. val_key v \<noteq> key r" by (force simp: keys_vals)
      have ka: "keys a \<subseteq> keys s1" using da(4) by (intro keys_mono) auto
      have kb: "keys b \<subseteq> keys s2" using db(4) by (intro keys_mono) auto
      have sep: "\<forall>x \<in> keys a. \<forall>y \<in> keys b. x < y"
        using ka kb d1(5) d2(5) by (fastforce simp: subset_iff)
      have "post e c S3 S' n (vals a \<union> vals b)"
        by (rule join_post[OF db(1) live_ext[OF da(3) db(2)] db(3) sep mk])
      then have "post e c S S' n (vals a \<union> vals b)"
        by (rule post_trans[OF e03])
      moreover have "vals a \<union> vals b = vals l - vals r"
        unfolding da(4) db(4) d1(4) d2(4) R(1)
        using R(3,4,8) nkv by (auto simp: keys_vals)
      ultimately show ?thesis by simp
    next
      case NOT_SAME
      obtain a S1 where ua: "set_difference rk e S (left' l) (left' r) = (a, S1)"
        by (metis prod.exhaust)
      obtain b S2 where ub: "set_difference rk e S1 (right' l) (right' r) = (b, S2)"
        by (metis prod.exhaust)
      from u ln rn ne NOT_SAME ua ub have mk: "make_node_p e S2 l a b = (n, S')"
        by (simp add: set_difference.simps)
      have pa: "post e c S S1 a (vals (left' l) - vals (left' r))"
        by (rule "1.IH"(7)[OF nlr rn NOT_SAME inv L(6) R(6) rkc ua])
      note da = postD[OF pa]
      have pb: "post e c S1 S2 b (vals (right' l) - vals (right' r))"
        by (rule "1.IH"(8)[OF nlr rn NOT_SAME ua[symmetric] refl da(1) live_ext[OF L(7) da(2)]
              live_ext[OF R(7) da(2)] rkc ub])
      note db = postD[OF pb]
      have e02: "ext S S2" using da(2) db(2) by (blast intro: ext_trans)
      have k: "key l = key r" "node_value l \<noteq> node_value r" using rk NOT_SAME by simp_all
      have ka: "keys a \<subseteq> keys (left' l)" using da(4) by (intro keys_mono) auto
      have kb: "keys b \<subseteq> keys (right' l)" using db(4) by (intro keys_mono) auto
      have "post e c S2 S' n (insert (node_value l) (vals a \<union> vals b))"
      proof (rule make_node_p_post[OF db(1) live_ext[OF l e02] ln live_ext[OF da(3) db(2)] db(3) _ _ _ mk])
        show "\<forall>x \<in> keys a. x < key l" using ka L(3) by auto
        show "\<forall>x \<in> keys b. key l < x" using kb L(4) by auto
        show "\<forall>x \<in> keys a \<union> keys b. before e (key l) x" using ka kb L(5) by auto
      qed
      then have "post e c S S' n (insert (node_value l) (vals a \<union> vals b))"
        by (rule post_trans[OF e02])
      moreover have "insert (node_value l) (vals a \<union> vals b) = vals l - vals r"
        unfolding da(4) db(4) L(1) R(1)
        using L(3,4,8) R(3,4,8) k by (auto simp: keys_vals) (metis order_less_asym order_less_irrefl)+
      ultimately show ?thesis by simp
    next
      case SAME
      obtain a S1 where ua: "set_difference rk e S (left' l) (left' r) = (a, S1)"
        by (metis prod.exhaust)
      obtain b S2 where ub: "set_difference rk e S1 (right' l) (right' r) = (b, S2)"
        by (metis prod.exhaust)
      from u ln rn ne SAME ua ub have mk: "join e S2 a b = (n, S')"
        by (simp add: set_difference.simps)
      have pa: "post e c S S1 a (vals (left' l) - vals (left' r))"
        by (rule "1.IH"(3)[OF nlr rn SAME inv L(6) R(6) rkc ua])
      note da = postD[OF pa]
      have pb: "post e c S1 S2 b (vals (right' l) - vals (right' r))"
        by (rule "1.IH"(4)[OF nlr rn SAME ua[symmetric] refl da(1) live_ext[OF L(7) da(2)]
              live_ext[OF R(7) da(2)] rkc ub])
      note db = postD[OF pb]
      have e02: "ext S S2" using da(2) db(2) by (blast intro: ext_trans)
      have k: "node_value l = node_value r" using rk SAME by simp
      then have kk: "key l = key r" using L(8) R(8) by simp
      have ka: "keys a \<subseteq> keys (left' l)" using da(4) by (intro keys_mono) auto
      have kb: "keys b \<subseteq> keys (right' l)" using db(4) by (intro keys_mono) auto
      have sep: "\<forall>x \<in> keys a. \<forall>y \<in> keys b. x < y"
        using ka kb L(3,4) by (meson order_less_trans subsetD)
      have "post e c S2 S' n (vals a \<union> vals b)"
        by (rule join_post[OF db(1) live_ext[OF da(3) db(2)] db(3) sep mk])
      then have "post e c S S' n (vals a \<union> vals b)"
        by (rule post_trans[OF e02])
      moreover have "vals a \<union> vals b = vals l - vals r"
        unfolding da(4) db(4) L(1) R(1)
        using L(3,4,8) R(3,4,8) k kk by (auto simp: keys_vals) (metis order_less_asym order_less_irrefl)+
      ultimately show ?thesis by simp
    qed
  qed
qed

definition sym_vals :: "('k, 'm) node_ptr \<Rightarrow> ('k, 'm) node_ptr \<Rightarrow> ('k, 'm) val set" where
  "sym_vals l r = {v \<in> vals l. val_key v \<notin> keys r} \<union> {v \<in> vals r. val_key v \<notin> keys l}"

lemma keys_sym_vals: "val_key ` sym_vals l r \<subseteq> keys l \<union> keys r"
  by (auto simp: sym_vals_def keys_vals)

lemma above_filter:
  fixes k :: "'a::linorder"
  assumes "K \<subseteq> A \<union> {x \<in> B. \<not> x < k}" "\<forall>x \<in> A. k < x" "k \<notin> B"
  shows "\<forall>x \<in> K. k < x"
proof
  fix x assume x: "x \<in> K"
  show "k < x"
  proof (cases "x \<in> A")
    case True
    with assms(2) show ?thesis by simp
  next
    case False
    with x assms(1) have "x \<in> B" "\<not> x < k" by auto
    with assms(3) show ?thesis by (metis not_less_iff_gr_or_eq)
  qed
qed

lemma above_filter':
  fixes k :: "'a::linorder"
  assumes "K \<subseteq> {x \<in> B. \<not> x < k} \<union> A" "\<forall>x \<in> A. k < x" "k \<notin> B"
  shows "\<forall>x \<in> K. k < x"
  using above_filter[of K A B k] assms by (simp add: Un_commute)

lemma sym_same:
  fixes k :: "'k::linorder"
  assumes "\<forall>v\<in>A. kf v \<in> KA" "\<forall>v\<in>B. kf v \<in> KB" "\<forall>v\<in>C. kf v \<in> KC" "\<forall>v\<in>D. kf v \<in> KD"
    "\<forall>x\<in>KA. x < k" "\<forall>x\<in>KC. x < k" "\<forall>x\<in>KB. k < x" "\<forall>x\<in>KD. k < x" "kf nl = k" "kf nr = k"
  shows "{v \<in> A. kf v \<notin> KC} \<union> {v \<in> C. kf v \<notin> KA} \<union> ({v \<in> B. kf v \<notin> KD} \<union> {v \<in> D. kf v \<notin> KB}) =
         {v \<in> insert nl (A \<union> B). kf v \<notin> insert k (KC \<union> KD)} \<union>
         {v \<in> insert nr (C \<union> D). kf v \<notin> insert k (KA \<union> KB)}"
proof -
  have d: "k \<notin> KA" "k \<notin> KB" "k \<notin> KC" "k \<notin> KD"
    "\<And>x. x \<in> KA \<Longrightarrow> x \<notin> KD" "\<And>x. x \<in> KA \<Longrightarrow> x \<notin> KB"
    "\<And>x. x \<in> KC \<Longrightarrow> x \<notin> KB" "\<And>x. x \<in> KC \<Longrightarrow> x \<notin> KD"
    using assms(5-8) by (metis less_asym less_irrefl)+
  show ?thesis
    using d assms(1-4,9,10) by blast
qed

lemma set_symmetric_base [simp]:
  "set_symmetric e S Null r = (r, S)" "set_symmetric e S l Null = (l, S)"
  "l \<noteq> Null \<Longrightarrow> set_symmetric e S l l = (Null, S)"
  by (auto simp: set_symmetric.simps)

lemma set_symmetric_post:
  "invar e S \<Longrightarrow> live c S l \<Longrightarrow> live c S r \<Longrightarrow> set_symmetric e S l r = (n, S') \<Longrightarrow>
     post e c S S' n (sym_vals l r)"
proof (induction e S l r arbitrary: n S' rule: set_symmetric.induct)
  case (1 e S l r)
  note inv = "1.prems"(1) and l = "1.prems"(2) and r = "1.prems"(3) and u = "1.prems"(4)
  show ?case
  proof (cases "l = r \<or> l = Null \<or> r = Null")
    case True
    with u inv l r show ?thesis
      by (cases "l = Null") (auto simp: post_def sym_vals_def keys_vals)
  next
    case False
    then have ln: "l \<noteq> Null" and rn: "r \<noteq> Null" and ne: "l \<noteq> r" by simp_all
    note rk = live_rank[OF inv l ln r rn]
    note L = live_nodeD[OF inv l ln] and R = live_nodeD[OF inv r rn]
    consider (LEFT) "rank l r = LEFT" | (RIGHT) "rank l r = RIGHT" | (SAME) "rank l r = SAME"
      using rk(4) by (cases "rank l r") auto
    then show ?thesis
    proof cases
      case LEFT
      obtain s1 s2 S1 where s: "split e S r (key l) = ((s1, s2), S1)" by (metis prod.exhaust)
      obtain a S2 where ua: "set_symmetric e S1 (left' l) s1 = (a, S2)" by (metis prod.exhaust)
      obtain b S3 where ub: "set_symmetric e S2 (right' l) s2 = (b, S3)" by (metis prod.exhaust)
      from u ln rn ne LEFT s ua ub have mk: "make_node_p e S3 l a b = (n, S')"
        by (simp add: set_symmetric.simps)
      from split_post[OF inv r s]
      have ps1: "post e c S S1 s1 {v \<in> vals r. val_key v < key l}"
        and ps2: "post e c S S1 s2 {v \<in> vals r. \<not> val_key v < key l}" by simp_all
      note d1 = postD[OF ps1] and d2 = postD[OF ps2]
      have pa: "post e c S1 S2 a (sym_vals (left' l) s1)"
        by (rule "1.IH"(1)[OF ln rn ne LEFT s[symmetric] refl refl d1(1) live_ext[OF L(6) d1(2)]
              d1(3) ua])
      note da = postD[OF pa]
      have pb: "post e c S2 S3 b (sym_vals (right' l) s2)"
        by (rule "1.IH"(2)[OF ln rn ne LEFT s[symmetric] refl refl ua[symmetric] refl da(1)
              live_ext[OF live_ext[OF L(7) d1(2)] da(2)] live_ext[OF d2(3) da(2)] ub])
      note db = postD[OF pb]
      have e03: "ext S S3" using d1(2) da(2) db(2) by (blast intro: ext_trans)
      have b: "before e (key l) (key r)" using rk LEFT by simp
      have hr: "\<forall>x \<in> keys r. before e (key l) x"
        using R(9) b by (auto intro: before_trans)
      have nk: "key l \<notin> keys r" using hr by auto
      then have nkv: "\<forall>v \<in> vals r. val_key v \<noteq> key l" by (force simp: keys_vals)
      have ka: "keys a \<subseteq> keys (left' l) \<union> {x \<in> keys r. x < key l}"
        using da(5) d1(5) keys_sym_vals[of "left' l" s1] by simp
      have kb: "keys b \<subseteq> keys (right' l) \<union> {x \<in> keys r. \<not> x < key l}"
        using db(5) d2(5) keys_sym_vals[of "right' l" s2] by simp
      have "post e c S3 S' n (insert (node_value l) (vals a \<union> vals b))"
      proof (rule make_node_p_post[OF db(1) live_ext[OF l e03] ln live_ext[OF da(3) db(2)] db(3) _ _ _ mk])
        show "\<forall>x \<in> keys a. x < key l" using ka L(3) by auto
        show "\<forall>x \<in> keys b. key l < x" by (rule above_filter[OF kb L(4) nk])
        show "\<forall>x \<in> keys a \<union> keys b. before e (key l) x" using ka kb L(5) hr by auto
      qed
      then have "post e c S S' n (insert (node_value l) (vals a \<union> vals b))"
        by (rule post_trans[OF e03])
      moreover have "insert (node_value l) (vals a \<union> vals b) = sym_vals l r"
        unfolding da(4) db(4) sym_vals_def keys_vals d1(4) d2(4) L(1)
        using L(3,4,8) nkv by (auto simp: keys_vals)
      ultimately show ?thesis by simp
    next
      case RIGHT
      obtain s1 s2 S1 where s: "split e S l (key r) = ((s1, s2), S1)" by (metis prod.exhaust)
      obtain a S2 where ua: "set_symmetric e S1 s1 (left' r) = (a, S2)" by (metis prod.exhaust)
      obtain b S3 where ub: "set_symmetric e S2 s2 (right' r) = (b, S3)" by (metis prod.exhaust)
      from u ln rn ne RIGHT s ua ub have mk: "make_node_p e S3 r a b = (n, S')"
        by (simp add: set_symmetric.simps)
      from split_post[OF inv l s]
      have ps1: "post e c S S1 s1 {v \<in> vals l. val_key v < key r}"
        and ps2: "post e c S S1 s2 {v \<in> vals l. \<not> val_key v < key r}" by simp_all
      note d1 = postD[OF ps1] and d2 = postD[OF ps2]
      have pa: "post e c S1 S2 a (sym_vals s1 (left' r))"
        by (rule "1.IH"(5)[OF ln rn ne RIGHT s[symmetric] refl refl d1(1) d1(3)
              live_ext[OF R(6) d1(2)] ua])
      note da = postD[OF pa]
      have pb: "post e c S2 S3 b (sym_vals s2 (right' r))"
        by (rule "1.IH"(6)[OF ln rn ne RIGHT s[symmetric] refl refl ua[symmetric] refl da(1)
              live_ext[OF d2(3) da(2)] live_ext[OF live_ext[OF R(7) d1(2)] da(2)] ub])
      note db = postD[OF pb]
      have e03: "ext S S3" using d1(2) da(2) db(2) by (blast intro: ext_trans)
      have b: "before e (key r) (key l)" using rk RIGHT by simp
      have hl: "\<forall>x \<in> keys l. before e (key r) x"
        using L(9) b by (auto intro: before_trans)
      have nk: "key r \<notin> keys l" using hl by auto
      then have nkv: "\<forall>v \<in> vals l. val_key v \<noteq> key r" by (force simp: keys_vals)
      have ka: "keys a \<subseteq> {x \<in> keys l. x < key r} \<union> keys (left' r)"
        using da(5) d1(5) keys_sym_vals[of s1 "left' r"] by simp
      have kb: "keys b \<subseteq> {x \<in> keys l. \<not> x < key r} \<union> keys (right' r)"
        using db(5) d2(5) keys_sym_vals[of s2 "right' r"] by simp
      have "post e c S3 S' n (insert (node_value r) (vals a \<union> vals b))"
      proof (rule make_node_p_post[OF db(1) live_ext[OF r e03] rn live_ext[OF da(3) db(2)] db(3) _ _ _ mk])
        show "\<forall>x \<in> keys a. x < key r" using ka R(3) by auto
        show "\<forall>x \<in> keys b. key r < x" by (rule above_filter'[OF kb R(4) nk])
        show "\<forall>x \<in> keys a \<union> keys b. before e (key r) x" using ka kb R(5) hl by auto
      qed
      then have "post e c S S' n (insert (node_value r) (vals a \<union> vals b))"
        by (rule post_trans[OF e03])
      moreover have "insert (node_value r) (vals a \<union> vals b) = sym_vals l r"
        unfolding da(4) db(4) sym_vals_def keys_vals d1(4) d2(4) R(1)
        using R(3,4,8) nkv by (auto simp: keys_vals)
      ultimately show ?thesis by simp
    next
      case SAME
      obtain a S1 where ua: "set_symmetric e S (left' l) (left' r) = (a, S1)"
        by (metis prod.exhaust)
      obtain b S2 where ub: "set_symmetric e S1 (right' l) (right' r) = (b, S2)"
        by (metis prod.exhaust)
      from u ln rn ne SAME ua ub have mk: "join e S2 a b = (n, S')"
        by (simp add: set_symmetric.simps)
      have pa: "post e c S S1 a (sym_vals (left' l) (left' r))"
        by (rule "1.IH"(3)[OF ln rn ne SAME inv L(6) R(6) ua])
      note da = postD[OF pa]
      have pb: "post e c S1 S2 b (sym_vals (right' l) (right' r))"
        by (rule "1.IH"(4)[OF ln rn ne SAME ua[symmetric] refl da(1) live_ext[OF L(7) da(2)]
              live_ext[OF R(7) da(2)] ub])
      note db = postD[OF pb]
      have e02: "ext S S2" using da(2) db(2) by (blast intro: ext_trans)
      have k: "key l = key r" using rk SAME by simp
      have ka: "keys a \<subseteq> keys (left' l) \<union> keys (left' r)"
        using da(5) keys_sym_vals[of "left' l" "left' r"] by simp
      have kb: "keys b \<subseteq> keys (right' l) \<union> keys (right' r)"
        using db(5) keys_sym_vals[of "right' l" "right' r"] by simp
      have sep: "\<forall>x \<in> keys a. \<forall>y \<in> keys b. x < y"
      proof (intro ballI)
        fix x y assume "x \<in> keys a" "y \<in> keys b"
        then have "x < key l" "key l < y" using ka kb L(3,4) R(3,4) k by auto
        then show "x < y" by simp
      qed
      have "post e c S2 S' n (vals a \<union> vals b)"
        by (rule join_post[OF db(1) live_ext[OF da(3) db(2)] db(3) sep mk])
      then have "post e c S S' n (vals a \<union> vals b)"
        by (rule post_trans[OF e02])
      moreover have "vals a \<union> vals b = sym_vals l r"
        unfolding da(4) db(4) sym_vals_def L(1) L(2) R(1) R(2) k[symmetric]
        by (rule sym_same) (use L(3,4,8) R(3,4,8) k val_key_in_keys in auto)
      ultimately show ?thesis by simp
    qed
  qed
qed

lemma incl_left:
  fixes k :: "'k::linorder"
  assumes "\<forall>v\<in>A. kf v < k" "\<forall>v\<in>B. k < kf v" "kf nl = k" "\<forall>v\<in>R. kf v \<noteq> k"
  shows "({v\<in>R. kf v < k} \<subseteq> A \<and> {v \<in> R. \<not> kf v < k} \<subseteq> B) \<longleftrightarrow> R \<subseteq> insert nl (A \<union> B)"
proof -
  have d: "\<And>v. v \<in> R \<Longrightarrow> v \<noteq> nl" "\<And>v. v \<in> B \<Longrightarrow> \<not> kf v < k" "\<And>v. v \<in> A \<Longrightarrow> kf v < k"
    using assms by (metis less_asym less_irrefl)+
  show ?thesis
  proof
    assume "{v\<in>R. kf v < k} \<subseteq> A \<and> {v \<in> R. \<not> kf v < k} \<subseteq> B"
    then show "R \<subseteq> insert nl (A \<union> B)" by blast
  next
    assume "R \<subseteq> insert nl (A \<union> B)"
    then show "{v\<in>R. kf v < k} \<subseteq> A \<and> {v \<in> R. \<not> kf v < k} \<subseteq> B"
      using d by blast
  qed
qed

lemma incl_same:
  fixes k :: "'k::linorder"
  assumes "\<forall>v\<in>A. kf v < k" "\<forall>v\<in>B. k < kf v" "\<forall>v\<in>C. kf v < k" "\<forall>v\<in>D. k < kf v" "kf n = k"
  shows "(C \<subseteq> A \<and> D \<subseteq> B) \<longleftrightarrow> insert n (C \<union> D) \<subseteq> insert n (A \<union> B)"
proof -
  have d: "\<And>v. v \<in> C \<Longrightarrow> v \<noteq> n \<and> v \<notin> B" "\<And>v. v \<in> D \<Longrightarrow> v \<noteq> n \<and> v \<notin> A"
    using assms by (metis less_asym less_irrefl)+
  show ?thesis
  proof
    assume "C \<subseteq> A \<and> D \<subseteq> B"
    then show "insert n (C \<union> D) \<subseteq> insert n (A \<union> B)" by blast
  next
    assume "insert n (C \<union> D) \<subseteq> insert n (A \<union> B)"
    then show "C \<subseteq> A \<and> D \<subseteq> B"
      using d by blast
  qed
qed

lemma iks_left:
  fixes k :: "'k::linorder"
  assumes "\<forall>v\<in>A. kf v < k" "\<forall>v\<in>B. k < kf v" "kf nl = k" "k \<notin> KR"
  shows "{v \<in> A. kf v \<in> {x \<in> KR. x < k}} \<union> {v \<in> B. kf v \<in> {x \<in> KR. \<not> x < k}} =
         {v \<in> insert nl (A \<union> B). kf v \<in> KR}"
  using assms by (auto; metis less_asym less_irrefl)

lemma iks_right:
  fixes k :: "'k::linorder"
  assumes "\<forall>x\<in>KRL. x < k" "\<forall>x\<in>KRR. k < x" "\<forall>v\<in>L. kf v \<noteq> k"
  shows "{v \<in> {v \<in> L. kf v < k}. kf v \<in> KRL} \<union> {v \<in> {v \<in> L. \<not> kf v < k}. kf v \<in> KRR} =
         {v \<in> L. kf v \<in> insert k (KRL \<union> KRR)}"
  using assms by (auto; metis less_asym less_irrefl)

lemma iks_same:
  fixes k :: "'k::linorder"
  assumes "\<forall>v\<in>A. kf v < k" "\<forall>v\<in>B. k < kf v" "kf nl = k" "\<forall>x\<in>KRL. x < k" "\<forall>x\<in>KRR. k < x"
  shows "insert nl ({v \<in> A. kf v \<in> KRL} \<union> {v \<in> B. kf v \<in> KRR}) =
         {v \<in> insert nl (A \<union> B). kf v \<in> insert k (KRL \<union> KRR)}"
  using assms by (auto; metis less_asym less_irrefl)

lemma dks_left:
  fixes k :: "'k::linorder"
  assumes "\<forall>v\<in>A. kf v < k" "\<forall>v\<in>B. k < kf v" "kf nl = k" "k \<notin> KR"
  shows "insert nl ({v \<in> A. kf v \<notin> {x \<in> KR. x < k}} \<union> {v \<in> B. kf v \<notin> {x \<in> KR. \<not> x < k}}) =
         {v \<in> insert nl (A \<union> B). kf v \<notin> KR}"
  using assms by (auto; metis less_asym less_irrefl)

lemma dks_right:
  fixes k :: "'k::linorder"
  assumes "\<forall>x\<in>KRL. x < k" "\<forall>x\<in>KRR. k < x" "\<forall>v\<in>L. kf v \<noteq> k"
  shows "{v \<in> {v \<in> L. kf v < k}. kf v \<notin> KRL} \<union> {v \<in> {v \<in> L. \<not> kf v < k}. kf v \<notin> KRR} =
         {v \<in> L. kf v \<notin> insert k (KRL \<union> KRR)}"
  using assms by (auto; metis less_asym less_irrefl)

lemma dks_same:
  fixes k :: "'k::linorder"
  assumes "\<forall>v\<in>A. kf v < k" "\<forall>v\<in>B. k < kf v" "kf nl = k" "\<forall>x\<in>KRL. x < k" "\<forall>x\<in>KRR. k < x"
  shows "{v \<in> A. kf v \<notin> KRL} \<union> {v \<in> B. kf v \<notin> KRR} =
         {v \<in> insert nl (A \<union> B). kf v \<notin> insert k (KRL \<union> KRR)}"
  using assms by (auto; metis less_asym less_irrefl)

lemma includes_base [simp]:
  "includes' rk e S l l = (True, S)" "includes' rk e S l Null = (True, S)"
  by (auto simp: includes'.simps)

lemma includes_post:
  "invar e S \<Longrightarrow> live c S l \<Longrightarrow> live c S r \<Longrightarrow> rk = ranker_for c \<Longrightarrow>
     includes' rk e S l r = (b, S') \<Longrightarrow> invar e S' \<and> ext S S' \<and> (b \<longleftrightarrow> vals r \<subseteq> vals l)"
proof (induction rk e S l r arbitrary: b S' rule: includes'.induct)
  case (1 rk e S l r)
  note inv = "1.prems"(1) and l = "1.prems"(2) and r = "1.prems"(3) and rkc = "1.prems"(4)
    and u = "1.prems"(5)
  show ?case
  proof (cases "l = r \<or> r = Null")
    case True
    with u inv show ?thesis by auto
  next
    case nlr: False
    then have rn: "r \<noteq> Null" and ne: "l \<noteq> r" by simp_all
    show ?thesis
    proof (cases "node_size l < node_size r")
      case True
      with u nlr have res: "b = False" "S' = S" by (simp_all add: includes'.simps)
      have "card (keys l) < card (keys r)"
        using True live_size_card[OF inv l] live_size_card[OF inv r] by simp
      then have "\<not> keys r \<subseteq> keys l"
        by (metis card_mono finite_keys not_less)
      then have "\<not> vals r \<subseteq> vals l" using keys_mono by blast
      with res inv show ?thesis by simp
    next
      case nsz: False
      have ln: "l \<noteq> Null"
      proof
        assume "l = Null"
        with nsz have "node_size r = 0" by simp
        then show False using live_size_card[OF inv r] rn by simp
      qed
      note rk = live_ranker[OF inv l ln r rn, folded rkc]
      note L = live_nodeD[OF inv l ln] and R = live_nodeD[OF inv r rn]
      consider (LEFT) "rk l r = LEFT" | (RIGHT) "rk l r = RIGHT" | (SAME) "rk l r = SAME"
        | (NOT_SAME) "rk l r = NOT_SAME"
        by (cases "rk l r") auto
      then show ?thesis
      proof cases
        case LEFT
        obtain s1 s2 S1 where s: "split e S r (key l) = ((s1, s2), S1)" by (metis prod.exhaust)
        obtain b1 S2 where i1: "includes' rk e S1 (left' l) s1 = (b1, S2)"
          by (metis prod.exhaust)
        from split_post[OF inv r s]
        have ps1: "post e c S S1 s1 {v \<in> vals r. val_key v < key l}"
          and ps2: "post e c S S1 s2 {v \<in> vals r. \<not> val_key v < key l}" by simp_all
        note d1 = postD[OF ps1] and d2 = postD[OF ps2]
        have p1: "invar e S2 \<and> ext S1 S2 \<and> (b1 \<longleftrightarrow> vals s1 \<subseteq> vals (left' l))"
          by (rule "1.IH"(1)[OF nlr nsz ln LEFT s[symmetric] refl refl d1(1)
                live_ext[OF L(6) d1(2)] d1(3) rkc i1])
        have b: "before e (key l) (key r)" using rk LEFT by simp
        have hr: "\<forall>x \<in> keys r. before e (key l) x"
          using R(9) b by (auto intro: before_trans)
        have nk: "key l \<notin> keys r" using hr by auto
        then have nkv: "\<forall>v \<in> vals r. val_key v \<noteq> key l" by (force simp: keys_vals)
        have eqv: "(vals s1 \<subseteq> vals (left' l) \<and> vals s2 \<subseteq> vals (right' l)) \<longleftrightarrow> vals r \<subseteq> vals l"
          unfolding d1(4) d2(4) L(1)
          by (rule incl_left) (use L(3,4,8) nkv vals_bst_left[OF inv l ln] vals_bst_right[OF inv l ln] in auto)
        show ?thesis
        proof (cases b1)
          case True
          with u nlr nsz ln LEFT s i1 have i2: "includes' rk e S2 (right' l) s2 = (b, S')"
            by (simp add: includes'.simps)
          have p2: "invar e S' \<and> ext S2 S' \<and> (b \<longleftrightarrow> vals s2 \<subseteq> vals (right' l))"
            using p1
            by (intro "1.IH"(2)[OF nlr nsz ln LEFT s[symmetric] refl refl i1[symmetric] refl True _
                  live_ext[OF live_ext[OF L(7) d1(2)]] live_ext[OF d2(3)] rkc i2]) simp_all
          have "ext S S'" using d1(2) p1 p2 by (blast intro: ext_trans)
          then show ?thesis using p1 p2 True eqv by simp
        next
          case False
          with u nlr nsz ln LEFT s i1 have res: "b = False" "S' = S2"
            by (simp_all add: includes'.simps)
          have "ext S S2" using d1(2) p1 by (blast intro: ext_trans)
          then show ?thesis using p1 False eqv res by simp
        qed
      next
        case SAME
        obtain b1 S1 where i1: "includes' rk e S (left' l) (left' r) = (b1, S1)"
          by (metis prod.exhaust)
        have p1: "invar e S1 \<and> ext S S1 \<and> (b1 \<longleftrightarrow> vals (left' r) \<subseteq> vals (left' l))"
          by (rule "1.IH"(3)[OF nlr nsz ln SAME inv L(6) R(6) rkc i1])
        have k: "node_value l = node_value r" using rk SAME by simp
        then have kk: "key l = key r" using L(8) R(8) by simp
        have eqv: "(vals (left' r) \<subseteq> vals (left' l) \<and> vals (right' r) \<subseteq> vals (right' l)) \<longleftrightarrow>
                   vals r \<subseteq> vals l"
          unfolding L(1) R(1) k[symmetric]
          by (rule incl_same[where kf = val_key and k = "key l"])
            (use L(8) kk vals_bst_left[OF inv l ln] vals_bst_right[OF inv l ln]
               vals_bst_left[OF inv r rn] vals_bst_right[OF inv r rn] in auto)
        show ?thesis
        proof (cases b1)
          case True
          with u nlr nsz ln SAME i1 have i2: "includes' rk e S1 (right' l) (right' r) = (b, S')"
            by (simp add: includes'.simps)
          have p2: "invar e S' \<and> ext S1 S' \<and> (b \<longleftrightarrow> vals (right' r) \<subseteq> vals (right' l))"
            using p1
            by (intro "1.IH"(4)[OF nlr nsz ln SAME i1[symmetric] refl True _
                  live_ext[OF L(7)] live_ext[OF R(7)] rkc i2]) simp_all
          have "ext S S'" using p1 p2 by (blast intro: ext_trans)
          then show ?thesis using p1 p2 True eqv by simp
        next
          case False
          with u nlr nsz ln SAME i1 have res: "b = False" "S' = S1"
            by (simp_all add: includes'.simps)
          then show ?thesis using p1 False eqv res by simp
        qed
      next
        case RIGHT
        with u nlr nsz ln have res: "b = False" "S' = S" by (simp_all add: includes'.simps)
        have b: "before e (key r) (key l)" using rk RIGHT by simp
        have hl: "\<forall>x \<in> keys l. before e (key r) x"
          using L(9) b by (auto intro: before_trans)
        have nk: "key r \<notin> keys l" using hl by auto
        have "node_value r \<in> vals r" using R(1) by simp
        moreover have "node_value r \<notin> vals l" using nk val_key_in_keys[of "node_value r" l] R(8) by auto
        ultimately show ?thesis using res inv by auto
      next
        case NOT_SAME
        with u nlr nsz ln have res: "b = False" "S' = S" by (simp_all add: includes'.simps)
        have k: "key l = key r" "node_value l \<noteq> node_value r" using rk NOT_SAME by simp_all
        have "node_value r \<in> vals r" using R(1) by simp
        moreover have "node_value r \<notin> vals l"
          using live_key_unique[OF inv l ln, of "node_value r"] k R(8) by auto
        ultimately show ?thesis using res inv by auto
      qed
    qed
  qed
qed

lemma set_intersection_ks_base [simp]:
  "set_intersection_ks e S Null r = (Null, S)" "set_intersection_ks e S l Null = (Null, S)"
  by (auto simp: set_intersection_ks.simps)

lemma set_difference_ks_base [simp]:
  "set_difference_ks e S Null r = (Null, S)"
  by (auto simp: set_difference_ks.simps)

lemma key_node_rank:
  assumes inv: "invar e S" and l: "live map_tag S l" "l \<noteq> Null"
    and r: "live set_tag S r" "r \<noteq> Null"
  shows "rank (key_node l) r = LEFT \<longleftrightarrow> before e (key l) (key r)"
    and "rank (key_node l) r = RIGHT \<longleftrightarrow> before e (key r) (key l)"
    and "rank (key_node l) r = SAME \<longleftrightarrow> key l = key r"
    and "rank (key_node l) r \<noteq> NOT_SAME"
  using live_rank[OF inv live_key_node[OF inv l(1)] key_node_fields(1)[OF inv l] r]
    key_node_fields(2)[OF inv l]
  by simp_all

lemma set_intersection_ks_post:
  "invar e S \<Longrightarrow> live map_tag S l \<Longrightarrow> live set_tag S r \<Longrightarrow>
     set_intersection_ks e S l r = (n, S') \<Longrightarrow>
     post e map_tag S S' n {v \<in> vals l. val_key v \<in> keys r}"
proof (induction e S l r arbitrary: n S' rule: set_intersection_ks.induct)
  case (1 e S l r)
  note inv = "1.prems"(1) and l = "1.prems"(2) and r = "1.prems"(3) and u = "1.prems"(4)
  show ?case
  proof (cases "l = Null \<or> r = Null")
    case True
    with u inv show ?thesis by (auto simp: post_def)
  next
    case nlr: False
    then have ln: "l \<noteq> Null" and rn: "r \<noteq> Null" by simp_all
    show ?thesis
    proof (cases "key_node l = r")
      case True
      with u nlr have res: "n = l" "S' = S" by (simp_all add: set_intersection_ks.simps)
      have "keys r = keys l" using keys_key_node[OF inv l] True by simp
      then have "{v \<in> vals l. val_key v \<in> keys r} = vals l" using val_key_in_keys by auto
      with res inv l show ?thesis by (simp add: post_def)
    next
      case ne: False
      note rk = key_node_rank[OF inv l ln r rn]
      note L = live_nodeD[OF inv l ln] and R = live_nodeD[OF inv r rn]
      note vl = vals_bst_left[OF inv l ln] and vr = vals_bst_right[OF inv l ln]
      consider (LEFT) "rank (key_node l) r = LEFT" | (RIGHT) "rank (key_node l) r = RIGHT"
        | (SAME) "rank (key_node l) r = SAME"
        using rk(4) by (cases "rank (key_node l) r") auto
      then show ?thesis
      proof cases
        case LEFT
        obtain s1 s2 S1 where s: "split e S r (key l) = ((s1, s2), S1)" by (metis prod.exhaust)
        obtain a S2 where ua: "set_intersection_ks e S1 (left' l) s1 = (a, S2)"
          by (metis prod.exhaust)
        obtain b S3 where ub: "set_intersection_ks e S2 (right' l) s2 = (b, S3)"
          by (metis prod.exhaust)
        from u ln rn ne LEFT s ua ub have mk: "join e S3 a b = (n, S')"
          by (simp add: set_intersection_ks.simps)
        from split_post[OF inv r s]
        have ps1: "post e set_tag S S1 s1 {v \<in> vals r. val_key v < key l}"
          and ps2: "post e set_tag S S1 s2 {v \<in> vals r. \<not> val_key v < key l}" by simp_all
        note d1 = postD[OF ps1] and d2 = postD[OF ps2]
        have pa: "post e map_tag S1 S2 a {v \<in> vals (left' l). val_key v \<in> keys s1}"
          by (rule "1.IH"(1)[OF nlr ne LEFT s[symmetric] refl refl d1(1) live_ext[OF L(6) d1(2)]
                d1(3) ua])
        note da = postD[OF pa]
        have pb: "post e map_tag S2 S3 b {v \<in> vals (right' l). val_key v \<in> keys s2}"
          by (rule "1.IH"(2)[OF nlr ne LEFT s[symmetric] refl refl ua[symmetric] refl da(1)
                live_ext[OF live_ext[OF L(7) d1(2)] da(2)] live_ext[OF d2(3) da(2)] ub])
        note db = postD[OF pb]
        have e03: "ext S S3" using d1(2) da(2) db(2) by (blast intro: ext_trans)
        have b: "before e (key l) (key r)" using rk LEFT by simp
        have hr: "\<forall>x \<in> keys r. before e (key l) x"
          using R(9) b by (auto intro: before_trans)
        have nk: "key l \<notin> keys r" using hr by auto
        have ka: "keys a \<subseteq> keys (left' l)" using da(4) by (intro keys_mono) auto
        have kb: "keys b \<subseteq> keys (right' l)" using db(4) by (intro keys_mono) auto
        have sep: "\<forall>x \<in> keys a. \<forall>y \<in> keys b. x < y"
          using ka kb L(3,4) by (meson order_less_trans subsetD)
        have "post e map_tag S3 S' n (vals a \<union> vals b)"
          by (rule join_post[OF db(1) live_ext[OF da(3) db(2)] db(3) sep mk])
        then have "post e map_tag S S' n (vals a \<union> vals b)"
          by (rule post_trans[OF e03])
        moreover have "vals a \<union> vals b = {v \<in> vals l. val_key v \<in> keys r}"
          unfolding da(4) db(4) L(1) using d1(5) d2(5)
          by (simp only: keys_filter_less) (rule iks_left, use vl vr L(8) nk in auto)
        ultimately show ?thesis by simp
      next
        case RIGHT
        obtain s1 s2 S1 where s: "split e S l (key r) = ((s1, s2), S1)" by (metis prod.exhaust)
        obtain a S2 where ua: "set_intersection_ks e S1 s1 (left' r) = (a, S2)"
          by (metis prod.exhaust)
        obtain b S3 where ub: "set_intersection_ks e S2 s2 (right' r) = (b, S3)"
          by (metis prod.exhaust)
        from u ln rn ne RIGHT s ua ub have mk: "join e S3 a b = (n, S')"
          by (simp add: set_intersection_ks.simps)
        from split_post[OF inv l s]
        have ps1: "post e map_tag S S1 s1 {v \<in> vals l. val_key v < key r}"
          and ps2: "post e map_tag S S1 s2 {v \<in> vals l. \<not> val_key v < key r}" by simp_all
        note d1 = postD[OF ps1] and d2 = postD[OF ps2]
        have pa: "post e map_tag S1 S2 a {v \<in> vals s1. val_key v \<in> keys (left' r)}"
          by (rule "1.IH"(5)[OF nlr ne RIGHT s[symmetric] refl refl d1(1) d1(3)
                live_ext[OF R(6) d1(2)] ua])
        note da = postD[OF pa]
        have pb: "post e map_tag S2 S3 b {v \<in> vals s2. val_key v \<in> keys (right' r)}"
          by (rule "1.IH"(6)[OF nlr ne RIGHT s[symmetric] refl refl ua[symmetric] refl da(1)
                live_ext[OF d2(3) da(2)] live_ext[OF live_ext[OF R(7) d1(2)] da(2)] ub])
        note db = postD[OF pb]
        have e03: "ext S S3" using d1(2) da(2) db(2) by (blast intro: ext_trans)
        have b: "before e (key r) (key l)" using rk RIGHT by simp
        have hl: "\<forall>x \<in> keys l. before e (key r) x"
          using L(9) b by (auto intro: before_trans)
        have nk: "key r \<notin> keys l" using hl by auto
        then have nkv: "\<forall>v \<in> vals l. val_key v \<noteq> key r" by (force simp: keys_vals)
        have ka: "keys a \<subseteq> keys (left' r)" using da(4) by (auto simp: keys_vals)
        have kb: "keys b \<subseteq> keys (right' r)" using db(4) by (auto simp: keys_vals)
        have sep: "\<forall>x \<in> keys a. \<forall>y \<in> keys b. x < y"
          using ka kb R(3,4) by (meson order_less_trans subsetD)
        have "post e map_tag S3 S' n (vals a \<union> vals b)"
          by (rule join_post[OF db(1) live_ext[OF da(3) db(2)] db(3) sep mk])
        then have "post e map_tag S S' n (vals a \<union> vals b)"
          by (rule post_trans[OF e03])
        moreover have "vals a \<union> vals b = {v \<in> vals l. val_key v \<in> keys r}"
          unfolding da(4) db(4) d1(4) d2(4) R(2)
          by (rule iks_right) (use R(3,4) nkv in auto)
        ultimately show ?thesis by simp
      next
        case SAME
        obtain a S1 where ua: "set_intersection_ks e S (left' l) (left' r) = (a, S1)"
          by (metis prod.exhaust)
        obtain b S2 where ub: "set_intersection_ks e S1 (right' l) (right' r) = (b, S2)"
          by (metis prod.exhaust)
        from u ln rn ne SAME ua ub have mk: "make_node_p e S2 l a b = (n, S')"
          by (simp add: set_intersection_ks.simps)
        have pa: "post e map_tag S S1 a {v \<in> vals (left' l). val_key v \<in> keys (left' r)}"
          by (rule "1.IH"(3)[OF nlr ne SAME inv L(6) R(6) ua])
        note da = postD[OF pa]
        have pb: "post e map_tag S1 S2 b {v \<in> vals (right' l). val_key v \<in> keys (right' r)}"
          by (rule "1.IH"(4)[OF nlr ne SAME ua[symmetric] refl da(1) live_ext[OF L(7) da(2)]
                live_ext[OF R(7) da(2)] ub])
        note db = postD[OF pb]
        have e02: "ext S S2" using da(2) db(2) by (blast intro: ext_trans)
        have k: "key l = key r" using rk SAME by simp
        have ka: "keys a \<subseteq> keys (left' l)" using da(4) by (intro keys_mono) auto
        have kb: "keys b \<subseteq> keys (right' l)" using db(4) by (intro keys_mono) auto
        have "post e map_tag S2 S' n (insert (node_value l) (vals a \<union> vals b))"
        proof (rule make_node_p_post[OF db(1) live_ext[OF l e02] ln live_ext[OF da(3) db(2)] db(3) _ _ _ mk])
          show "\<forall>x \<in> keys a. x < key l" using ka L(3) by auto
          show "\<forall>x \<in> keys b. key l < x" using kb L(4) by auto
          show "\<forall>x \<in> keys a \<union> keys b. before e (key l) x" using ka kb L(5) by auto
        qed
        then have "post e map_tag S S' n (insert (node_value l) (vals a \<union> vals b))"
          by (rule post_trans[OF e02])
        moreover have "insert (node_value l) (vals a \<union> vals b) = {v \<in> vals l. val_key v \<in> keys r}"
          unfolding da(4) db(4) L(1) R(2) k[symmetric]
          by (rule iks_same) (use vl vr L(8) R(3,4) k in auto)
        ultimately show ?thesis by simp
      qed
    qed
  qed
qed

lemma set_difference_ks_post:
  "invar e S \<Longrightarrow> live map_tag S l \<Longrightarrow> live set_tag S r \<Longrightarrow>
     set_difference_ks e S l r = (n, S') \<Longrightarrow>
     post e map_tag S S' n {v \<in> vals l. val_key v \<notin> keys r}"
proof (induction e S l r arbitrary: n S' rule: set_difference_ks.induct)
  case (1 e S l r)
  note inv = "1.prems"(1) and l = "1.prems"(2) and r = "1.prems"(3) and u = "1.prems"(4)
  show ?case
  proof (cases "l = Null")
    case True
    with u inv show ?thesis by (auto simp: post_def)
  next
    case ln: False
    show ?thesis
    proof (cases "key_node l = r")
      case True
      with u ln have res: "n = Null" "S' = S" by (simp_all add: set_difference_ks.simps)
      have "keys r = keys l" using keys_key_node[OF inv l] True by simp
      then have "{v \<in> vals l. val_key v \<notin> keys r} = {}" using val_key_in_keys by auto
      with res inv l show ?thesis by (simp add: post_def)
    next
      case ne: False
      show ?thesis
      proof (cases "r = Null")
        case True
        with u ln ne have res: "n = l" "S' = S" by (simp_all add: set_difference_ks.simps)
        with inv l True show ?thesis by (simp add: post_def)
      next
        case rn: False
        note rk = key_node_rank[OF inv l ln r rn]
        note L = live_nodeD[OF inv l ln] and R = live_nodeD[OF inv r rn]
        note vl = vals_bst_left[OF inv l ln] and vr = vals_bst_right[OF inv l ln]
        consider (LEFT) "rank (key_node l) r = LEFT" | (RIGHT) "rank (key_node l) r = RIGHT"
          | (SAME) "rank (key_node l) r = SAME"
          using rk(4) by (cases "rank (key_node l) r") auto
        then show ?thesis
        proof cases
          case LEFT
          obtain s1 s2 S1 where s: "split e S r (key l) = ((s1, s2), S1)" by (metis prod.exhaust)
          obtain a S2 where ua: "set_difference_ks e S1 (left' l) s1 = (a, S2)"
            by (metis prod.exhaust)
          obtain b S3 where ub: "set_difference_ks e S2 (right' l) s2 = (b, S3)"
            by (metis prod.exhaust)
          from u ln rn ne LEFT s ua ub have mk: "make_node_p e S3 l a b = (n, S')"
            by (simp add: set_difference_ks.simps)
          from split_post[OF inv r s]
          have ps1: "post e set_tag S S1 s1 {v \<in> vals r. val_key v < key l}"
            and ps2: "post e set_tag S S1 s2 {v \<in> vals r. \<not> val_key v < key l}" by simp_all
          note d1 = postD[OF ps1] and d2 = postD[OF ps2]
          have pa: "post e map_tag S1 S2 a {v \<in> vals (left' l). val_key v \<notin> keys s1}"
            by (rule "1.IH"(1)[OF ln ne rn LEFT s[symmetric] refl refl d1(1) live_ext[OF L(6) d1(2)]
                  d1(3) ua])
          note da = postD[OF pa]
          have pb: "post e map_tag S2 S3 b {v \<in> vals (right' l). val_key v \<notin> keys s2}"
            by (rule "1.IH"(2)[OF ln ne rn LEFT s[symmetric] refl refl ua[symmetric] refl da(1)
                  live_ext[OF live_ext[OF L(7) d1(2)] da(2)] live_ext[OF d2(3) da(2)] ub])
          note db = postD[OF pb]
          have e03: "ext S S3" using d1(2) da(2) db(2) by (blast intro: ext_trans)
          have b: "before e (key l) (key r)" using rk LEFT by simp
          have hr: "\<forall>x \<in> keys r. before e (key l) x"
            using R(9) b by (auto intro: before_trans)
          have nk: "key l \<notin> keys r" using hr by auto
          have ka: "keys a \<subseteq> keys (left' l)" using da(4) by (intro keys_mono) auto
          have kb: "keys b \<subseteq> keys (right' l)" using db(4) by (intro keys_mono) auto
          have "post e map_tag S3 S' n (insert (node_value l) (vals a \<union> vals b))"
          proof (rule make_node_p_post[OF db(1) live_ext[OF l e03] ln live_ext[OF da(3) db(2)] db(3) _ _ _ mk])
            show "\<forall>x \<in> keys a. x < key l" using ka L(3) by auto
            show "\<forall>x \<in> keys b. key l < x" using kb L(4) by auto
            show "\<forall>x \<in> keys a \<union> keys b. before e (key l) x" using ka kb L(5) by auto
          qed
          then have "post e map_tag S S' n (insert (node_value l) (vals a \<union> vals b))"
            by (rule post_trans[OF e03])
          moreover have "insert (node_value l) (vals a \<union> vals b) = {v \<in> vals l. val_key v \<notin> keys r}"
            unfolding da(4) db(4) L(1) using d1(5) d2(5)
            by (simp only: keys_filter_less) (rule dks_left, use vl vr L(8) nk in auto)
          ultimately show ?thesis by simp
        next
          case RIGHT
          obtain s1 s2 S1 where s: "split e S l (key r) = ((s1, s2), S1)" by (metis prod.exhaust)
          obtain a S2 where ua: "set_difference_ks e S1 s1 (left' r) = (a, S2)"
            by (metis prod.exhaust)
          obtain b S3 where ub: "set_difference_ks e S2 s2 (right' r) = (b, S3)"
            by (metis prod.exhaust)
          from u ln rn ne RIGHT s ua ub have mk: "join e S3 a b = (n, S')"
            by (simp add: set_difference_ks.simps)
          from split_post[OF inv l s]
          have ps1: "post e map_tag S S1 s1 {v \<in> vals l. val_key v < key r}"
            and ps2: "post e map_tag S S1 s2 {v \<in> vals l. \<not> val_key v < key r}" by simp_all
          note d1 = postD[OF ps1] and d2 = postD[OF ps2]
          have pa: "post e map_tag S1 S2 a {v \<in> vals s1. val_key v \<notin> keys (left' r)}"
            by (rule "1.IH"(5)[OF ln ne rn RIGHT s[symmetric] refl refl d1(1) d1(3)
                  live_ext[OF R(6) d1(2)] ua])
          note da = postD[OF pa]
          have pb: "post e map_tag S2 S3 b {v \<in> vals s2. val_key v \<notin> keys (right' r)}"
            by (rule "1.IH"(6)[OF ln ne rn RIGHT s[symmetric] refl refl ua[symmetric] refl da(1)
                  live_ext[OF d2(3) da(2)] live_ext[OF live_ext[OF R(7) d1(2)] da(2)] ub])
          note db = postD[OF pb]
          have e03: "ext S S3" using d1(2) da(2) db(2) by (blast intro: ext_trans)
          have b: "before e (key r) (key l)" using rk RIGHT by simp
          have hl: "\<forall>x \<in> keys l. before e (key r) x"
            using L(9) b by (auto intro: before_trans)
          have nk: "key r \<notin> keys l" using hl by auto
          then have nkv: "\<forall>v \<in> vals l. val_key v \<noteq> key r" by (force simp: keys_vals)
          have ka: "keys a \<subseteq> keys s1" using da(4) by (intro keys_mono) auto
          have kb: "keys b \<subseteq> keys s2" using db(4) by (intro keys_mono) auto
          have sep: "\<forall>x \<in> keys a. \<forall>y \<in> keys b. x < y"
            using ka kb d1(5) d2(5) by (fastforce simp: subset_iff)
          have "post e map_tag S3 S' n (vals a \<union> vals b)"
            by (rule join_post[OF db(1) live_ext[OF da(3) db(2)] db(3) sep mk])
          then have "post e map_tag S S' n (vals a \<union> vals b)"
            by (rule post_trans[OF e03])
          moreover have "vals a \<union> vals b = {v \<in> vals l. val_key v \<notin> keys r}"
            unfolding da(4) db(4) d1(4) d2(4) R(2)
            by (rule dks_right) (use R(3,4) nkv in auto)
          ultimately show ?thesis by simp
        next
          case SAME
          obtain a S1 where ua: "set_difference_ks e S (left' l) (left' r) = (a, S1)"
            by (metis prod.exhaust)
          obtain b S2 where ub: "set_difference_ks e S1 (right' l) (right' r) = (b, S2)"
            by (metis prod.exhaust)
          from u ln rn ne SAME ua ub have mk: "join e S2 a b = (n, S')"
            by (simp add: set_difference_ks.simps)
          have pa: "post e map_tag S S1 a {v \<in> vals (left' l). val_key v \<notin> keys (left' r)}"
            by (rule "1.IH"(3)[OF ln ne rn SAME inv L(6) R(6) ua])
          note da = postD[OF pa]
          have pb: "post e map_tag S1 S2 b {v \<in> vals (right' l). val_key v \<notin> keys (right' r)}"
            by (rule "1.IH"(4)[OF ln ne rn SAME ua[symmetric] refl da(1) live_ext[OF L(7) da(2)]
                  live_ext[OF R(7) da(2)] ub])
          note db = postD[OF pb]
          have e02: "ext S S2" using da(2) db(2) by (blast intro: ext_trans)
          have k: "key l = key r" using rk SAME by simp
          have ka: "keys a \<subseteq> keys (left' l)" using da(4) by (intro keys_mono) auto
          have kb: "keys b \<subseteq> keys (right' l)" using db(4) by (intro keys_mono) auto
          have sep: "\<forall>x \<in> keys a. \<forall>y \<in> keys b. x < y"
            using ka kb L(3,4) by (meson order_less_trans subsetD)
          have "post e map_tag S2 S' n (vals a \<union> vals b)"
            by (rule join_post[OF db(1) live_ext[OF da(3) db(2)] db(3) sep mk])
          then have "post e map_tag S S' n (vals a \<union> vals b)"
            by (rule post_trans[OF e02])
          moreover have "vals a \<union> vals b = {v \<in> vals l. val_key v \<notin> keys r}"
            unfolding da(4) db(4) L(1) R(2) k[symmetric]
            by (rule dks_same) (use vl vr L(8) R(3,4) k in auto)
          ultimately show ?thesis by simp
        qed
      qed
    qed
  qed
qed

declare erase.simps [simp del] tail.simps [simp del] head.simps [simp del]

section \<open>Erasing an element\<close>

lemma equal_val_key: "equal_val v k \<Longrightarrow> val_key v = val_key k"
  by (cases v; cases k) auto

lemma erase_Null [simp]: "erase e S Null k = ((Null, False), S)"
  by (simp add: erase.simps)

lemma erase_post:
  "invar e S \<Longrightarrow> live c S p \<Longrightarrow> erase e S p k = ((n, found), S') \<Longrightarrow>
     post e c S S' n {v \<in> vals p. \<not> equal_val v k} \<and>
     (found \<longleftrightarrow> (\<exists>x \<in> keys p. \<not> x < val_key k))"
proof (induction e S p k arbitrary: n found S' rule: erase.induct)
  case (1 e S p k)
  note inv = "1.prems"(1) and p = "1.prems"(2) and er = "1.prems"(3)
  show ?case
  proof (cases "p = Null")
    case True
    with er inv show ?thesis by (auto simp: post_def)
  next
    case pn: False
    note P = live_nodeD[OF inv p pn]
    note vl = vals_bst_left[OF inv p pn] and vr = vals_bst_right[OF inv p pn]
    have cv: "compare_val (node_value p) k \<longleftrightarrow> key p < val_key k"
      using pn by (simp add: compare_val_def)
    show ?thesis
    proof (cases "key p < val_key k")
      case True
      then have c: "compare_val (node_value p) k" using cv by simp
      obtain n1 f1 S1 where e1: "erase e S (right' p) k = ((n1, f1), S1)"
        by (metis prod.exhaust)
      from "1.IH"(1)[OF pn c inv P(7) e1]
      have p1: "post e c S S1 n1 {v \<in> vals (right' p). \<not> equal_val v k}"
        and f1: "f1 \<longleftrightarrow> (\<exists>x \<in> keys (right' p). \<not> x < val_key k)" by simp_all
      note d1 = postD[OF p1]
      have nl: "\<not> equal_val v k" if "v \<in> insert (node_value p) (vals (left' p))" for v
      proof
        assume "equal_val v k"
        then have "val_key v = val_key k" by (rule equal_val_key)
        moreover have "val_key v = key p \<or> val_key v < key p" using that vl P(8) by auto
        ultimately show False using True by auto
      qed
      have "\<forall>x \<in> keys (left' p). x < val_key k" using True P(3) by (meson order_less_trans)
      then have fl: "(\<exists>x \<in> keys p. \<not> x < val_key k) \<longleftrightarrow> (\<exists>x \<in> keys (right' p). \<not> x < val_key k)"
        unfolding P(2) using True by auto
      show ?thesis
      proof (cases f1)
        case t: True
        obtain q S2 where rp: "replace_right e S1 p n1 = (q, S2)" by (metis prod.exhaust)
        from er pn c e1 t rp have res: "n = q" "found = True" "S' = S2"
          by (simp_all add: erase.simps)
        have sub: "keys n1 \<subseteq> keys (right' p)" using d1(4) by (intro keys_mono) auto
        have "post e c S1 S2 q (insert (node_value p) (vals (left' p) \<union> vals n1))"
          by (rule replace_right_post[OF d1(1) live_ext[OF p d1(2)] pn d1(3) _ _ rp])
            (use sub P(4,5) in auto)
        then have "post e c S S2 q (insert (node_value p) (vals (left' p) \<union> vals n1))"
          by (rule post_trans[OF d1(2)])
        moreover have "insert (node_value p) (vals (left' p) \<union> vals n1) =
                       {v \<in> vals p. \<not> equal_val v k}"
          unfolding d1(4) P(1) using nl by blast
        ultimately show ?thesis using res t f1 fl by simp
      next
        case f: False
        from er pn c e1 f have res: "n = p" "found = False" "S' = S1"
          by (simp_all add: erase.simps)
        have "\<not> equal_val v k" if "v \<in> vals (right' p)" for v
        proof
          assume "equal_val v k"
          then have "val_key v = val_key k" by (rule equal_val_key)
          moreover have "val_key v \<in> keys (right' p)" using that by (rule val_key_in_keys)
          ultimately show False using f f1 by auto
        qed
        then have "{v \<in> vals p. \<not> equal_val v k} = vals p"
          unfolding P(1) using nl by blast
        then show ?thesis using res f f1 fl d1(1,2) live_ext[OF p d1(2)] by (simp add: post_def)
      qed
    next
      case False
      then have c: "\<not> compare_val (node_value p) k" using cv by simp
      obtain n1 f1 S1 where e1: "erase e S (left' p) k = ((n1, f1), S1)"
        by (metis prod.exhaust)
      from "1.IH"(2)[OF pn c inv P(6) e1]
      have p1: "post e c S S1 n1 {v \<in> vals (left' p). \<not> equal_val v k}"
        and f1: "f1 \<longleftrightarrow> (\<exists>x \<in> keys (left' p). \<not> x < val_key k)" by simp_all
      note d1 = postD[OF p1]
      have nr: "\<not> equal_val v k" if "v \<in> vals (right' p)" for v
      proof
        assume "equal_val v k"
        then have "val_key v = val_key k" by (rule equal_val_key)
        then show False using False vr[OF that] by auto
      qed
      have fl: "\<exists>x \<in> keys p. \<not> x < val_key k" using False pn by (auto simp: P(2))
      show ?thesis
      proof (cases f1)
        case t: True
        obtain q S2 where rp: "replace_left e S1 p n1 = (q, S2)" by (metis prod.exhaust)
        from er pn c e1 t rp have res: "n = q" "found = True" "S' = S2"
          by (simp_all add: erase.simps)
        have sub: "keys n1 \<subseteq> keys (left' p)" using d1(4) by (intro keys_mono) auto
        have "post e c S1 S2 q (insert (node_value p) (vals n1 \<union> vals (right' p)))"
          by (rule replace_left_post[OF d1(1) live_ext[OF p d1(2)] pn d1(3) _ _ rp])
            (use sub P(3,5) in auto)
        then have "post e c S S2 q (insert (node_value p) (vals n1 \<union> vals (right' p)))"
          by (rule post_trans[OF d1(2)])
        moreover have "\<not> equal_val (node_value p) k"
        proof
          assume "equal_val (node_value p) k"
          then have "key p = val_key k" using equal_val_key P(8) by metis
          moreover from t f1 obtain x where "x \<in> keys (left' p)" "\<not> x < val_key k" by auto
          ultimately show False using P(3) by auto
        qed
        then have "insert (node_value p) (vals n1 \<union> vals (right' p)) =
                       {v \<in> vals p. \<not> equal_val v k}"
          unfolding d1(4) P(1) using nr by blast
        ultimately show ?thesis using res fl by simp
      next
        case f: False
        have nlft: "\<not> equal_val v k" if "v \<in> vals (left' p)" for v
        proof
          assume "equal_val v k"
          then have "val_key v = val_key k" by (rule equal_val_key)
          moreover have "val_key v \<in> keys (left' p)" using that by (rule val_key_in_keys)
          ultimately show False using f f1 by auto
        qed
        show ?thesis
        proof (cases "equal_val (node_value p) k")
          case ne: False
          from er pn c e1 f ne have res: "n = p" "found = True" "S' = S1"
            by (simp_all add: erase.simps)
          have "{v \<in> vals p. \<not> equal_val v k} = vals p"
            unfolding P(1) using nlft nr ne by blast
          then show ?thesis using res fl d1(1,2) live_ext[OF p d1(2)] by (simp add: post_def)
        next
          case eq: True
          obtain q S2 where j: "join e S1 (left' p) (right' p) = (q, S2)" by (metis prod.exhaust)
          from er pn c e1 f eq j have res: "n = q" "found = True" "S' = S2"
            by (simp_all add: erase.simps)
          have sep: "\<forall>x \<in> keys (left' p). \<forall>y \<in> keys (right' p). x < y"
            using P(3,4) by (meson order_less_trans)
          have "post e c S1 S2 q (vals (left' p) \<union> vals (right' p))"
            by (rule join_post[OF d1(1) live_ext[OF P(6) d1(2)] live_ext[OF P(7) d1(2)] sep j])
          then have "post e c S S2 q (vals (left' p) \<union> vals (right' p))"
            by (rule post_trans[OF d1(2)])
          moreover have "vals (left' p) \<union> vals (right' p) = {v \<in> vals p. \<not> equal_val v k}"
            unfolding P(1) using nlft nr eq by blast
          ultimately show ?thesis using res fl by simp
        qed
      qed
    qed
  qed
qed

section \<open>Positions: head and tail\<close>

lemma live_size_length: "invar e S \<Longrightarrow> live c S n \<Longrightarrow> node_size n = length (inorder n)"
proof (induction "tsize n" arbitrary: n rule: less_induct)
  case less
  show ?case
  proof (cases "n = Null")
    case False
    note N = live_nodeD[OF less.prems False]
    have "node_size (left' n) = length (inorder (left' n))"
      "node_size (right' n) = length (inorder (right' n))"
      using less.hyps[of "left' n"] less.hyps[of "right' n"] less.prems(1) N(6,7) False
      by simp_all
    then show ?thesis
      using live_node_size[OF less.prems False] inorder_node[OF False] by simp
  qed simp
qed

definition spec_list ::
  "('k::linorder, 'm) env \<Rightarrow> category \<Rightarrow> ('k, 'm) providers \<Rightarrow> ('k, 'm) providers \<Rightarrow>
     ('k, 'm) node_ptr \<Rightarrow> ('k, 'm) val list \<Rightarrow> bool" where
  "spec_list e c S S' n xs = (invar e S' \<and> ext S S' \<and> live c S' n \<and> inorder n = xs)"

lemma spec_listD:
  assumes "spec_list e c S S' n xs"
  shows "invar e S'" "ext S S'" "live c S' n" "inorder n = xs" "vals n = set xs"
    "keys n = val_key ` set xs"
  using assms by (simp_all add: spec_list_def set_inorder[symmetric] keys_vals)

lemma tail_post:
  "invar e S \<Longrightarrow> live c S p \<Longrightarrow> tail e S p first = (n, S') \<Longrightarrow>
     spec_list e c S S' n (drop first (inorder p))"
proof (induction e S p first arbitrary: n S' rule: tail.induct)
  case (1 e S p first)
  note inv = "1.prems"(1) and p = "1.prems"(2) and t = "1.prems"(3)
  show ?case
  proof (cases "p = Null")
    case True
    with t inv show ?thesis by (auto simp: tail.simps spec_list_def split: if_splits)
  next
    case pn: False
    note P = live_nodeD[OF inv p pn]
    note io = inorder_node[OF pn]
    have sl: "node_size (left' p) = length (inorder (left' p))"
      using live_size_length[OF inv P(6)] .
    show ?thesis
    proof (cases "first > node_size (left' p)")
      case True
      then have c: "p \<noteq> Null \<and> first > node_size (left' p)" using pn by simp
      from t c have t1: "tail e S (right' p) (first - (node_size (left' p) + 1)) = (n, S')"
        by (simp add: tail.simps)
      have "spec_list e c S S' n (drop (first - (node_size (left' p) + 1)) (inorder (right' p)))"
        by (rule "1.IH"(1)[OF c inv P(7) t1])
      moreover have "drop first (inorder p) =
                     drop (first - (node_size (left' p) + 1)) (inorder (right' p))"
        using True sl by (simp add: io drop_Cons')
      ultimately show ?thesis by simp
    next
      case False
      then have c: "\<not> (p \<noteq> Null \<and> first > node_size (left' p))" by simp
      show ?thesis
      proof (cases "first = 0")
        case True
        with t c pn False inv p show ?thesis by (auto simp: tail.simps spec_list_def split: if_splits)
      next
        case f0: False
        obtain t1 S1 where t1: "tail e S (left' p) first = (t1, S1)" by (metis prod.exhaust)
        from t c f0 pn t1 have rp: "replace_left e S1 p t1 = (n, S')"
          by (simp add: tail.simps)
        note d1 = spec_listD[OF "1.IH"(2)[OF c f0 pn inv P(6) t1]]
        have sub: "keys t1 \<subseteq> keys (left' p)"
          using d1(6) set_drop_subset[of first "inorder (left' p)"]
          by (auto simp: keys_vals set_inorder[symmetric])
        note r = replace_left_spec[OF d1(1) live_ext[OF p d1(2)] pn d1(3) _ _ rp]
        have "invar e S'" "ext S1 S'" "live c S' n" "n \<noteq> Null" "node_value n = node_value p"
          "left' n = t1" "right' n = right' p"
          using r sub P(3,5) by blast+
        moreover have "drop first (inorder p) = drop first (inorder (left' p)) @ node_value p # inorder (right' p)"
          using False sl by (simp add: io)
        ultimately show ?thesis
          using d1(2,4) inorder_node[of n] by (auto simp: spec_list_def intro: ext_trans)
      qed
    qed
  qed
qed

lemma head_post:
  "invar e S \<Longrightarrow> live c S p \<Longrightarrow> lst \<le> node_size p \<Longrightarrow> head e S p lst = (n, S') \<Longrightarrow>
     spec_list e c S S' n (take lst (inorder p))"
proof (induction e S p lst arbitrary: n S' rule: head.induct)
  case (1 e S p lst)
  note inv = "1.prems"(1) and p = "1.prems"(2) and le = "1.prems"(3) and h = "1.prems"(4)
  show ?case
  proof (cases "p = Null")
    case True
    with h inv le show ?thesis by (auto simp: head.simps spec_list_def split: if_splits)
  next
    case pn: False
    note P = live_nodeD[OF inv p pn]
    note io = inorder_node[OF pn]
    have sl: "node_size (left' p) = length (inorder (left' p))"
      using live_size_length[OF inv P(6)] .
    have sr: "node_size (right' p) = length (inorder (right' p))"
      using live_size_length[OF inv P(7)] .
    have sp: "node_size p = length (inorder p)" using live_size_length[OF inv p] .
    show ?thesis
    proof (cases "lst \<le> node_size (left' p)")
      case True
      then have c: "p \<noteq> Null \<and> lst \<le> node_size (left' p)" using pn by simp
      from h c have h1: "head e S (left' p) lst = (n, S')" by (simp add: head.simps)
      have "spec_list e c S S' n (take lst (inorder (left' p)))"
        by (rule "1.IH"(1)[OF c inv P(6) True h1])
      moreover have "take lst (inorder p) = take lst (inorder (left' p))"
        using True sl by (simp add: io)
      ultimately show ?thesis by simp
    next
      case False
      then have c: "\<not> (p \<noteq> Null \<and> lst \<le> node_size (left' p))" by simp
      show ?thesis
      proof (cases "lst = node_size p")
        case True
        with h c pn False inv p sp show ?thesis by (auto simp: head.simps spec_list_def split: if_splits)
      next
        case ns: False
        obtain t1 S1 where h1: "head e S (right' p) (lst - node_size (left' p) - 1) = (t1, S1)"
          by (metis prod.exhaust)
        from h c ns pn h1 have rp: "replace_right e S1 p t1 = (n, S')"
          by (simp add: head.simps)
        have le1: "lst - node_size (left' p) - 1 \<le> node_size (right' p)"
          using le sp sl sr by (simp add: io)
        note d1 = spec_listD[OF "1.IH"(2)[OF c ns pn inv P(7) le1 h1]]
        have sub: "keys t1 \<subseteq> keys (right' p)"
          using d1(6) set_take_subset[of "lst - node_size (left' p) - 1" "inorder (right' p)"]
          by (auto simp: keys_vals set_inorder[symmetric])
        note r = replace_right_spec[OF d1(1) live_ext[OF p d1(2)] pn d1(3) _ _ rp]
        have "invar e S'" "ext S1 S'" "live c S' n" "n \<noteq> Null" "node_value n = node_value p"
          "left' n = left' p" "right' n = t1"
          using r sub P(4,5) by blast+
        moreover have "take lst (inorder p) =
            inorder (left' p) @ node_value p # take (lst - node_size (left' p) - 1) (inorder (right' p))"
          using False sl by (simp add: io take_Cons')
        ultimately show ?thesis
          using d1(2,4) inorder_node[of n] by (auto simp: spec_list_def intro: ext_trans)
      qed
    qed
  qed
qed

section \<open>Ascending order\<close>

lemma live_sorted:
  "invar e S \<Longrightarrow> live c S n \<Longrightarrow> sorted_wrt (\<lambda>v w. val_key v < val_key w) (inorder n)"
proof (induction "tsize n" arbitrary: n rule: less_induct)
  case less
  show ?case
  proof (cases "n = Null")
    case False
    note N = live_nodeD[OF less.prems False]
    have l: "sorted_wrt (\<lambda>v w. val_key v < val_key w) (inorder (left' n))"
      using less.hyps[of "left' n"] less.prems(1) N(6) False by simp
    have r: "sorted_wrt (\<lambda>v w. val_key v < val_key w) (inorder (right' n))"
      using less.hyps[of "right' n"] less.prems(1) N(7) False by simp
    have a: "val_key x < key n" if "x \<in> set (inorder (left' n))" for x
      using that vals_bst_left[OF less.prems False] by (simp add: set_inorder)
    have b: "key n < val_key y" if "y \<in> set (inorder (right' n))" for y
      using that vals_bst_right[OF less.prems False] by (simp add: set_inorder)
    have "val_key x < val_key y"
      if "x \<in> set (inorder (left' n))" "y \<in> set (inorder (right' n))" for x y
      using a[OF that(1)] b[OF that(2)] by (rule order_less_trans)
    then show ?thesis
      using l r a b False by (auto simp: inorder_node[OF False] sorted_wrt_append)
  qed simp
qed

lemma live_distinct: "invar e S \<Longrightarrow> live c S n \<Longrightarrow> distinct (inorder n)"
proof -
  assume "invar e S" "live c S n"
  then have "sorted_wrt (\<lambda>v w. val_key v < val_key w) (inorder n)" by (rule live_sorted)
  then have "sorted_wrt (\<noteq>) (inorder n)"
    by (rule sorted_wrt_mono_rel[rotated]) auto
  then show ?thesis by (simp add: distinct_conv_nth sorted_wrt_iff_nth_less nth_eq_iff_index_eq)
      (metis nat_neq_iff)
qed

section \<open>Erasing and retaining a range of positions\<close>

lemma erase_range_post:
  assumes inv: "invar e S" and p: "live c S p" and fl: "first \<le> lst" and ls: "lst \<le> node_size p"
    and er: "erase_range e S p first lst = (cnt, n, S')"
  shows "post e c S S' n (set (take first (inorder p)) \<union> set (drop lst (inorder p)))"
    and "cnt = size_diff p n"
proof -
  obtain h S1 where h: "head e S p first = (h, S1)" by (metis prod.exhaust)
  obtain t S2 where t: "tail e S1 p lst = (t, S2)" by (metis prod.exhaust)
  obtain q S3 where j: "join e S2 h t = (q, S3)" by (metis prod.exhaust)
  from er h t j have res: "n = q \<and> S' = S3 \<and> cnt = size_diff p q"
    by (auto simp: erase_range_def)
  have f: "first \<le> node_size p" using fl ls by simp
  note dh = spec_listD[OF head_post[OF inv p f h]]
  note dt = spec_listD[OF tail_post[OF dh(1) live_ext[OF p dh(2)] t]]
  let ?xs = "inorder p"
  have "sorted_wrt (\<lambda>v w. val_key v < val_key w) (take first ?xs @ drop first ?xs)"
    using live_sorted[OF inv p] by simp
  then have "\<forall>x \<in> set (take first ?xs). \<forall>y \<in> set (drop first ?xs). val_key x < val_key y"
    unfolding sorted_wrt_append by blast
  moreover have "set (drop lst ?xs) \<subseteq> set (drop first ?xs)"
    using fl by (rule set_drop_subset_set_drop)
  ultimately have sep: "\<forall>x \<in> keys h. \<forall>y \<in> keys t. x < y"
    unfolding dh(6) dt(6) by blast
  have "post e c S2 S3 q (vals h \<union> vals t)"
    by (rule join_post[OF dt(1) live_ext[OF dh(3) dt(2)] dt(3) sep j])
  then have "post e c S S3 q (vals h \<union> vals t)"
    by (rule post_trans[OF ext_trans[OF dh(2) dt(2)]])
  then show "post e c S S' n (set (take first (inorder p)) \<union> set (drop lst (inorder p)))"
    using res dh(5) dt(5) by simp
  show "cnt = size_diff p n" using res by simp
qed

lemma retain_post:
  assumes inv: "invar e S" and p: "live c S p" and ls: "lst \<le> node_size p"
    and rt: "retain e S p first lst = (cnt, n, S')"
  shows "spec_list e c S S' n (drop first (take lst (inorder p)))"
    and "cnt = size_diff p n"
proof -
  obtain h S1 where h: "head e S p lst = (h, S1)" by (metis prod.exhaust)
  obtain t S2 where t: "tail e S1 h first = (t, S2)" by (metis prod.exhaust)
  from rt h t have res: "n = t \<and> S' = S2 \<and> cnt = size_diff p t"
    by (auto simp: retain_def)
  note dh = spec_listD[OF head_post[OF inv p ls h]]
  note dt = spec_listD[OF tail_post[OF dh(1) dh(3) t]]
  show "spec_list e c S S' n (drop first (take lst (inorder p)))"
    using res dt(1,3,4) dh(4) ext_trans[OF dh(2) dt(2)] by (simp add: spec_list_def)
  show "cnt = size_diff p n" using res by simp
qed

section \<open>Leaves and bulk build\<close>

lemma make_leaf_post:
  assumes "invar e S" "make_node e S v Null Null = (n, S')"
  shows "post e (val_cat v) S S' n {v}"
proof -
  note m = make_node_spec[OF assms(1) _ _ _ _ _ assms(2)]
  have "invar e S'" "ext S S'" "live (val_cat v) S' n" "n \<noteq> Null" "node_value n = v"
    "left' n = Null" "right' n = Null"
    using m by (simp_all add: live_def)
  then show ?thesis using vals_node[of n] by (simp add: post_def)
qed

lemma build_post:
  "build e S xs md = (n, rest, S') \<Longrightarrow> invar e S \<Longrightarrow> \<forall>x \<in> set xs. val_cat x = c \<Longrightarrow>
     \<exists>used. xs = used @ rest \<and> invar e S' \<and> ext S S' \<and> live c S' n \<and>
        keys n = val_key ` set used \<and> vals n \<subseteq> set used \<and> (rest \<noteq> [] \<longrightarrow> md < length used)"
  and build_loop_post:
  "build_loop e S xs root d md = (n, rest, S') \<Longrightarrow> invar e S \<Longrightarrow> live c S root \<Longrightarrow>
     \<forall>x \<in> set xs. val_cat x = c \<Longrightarrow>
     \<exists>used. xs = used @ rest \<and> invar e S' \<and> ext S S' \<and> live c S' n \<and>
        keys n = keys root \<union> val_key ` set used \<and> vals n \<subseteq> vals root \<union> set used \<and>
        (rest \<noteq> [] \<longrightarrow> md - d \<le> length used)"
proof (induction e S xs md and e S xs root d md arbitrary: n rest S' and n rest S'
    rule: build_build_loop.induct)
  case (1 e S xs md)
  show ?case
  proof (cases xs)
    case Nil
    with "1.prems" show ?thesis by (simp add: live_def)
  next
    case (Cons x xs')
    obtain root S1 where mk: "make_node e S x Null Null = (root, S1)" by (metis prod.exhaust)
    from "1.prems"(1) Cons mk have bl: "build_loop e S1 xs' root 0 md = (n, rest, S')"
      by simp
    have cx: "val_cat x = c" and cs: "\<forall>x \<in> set xs'. val_cat x = c"
      using "1.prems"(3) Cons by simp_all
    note dl = postD[OF make_leaf_post[OF "1.prems"(2) mk]]
    from "1.IH"[OF Cons refl mk[symmetric] bl dl(1) _ cs] dl(3) cx
    obtain used where u: "xs' = used @ rest" "invar e S'" "ext S1 S'" "live c S' n"
      "keys n = keys root \<union> val_key ` set used" "vals n \<subseteq> vals root \<union> set used"
      "rest \<noteq> [] \<longrightarrow> md - 0 \<le> length used"
      by auto
    have "xs = (x # used) @ rest" using Cons u(1) by simp
    moreover have "ext S S'" using dl(2) u(3) by (rule ext_trans)
    moreover have "keys n = val_key ` set (x # used)" using u(5) dl(5) by simp
    moreover have "vals n \<subseteq> set (x # used)" using u(6) dl(4) by auto
    moreover have "rest \<noteq> [] \<longrightarrow> md < length (x # used)" using u(7) by auto
    ultimately show ?thesis using u(2,4) by blast
  qed
next
  case (2 e S xs root d md)
  note inv = "2.prems"(2) and rt = "2.prems"(3) and cs = "2.prems"(4)
  show ?case
  proof (cases "d < md")
    case False
    with "2.prems"(1) have "n = root" "rest = xs" "S' = S" by simp_all
    with inv rt False show ?thesis by simp
  next
    case lt: True
    obtain branch xs1 S1 where b: "build e S xs d = (branch, xs1, S1)" by (metis prod_cases3)
    from "2.IH"(1)[OF lt b inv cs]
    obtain used1 where u1: "xs = used1 @ xs1" "invar e S1" "ext S S1" "live c S1 branch"
      "keys branch = val_key ` set used1" "vals branch \<subseteq> set used1"
      "xs1 \<noteq> [] \<longrightarrow> d < length used1"
      by auto
    show ?thesis
    proof (cases "branch = Null")
      case True
      with "2.prems"(1) lt b have res: "n = root" "rest = xs1" "S' = S1" by simp_all
      from True u1(5) have "used1 = []" by simp
      with u1(7) have "xs1 = []" by auto
      with res u1 \<open>used1 = []\<close> live_ext[OF rt u1(3)] show ?thesis by simp
    next
      case bn: False
      obtain root' S2 where un: "set_union e S1 root branch = (root', S2)"
        by (metis prod.exhaust)
      from "2.prems"(1) lt b bn un
      have bl: "build_loop e S2 xs1 root' (d + 1) md = (n, rest, S')" by simp
      note du = postD[OF set_union_post[OF u1(2) live_ext[OF rt u1(3)] u1(4) un]]
      have cs1: "\<forall>x \<in> set xs1. val_cat x = c" using cs u1(1) by simp
      from "2.IH"(2)[OF lt refl b[symmetric] refl bn refl un[symmetric] bl du(1,3) cs1]
      obtain used2 where u2: "xs1 = used2 @ rest" "invar e S'" "ext S2 S'" "live c S' n"
        "keys n = keys root' \<union> val_key ` set used2" "vals n \<subseteq> vals root' \<union> set used2"
        "rest \<noteq> [] \<longrightarrow> md - (d + 1) \<le> length used2"
        by auto
      have ne: "used1 \<noteq> []" using bn u1(5) by auto
      have "xs = (used1 @ used2) @ rest" using u1(1) u2(1) by simp
      moreover have "ext S S'" using u1(3) du(2) u2(3) by (blast intro: ext_trans)
      moreover have "keys n = keys root \<union> val_key ` set (used1 @ used2)"
        using u2(5) du(5) u1(5) by (auto simp: keys_union_vals)
      moreover have "vals n \<subseteq> vals root \<union> set (used1 @ used2)"
        using u2(6) du(4) u1(6) by (auto simp: union_vals_def)
      moreover have "rest \<noteq> [] \<longrightarrow> md - d \<le> length (used1 @ used2)"
        using u2(7) ne by (cases used1) auto
      ultimately show ?thesis using u2(2,4) by blast
    qed
  qed
qed

section \<open>Canonical form\<close>

lemma equal_val_refl [simp]: "equal_val v v"
  by (cases v) auto

lemma set_node_eq:
  assumes inv: "invar e S" and a: "a \<in> nodes (set_table S)" and b: "b \<in> nodes (set_table S)"
    and k: "key a = key b" and l: "left' a = left' b" and r: "right' a = right' b"
  shows "a = b"
proof -
  from inv a b have ga: "good e S set_tag a" and gb: "good e S set_tag b"
    by (simp_all add: invar_def tinv_def)
  have "matches a b"
    using ga gb k l r by (cases a; cases b) (auto simp: good_def matches_def)
  with inv a b show ?thesis by (simp add: invar_def tinv_def)
qed

lemma map_node_eq:
  assumes inv: "invar e S" and a: "a \<in> nodes (map_table S)" and b: "b \<in> nodes (map_table S)"
    and v: "node_value a = node_value b" and l: "left' a = left' b" and r: "right' a = right' b"
  shows "a = b"
proof -
  from inv a b have ga: "good e S map_tag a" and gb: "good e S map_tag b"
    by (simp_all add: invar_def tinv_def)
  have an: "a \<noteq> Null" and bn: "b \<noteq> Null" using ga gb by (auto simp: good_def)
  have la: "live map_tag S a" and lb: "live map_tag S b" using a b by (simp_all add: live_def)
  note fa = key_node_fields[OF inv la an] and fb = key_node_fields[OF inv lb bn]
  have k: "key a = key b" using v an bn by (metis val_key_node_value)
  have kn: "key_node a = key_node b"
    by (rule set_node_eq[OF inv fa(5) fb(5)]) (simp_all add: fa fb k l r)
  have "matches a b"
    using ga gb v l r kn by (cases a; cases b) (auto simp: good_def matches_def)
  with inv a b show ?thesis by (simp add: invar_def tinv_def)
qed

lemma vals_left_filter:
  assumes "invar e S" "live c S n" "n \<noteq> Null"
  shows "vals (left' n) = {v \<in> vals n. val_key v < key n}"
proof -
  note N = live_nodeD[OF assms]
  have "val_key v < key n" if "v \<in> vals (left' n)" for v
    using vals_bst_left[OF assms that] .
  moreover have "\<not> val_key v < key n" if "v \<in> vals (right' n)" for v
    using vals_bst_right[OF assms that] by auto
  ultimately show ?thesis unfolding N(1) using N(8) by auto
qed

lemma vals_right_filter:
  assumes "invar e S" "live c S n" "n \<noteq> Null"
  shows "vals (right' n) = {v \<in> vals n. key n < val_key v}"
proof -
  note N = live_nodeD[OF assms]
  have "key n < val_key v" if "v \<in> vals (right' n)" for v
    using vals_bst_right[OF assms that] .
  moreover have "\<not> key n < val_key v" if "v \<in> vals (left' n)" for v
    using vals_bst_left[OF assms that] by auto
  ultimately show ?thesis unfolding N(1) using N(8) by auto
qed

lemma canonical:
  assumes inv: "invar e S"
  shows "live c S a \<Longrightarrow> live c S b \<Longrightarrow> vals a = vals b \<Longrightarrow> a = b"
proof (induction "tsize a" arbitrary: a b rule: less_induct)
  case less
  note a = less.prems(1) and b = less.prems(2) and eq = less.prems(3)
  show ?case
  proof (cases "a = Null")
    case True
    then show ?thesis using eq by (metis vals_empty_iff)
  next
    case an: False
    then have bn: "b \<noteq> Null" using eq by (metis vals_empty_iff)
    note A = live_nodeD[OF inv a an] and B = live_nodeD[OF inv b bn]
    have ke: "keys a = keys b" using eq by (simp add: keys_vals)
    have k: "key a = key b"
    proof (rule ccontr)
      assume ne: "key a \<noteq> key b"
      have "key b \<in> keys a" using ke bn by simp
      then have "before e (key a) (key b)" using A(9) ne by auto
      moreover have "key a \<in> keys b" using key_in_keys[OF an] ke by simp
      then have "before e (key b) (key a)" using B(9) ne by auto
      ultimately show False using before_asym by blast
    qed
    have "node_value a \<in> vals b" using eq A(1) by auto
    then have nv: "node_value a = node_value b"
      by (rule live_key_unique[OF inv b bn]) (simp add: A(8) k)
    have "vals (left' a) = vals (left' b)"
      unfolding vals_left_filter[OF inv a an] vals_left_filter[OF inv b bn] using eq k by simp
    then have l: "left' a = left' b"
      using less.hyps[of "left' a" "left' b"] A(6) B(6) an by simp
    have "vals (right' a) = vals (right' b)"
      unfolding vals_right_filter[OF inv a an] vals_right_filter[OF inv b bn] using eq k by simp
    then have r: "right' a = right' b"
      using less.hyps[of "right' a" "right' b"] A(7) B(7) an by simp
    from a b an bn have ia: "a \<in> nodes (table c S)" and ib: "b \<in> nodes (table c S)"
      by (simp_all add: live_def)
    show ?thesis
    proof (cases c)
      case set_tag
      with ia ib show ?thesis by (intro set_node_eq[OF inv _ _ k l r]) simp_all
    next
      case map_tag
      with ia ib show ?thesis by (intro map_node_eq[OF inv _ _ nv l r]) simp_all
    qed
  qed
qed

lemma live_addr_eq:
  "invar e S \<Longrightarrow> a \<in> nodes (table c S) \<Longrightarrow> b \<in> nodes (table c S) \<Longrightarrow> addr a = addr b \<Longrightarrow> a = b"
  by (cases c) (simp_all add: invar_def tinv_def)

section \<open>The initial state\<close>

lemma nodes_new [simp]: "nodes new_hash_table = {}"
  by (simp add: nodes_def new_hash_table_def)

lemma ht_ok_new: "ht_ok new_hash_table"
proof -
  have "(8::nat) = 2 ^ 3" by simp
  then have "\<exists>j. (8::nat) = 2 ^ j" by (rule exI)
  then show ?thesis by (simp add: ht_ok_def new_hash_table_def min_bucket_count'_def)
qed

lemma invar_new: "invar e new_providers"
  by (simp add: invar_def tinv_def new_providers_def ht_ok_new)

section \<open>What the wrappers establish\<close>

lemma spec_list_post: "spec_list e c S S' n xs \<Longrightarrow> post e c S S' n (set xs)"
  by (simp add: spec_list_def post_def set_inorder[symmetric])

lemma size_diff_card:
  assumes "invar e S" "live c S a" "live c' S n" "keys a \<subseteq> keys n"
  shows "size_diff n a = word_of_nat (card (keys n - keys a))"
proof -
  have "card (keys n - keys a) = card (keys n) - card (keys a)"
    using assms(4) by (simp add: card_Diff_subset)
  moreover have "card (keys a) \<le> card (keys n)" using assms(4) by (simp add: card_mono)
  ultimately show ?thesis
    using live_size_card[OF assms(1,2)] live_size_card[OF assms(1,3)]
    by (simp add: size_diff_def of_nat_diff)
qed

lemma add_post:
  assumes "invar e S" "live c S a" "live c S b" "add e S a b = (cnt, n, S')"
  shows "post e c S S' n (union_vals a b)" "cnt = size_diff n a"
proof -
  obtain q S1 where u: "set_union e S a b = (q, S1)" by (metis prod.exhaust)
  with assms(4) have "n = q \<and> S' = S1 \<and> cnt = size_diff q a" by (auto simp: add_def)
  with set_union_post[OF assms(1,2,3) u]
  show "post e c S S' n (union_vals a b)" "cnt = size_diff n a" by simp_all
qed

lemma diff_post:
  assumes "invar e S" "live c S a" "live c S b" "diff (ranker_for c) e S a b = (cnt, n, S')"
  shows "post e c S S' n (vals a - vals b)" "cnt = size_diff a n"
proof -
  obtain q S1 where u: "set_difference (ranker_for c) e S a b = (q, S1)" by (metis prod.exhaust)
  with assms(4) have "n = q \<and> S' = S1 \<and> cnt = size_diff a q" by (auto simp: diff_def)
  with set_difference_post[OF assms(1,2,3) refl u]
  show "post e c S S' n (vals a - vals b)" "cnt = size_diff a n" by simp_all
qed

lemma intersect_post:
  assumes "invar e S" "live c S a" "live c S b"
    "intersect (ranker_for c) e S a b = (cnt, n, S')"
  shows "post e c S S' n (vals a \<inter> vals b)" "cnt = size_diff a n"
proof -
  obtain q S1 where u: "set_intersection (ranker_for c) e S a b = (q, S1)"
    by (metis prod.exhaust)
  with assms(4) have "n = q \<and> S' = S1 \<and> cnt = size_diff a q" by (auto simp: intersect_def)
  with set_intersection_post[OF assms(1,2,3) refl u]
  show "post e c S S' n (vals a \<inter> vals b)" "cnt = size_diff a n" by simp_all
qed

lemma diff_ks_post:
  assumes "invar e S" "live map_tag S a" "live set_tag S b" "diff_ks e S a b = (cnt, n, S')"
  shows "post e map_tag S S' n {v \<in> vals a. val_key v \<notin> keys b}" "cnt = size_diff a n"
proof -
  obtain q S1 where u: "set_difference_ks e S a b = (q, S1)" by (metis prod.exhaust)
  with assms(4) have "n = q \<and> S' = S1 \<and> cnt = size_diff a q" by (auto simp: diff_ks_def)
  with set_difference_ks_post[OF assms(1,2,3) u]
  show "post e map_tag S S' n {v \<in> vals a. val_key v \<notin> keys b}" "cnt = size_diff a n"
    by simp_all
qed

lemma intersect_ks_post:
  assumes "invar e S" "live map_tag S a" "live set_tag S b"
    "intersect_ks e S a b = (cnt, n, S')"
  shows "post e map_tag S S' n {v \<in> vals a. val_key v \<in> keys b}" "cnt = size_diff a n"
proof -
  obtain q S1 where u: "set_intersection_ks e S a b = (q, S1)" by (metis prod.exhaust)
  with assms(4) have "n = q \<and> S' = S1 \<and> cnt = size_diff a q"
    by (auto simp: intersect_ks_def)
  with set_intersection_ks_post[OF assms(1,2,3) u]
  show "post e map_tag S S' n {v \<in> vals a. val_key v \<in> keys b}" "cnt = size_diff a n"
    by simp_all
qed

lemma insert_value_post:
  assumes "invar e S" "live (val_cat v) S a" "insert_value e S a v = (cnt, n, S')"
  shows "post e (val_cat v) S S' n (vals a \<union> {w \<in> {v}. val_key w \<notin> keys a})"
    "cnt = size_diff n a"
proof -
  obtain q S1 where mk: "make_node e S v Null Null = (q, S1)" by (metis prod.exhaust)
  with assms(3) have ad: "add e S1 a q = (cnt, n, S')" by (simp add: insert_value_def)
  note dl = postD[OF make_leaf_post[OF assms(1) mk]]
  note a = add_post[OF dl(1) live_ext[OF assms(2) dl(2)] dl(3) ad]
  from a(1) have "post e (val_cat v) S S' n (union_vals a q)" by (rule post_trans[OF dl(2)])
  then show "post e (val_cat v) S S' n (vals a \<union> {w \<in> {v}. val_key w \<notin> keys a})"
    by (simp add: union_vals_def dl(4))
  show "cnt = size_diff n a" by (rule a(2))
qed

lemma erase_key_post:
  assumes "invar e S" "live c S a" "erase_key e S a k = (cnt, n, S')"
  shows "post e c S S' n {v \<in> vals a. \<not> equal_val v k}" "cnt = size_diff a n"
proof -
  obtain q f S1 where er: "erase e S a k = ((q, f), S1)" by (metis prod.exhaust)
  with assms(3) have "n = q \<and> S' = S1 \<and> cnt = size_diff a q" by (auto simp: erase_key_def)
  with erase_post[OF assms(1,2) er]
  show "post e c S S' n {v \<in> vals a. \<not> equal_val v k}" "cnt = size_diff a n" by simp_all
qed

lemma make_node_range_post:
  assumes "make_node_range e S xs = (n, rest, S')" "invar e S" "\<forall>x \<in> set xs. val_cat x = c"
  shows "\<exists>used. xs = used @ rest \<and> post e c S S' n (vals n) \<and>
           keys n = val_key ` set used \<and> vals n \<subseteq> set used \<and>
           (length xs < 2 ^ 64 \<longrightarrow> rest = [])"
proof -
  from build_post[OF assms(1)[unfolded make_node_range_def] assms(2,3)]
  obtain used where u: "xs = used @ rest" "invar e S'" "ext S S'" "live c S' n"
    "keys n = val_key ` set used" "vals n \<subseteq> set used"
    "rest \<noteq> [] \<longrightarrow> 2 ^ 64 - 1 < length used"
    by auto
  have "length xs < 2 ^ 64 \<longrightarrow> rest = []"
  proof
    assume "length xs < 2 ^ 64"
    moreover have "length used \<le> length xs" using u(1) by simp
    ultimately have "\<not> (2 ^ 64 - 1 < length used)" by simp
    with u(7) show "rest = []" by blast
  qed
  with u show ?thesis by (auto simp: post_def)
qed

lemma assign_range_post:
  assumes "assign_range e S xs = (n, S')" "invar e S" "\<forall>x \<in> set xs. val_cat x = c"
  shows "post e c S S' n (vals n)"
proof -
  obtain q rest S1 where m: "make_node_range e S xs = (q, rest, S1)" by (metis prod_cases3)
  with assms(1) have "n = q" "S' = S1" by (simp_all add: assign_range_def)
  with make_node_range_post[OF m assms(2,3)] show ?thesis by auto
qed

lemma insert_range_post:
  assumes "invar e S" "live c S a" "\<forall>x \<in> set xs. val_cat x = c"
    "insert_range e S a xs = (cnt, n, S')"
  shows "post e c S S' n (vals n)" "cnt = size_diff n a"
    "length xs < 2 ^ 64 \<Longrightarrow> keys n = keys a \<union> val_key ` set xs"
    "vals a \<subseteq> vals n" "vals n \<subseteq> vals a \<union> set xs"
proof -
  obtain q rest S1 where m: "make_node_range e S xs = (q, rest, S1)" by (metis prod_cases3)
  with assms(4) have ad: "add e S1 a q = (cnt, n, S')" by (simp add: insert_range_def)
  from make_node_range_post[OF m assms(1,3)]
  obtain used where u: "xs = used @ rest" "post e c S S1 q (vals q)"
    "keys q = val_key ` set used" "vals q \<subseteq> set used" "length xs < 2 ^ 64 \<longrightarrow> rest = []"
    by auto
  note dq = postD[OF u(2)]
  note a = add_post[OF dq(1) live_ext[OF assms(2) dq(2)] dq(3) ad]
  note da = postD[OF a(1)]
  show "post e c S S' n (vals n)"
    using da(1,3) ext_trans[OF dq(2) da(2)] by (simp add: post_def)
  show "cnt = size_diff n a" by (rule a(2))
  show "keys n = keys a \<union> val_key ` set xs" if "length xs < 2 ^ 64"
    using that u(1,3,5) da(5) by (simp add: keys_union_vals)
  show "vals a \<subseteq> vals n" using da(4) by (auto simp: union_vals_def)
  show "vals n \<subseteq> vals a \<union> set xs" using da(4) u(1,4) by (auto simp: union_vals_def)
qed

lemma insert_or_assign_n_post:
  assumes "invar e S" "live c S a" "live c S b" "insert_or_assign_n e S a b = (chg, n, S')"
  shows "post e c S S' n (union_vals b a)" "chg \<longleftrightarrow> n \<noteq> a"
proof -
  obtain q S1 where u: "set_union e S b a = (q, S1)" by (metis prod.exhaust)
  with assms(4) have "n = q \<and> S' = S1 \<and> (chg \<longleftrightarrow> q \<noteq> a)"
    by (auto simp: insert_or_assign_n_def)
  with set_union_post[OF assms(1,3,2) u]
  show "post e c S S' n (union_vals b a)" "chg \<longleftrightarrow> n \<noteq> a" by simp_all
qed

lemma insert_or_assign_post:
  assumes "invar e S" "live (val_cat v) S a" "insert_or_assign e S a v = (chg, n, S')"
  shows "post e (val_cat v) S S' n (insert v {w \<in> vals a. val_key w \<noteq> val_key v})"
    "chg \<longleftrightarrow> n \<noteq> a"
proof -
  obtain q S1 where mk: "make_node e S v Null Null = (q, S1)" by (metis prod.exhaust)
  with assms(3) have ia: "insert_or_assign_n e S1 a q = (chg, n, S')"
    by (simp add: insert_or_assign_def)
  note dl = postD[OF make_leaf_post[OF assms(1) mk]]
  note a = insert_or_assign_n_post[OF dl(1) live_ext[OF assms(2) dl(2)] dl(3) ia]
  from a(1) have "post e (val_cat v) S S' n (union_vals q a)" by (rule post_trans[OF dl(2)])
  moreover have "union_vals q a = insert v {w \<in> vals a. val_key w \<noteq> val_key v}"
    by (auto simp: union_vals_def dl(4) dl(5))
  ultimately show "post e (val_cat v) S S' n (insert v {w \<in> vals a. val_key w \<noteq> val_key v})"
    by simp
  show "chg \<longleftrightarrow> n \<noteq> a" by (rule a(2))
qed

lemma insert_or_assign_range_post:
  assumes "invar e S" "live c S a" "\<forall>x \<in> set xs. val_cat x = c"
    "insert_or_assign_range e S a xs = (chg, n, S')"
  shows "post e c S S' n (vals n)"
proof -
  obtain q rest S1 where m: "make_node_range e S xs = (q, rest, S1)" by (metis prod_cases3)
  with assms(4) have ia: "insert_or_assign_n e S1 a q = (chg, n, S')"
    by (simp add: insert_or_assign_range_def)
  from make_node_range_post[OF m assms(1,3)] have pq: "post e c S S1 q (vals q)" by auto
  note dq = postD[OF pq]
  note da = postD[OF insert_or_assign_n_post(1)[OF dq(1) live_ext[OF assms(2) dq(2)] dq(3) ia]]
  show ?thesis using da(1,3) ext_trans[OF dq(2) da(2)] by (simp add: post_def)
qed

section \<open>Every reachable state satisfies the invariant\<close>

definition good_state ::
  "('k::linorder, 'm) env \<Rightarrow> ('k, 'm) providers \<Rightarrow> ('k, 'm) node_ptr set \<Rightarrow>
     ('k, 'm) node_ptr set \<Rightarrow> bool" where
  "good_state e S A M =
     (invar e S \<and> (\<forall>a \<in> A. live set_tag S a) \<and> (\<forall>m \<in> M. live map_tag S m))"

lemma gs_set:
  "good_state e S A M \<Longrightarrow> post e set_tag S S' n V \<Longrightarrow> good_state e S' (insert n A) M"
  by (auto simp: good_state_def post_def intro: live_ext)

lemma gs_map:
  "good_state e S A M \<Longrightarrow> post e map_tag S S' n V \<Longrightarrow> good_state e S' A (insert n M)"
  by (auto simp: good_state_def post_def intro: live_ext)

lemma gs_same:
  "good_state e S A M \<Longrightarrow> invar e S' \<and> ext S S' \<and> P \<Longrightarrow> good_state e S' A M"
  by (auto simp: good_state_def intro: live_ext)

lemma gsD:
  assumes "good_state e S A M"
  shows "invar e S" "a \<in> A \<Longrightarrow> live set_tag S a" "m \<in> M \<Longrightarrow> live map_tag S m"
  using assms by (simp_all add: good_state_def)

lemma cat_keys [simp]: "\<forall>x \<in> set (map KeyV xs). val_cat x = set_tag"
  by simp

lemma cat_pairs [simp]: "\<forall>x \<in> set (map (\<lambda>p. PairV (fst p) (snd p)) xs). val_cat x = map_tag"
  by simp

lemma live_key_set: "invar e S \<Longrightarrow> live map_tag S m \<Longrightarrow> live set_tag S (key_set m)"
  using live_key_node[of e S m] by (simp add: key_set_def live_def)

lemma reach_good: "reach e S A M \<Longrightarrow> good_state e S A M"
proof (induction rule: reach.induct)
  case init
  show ?case by (simp add: good_state_def invar_new live_def)
next
  case (set_insert S A M a x cnt n S')
  note g = gsD[OF set_insert.IH]
  show ?case
    by (rule gs_set[OF set_insert.IH
          insert_value_post(1)[where v = "KeyV x", simplified, OF g(1) g(2)[OF set_insert.hyps(2)]
            set_insert.hyps(3)]])
next
  case (set_insert_range S A M a xs cnt n S')
  note g = gsD[OF set_insert_range.IH]
  show ?case
    by (rule gs_set[OF set_insert_range.IH
          insert_range_post(1)[OF g(1) g(2)[OF set_insert_range.hyps(2)] cat_keys
            set_insert_range.hyps(3)]])
next
  case (set_insert_set S A M a b cnt n S')
  note g = gsD[OF set_insert_set.IH]
  show ?case
    by (rule gs_set[OF set_insert_set.IH
          add_post(1)[OF g(1) g(2)[OF set_insert_set.hyps(2)] g(2)[OF set_insert_set.hyps(3)]
            set_insert_set.hyps(4)]])
next
  case (set_erase S A M a x cnt n S')
  note g = gsD[OF set_erase.IH]
  show ?case
    by (rule gs_set[OF set_erase.IH
          erase_key_post(1)[OF g(1) g(2)[OF set_erase.hyps(2)] set_erase.hyps(3)]])
next
  case (set_erase_range S A M a first lst cnt n S')
  note g = gsD[OF set_erase_range.IH]
  show ?case
    by (rule gs_set[OF set_erase_range.IH
          erase_range_post(1)[OF g(1) g(2)[OF set_erase_range.hyps(2)]
            set_erase_range.hyps(3,4,5)]])
next
  case (set_erase_set S A M a b cnt n S')
  note g = gsD[OF set_erase_set.IH]
  show ?case
    by (rule gs_set[OF set_erase_set.IH
          diff_post(1)[where c = set_tag, simplified, OF g(1) g(2)[OF set_erase_set.hyps(2)]
            g(2)[OF set_erase_set.hyps(3)] set_erase_set.hyps(4)]])
next
  case (set_retain_range S A M a first lst cnt n S')
  note g = gsD[OF set_retain_range.IH]
  show ?case
    by (rule gs_set[OF set_retain_range.IH
          spec_list_post[OF retain_post(1)[OF g(1) g(2)[OF set_retain_range.hyps(2)]
            set_retain_range.hyps(4,5)]]])
next
  case (set_retain_set S A M a b cnt n S')
  note g = gsD[OF set_retain_set.IH]
  show ?case
    by (rule gs_set[OF set_retain_set.IH
          intersect_post(1)[where c = set_tag, simplified, OF g(1)
            g(2)[OF set_retain_set.hyps(2)] g(2)[OF set_retain_set.hyps(3)]
            set_retain_set.hyps(4)]])
next
  case (set_assign_range S A M xs n S')
  note g = gsD[OF set_assign_range.IH]
  show ?case
    by (rule gs_set[OF set_assign_range.IH
          assign_range_post[OF set_assign_range.hyps(2) g(1) cat_keys]])
next
  case (set_or S A M a b n S')
  note g = gsD[OF set_or.IH]
  show ?case
    by (rule gs_set[OF set_or.IH
          set_union_post[OF g(1) g(2)[OF set_or.hyps(2)] g(2)[OF set_or.hyps(3)]
            set_or.hyps(4)]])
next
  case (set_and S A M a b n S')
  note g = gsD[OF set_and.IH]
  show ?case
    by (rule gs_set[OF set_and.IH
          set_intersection_post[where c = set_tag, OF g(1) g(2)[OF set_and.hyps(2)]
            g(2)[OF set_and.hyps(3)] _ set_and.hyps(4)]]) simp
next
  case (set_minus S A M a b n S')
  note g = gsD[OF set_minus.IH]
  show ?case
    by (rule gs_set[OF set_minus.IH
          set_difference_post[where c = set_tag, OF g(1) g(2)[OF set_minus.hyps(2)]
            g(2)[OF set_minus.hyps(3)] _ set_minus.hyps(4)]]) simp
next
  case (set_xor S A M a b n S')
  note g = gsD[OF set_xor.IH]
  show ?case
    by (rule gs_set[OF set_xor.IH
          set_symmetric_post[OF g(1) g(2)[OF set_xor.hyps(2)] g(2)[OF set_xor.hyps(3)]
            set_xor.hyps(4)[unfolded symmetric_def]]])
next
  case (set_includes S A M a b r S')
  note g = gsD[OF set_includes.IH]
  show ?case
    by (rule gs_same[OF set_includes.IH
          includes_post[where c = set_tag, OF g(1) g(2)[OF set_includes.hyps(2)]
            g(2)[OF set_includes.hyps(3)] _ set_includes.hyps(4)]]) simp
next
  case (map_insert S A M m x y cnt n S')
  note g = gsD[OF map_insert.IH]
  show ?case
    by (rule gs_map[OF map_insert.IH
          insert_value_post(1)[where v = "PairV x y", simplified, OF g(1)
            g(3)[OF map_insert.hyps(2)] map_insert.hyps(3)]])
next
  case (map_insert_range S A M m xs cnt n S')
  note g = gsD[OF map_insert_range.IH]
  show ?case
    by (rule gs_map[OF map_insert_range.IH
          insert_range_post(1)[OF g(1) g(3)[OF map_insert_range.hyps(2)] cat_pairs
            map_insert_range.hyps(3)]])
next
  case (map_insert_map S A M m m' cnt n S')
  note g = gsD[OF map_insert_map.IH]
  show ?case
    by (rule gs_map[OF map_insert_map.IH
          add_post(1)[OF g(1) g(3)[OF map_insert_map.hyps(2)] g(3)[OF map_insert_map.hyps(3)]
            map_insert_map.hyps(4)]])
next
  case (map_insert_or_assign S A M m x y chg n S')
  note g = gsD[OF map_insert_or_assign.IH]
  show ?case
    by (rule gs_map[OF map_insert_or_assign.IH
          insert_or_assign_post(1)[where v = "PairV x y", simplified, OF g(1)
            g(3)[OF map_insert_or_assign.hyps(2)] map_insert_or_assign.hyps(3)]])
next
  case (map_insert_or_assign_range S A M m xs chg n S')
  note g = gsD[OF map_insert_or_assign_range.IH]
  show ?case
    by (rule gs_map[OF map_insert_or_assign_range.IH
          insert_or_assign_range_post[OF g(1) g(3)[OF map_insert_or_assign_range.hyps(2)]
            cat_pairs map_insert_or_assign_range.hyps(3)]])
next
  case (map_insert_or_assign_map S A M m m' chg n S')
  note g = gsD[OF map_insert_or_assign_map.IH]
  show ?case
    by (rule gs_map[OF map_insert_or_assign_map.IH
          insert_or_assign_n_post(1)[OF g(1) g(3)[OF map_insert_or_assign_map.hyps(2)]
            g(3)[OF map_insert_or_assign_map.hyps(3)] map_insert_or_assign_map.hyps(4)]])
next
  case (map_erase S A M m x cnt n S')
  note g = gsD[OF map_erase.IH]
  show ?case
    by (rule gs_map[OF map_erase.IH
          erase_key_post(1)[OF g(1) g(3)[OF map_erase.hyps(2)] map_erase.hyps(3)]])
next
  case (map_erase_value S A M m x y cnt n S')
  note g = gsD[OF map_erase_value.IH]
  show ?case
    by (rule gs_map[OF map_erase_value.IH
          erase_key_post(1)[OF g(1) g(3)[OF map_erase_value.hyps(2)] map_erase_value.hyps(3)]])
next
  case (map_erase_range S A M m first lst cnt n S')
  note g = gsD[OF map_erase_range.IH]
  show ?case
    by (rule gs_map[OF map_erase_range.IH
          erase_range_post(1)[OF g(1) g(3)[OF map_erase_range.hyps(2)]
            map_erase_range.hyps(3,4,5)]])
next
  case (map_erase_keys S A M m a cnt n S')
  note g = gsD[OF map_erase_keys.IH]
  show ?case
    by (rule gs_map[OF map_erase_keys.IH
          diff_ks_post(1)[OF g(1) g(3)[OF map_erase_keys.hyps(2)]
            g(2)[OF map_erase_keys.hyps(3)] map_erase_keys.hyps(4)]])
next
  case (map_erase_map S A M m m' cnt n S')
  note g = gsD[OF map_erase_map.IH]
  show ?case
    by (rule gs_map[OF map_erase_map.IH
          diff_post(1)[where c = map_tag, simplified, OF g(1) g(3)[OF map_erase_map.hyps(2)]
            g(3)[OF map_erase_map.hyps(3)] map_erase_map.hyps(4)]])
next
  case (map_retain_range S A M m first lst cnt n S')
  note g = gsD[OF map_retain_range.IH]
  show ?case
    by (rule gs_map[OF map_retain_range.IH
          spec_list_post[OF retain_post(1)[OF g(1) g(3)[OF map_retain_range.hyps(2)]
            map_retain_range.hyps(4,5)]]])
next
  case (map_retain_keys S A M m a cnt n S')
  note g = gsD[OF map_retain_keys.IH]
  show ?case
    by (rule gs_map[OF map_retain_keys.IH
          intersect_ks_post(1)[OF g(1) g(3)[OF map_retain_keys.hyps(2)]
            g(2)[OF map_retain_keys.hyps(3)] map_retain_keys.hyps(4)]])
next
  case (map_retain_map S A M m m' cnt n S')
  note g = gsD[OF map_retain_map.IH]
  show ?case
    by (rule gs_map[OF map_retain_map.IH
          intersect_post(1)[where c = map_tag, simplified, OF g(1)
            g(3)[OF map_retain_map.hyps(2)] g(3)[OF map_retain_map.hyps(3)]
            map_retain_map.hyps(4)]])
next
  case (map_assign_range S A M xs n S')
  note g = gsD[OF map_assign_range.IH]
  show ?case
    by (rule gs_map[OF map_assign_range.IH
          assign_range_post[OF map_assign_range.hyps(2) g(1) cat_pairs]])
next
  case (map_or S A M m m' n S')
  note g = gsD[OF map_or.IH]
  show ?case
    by (rule gs_map[OF map_or.IH
          set_union_post[OF g(1) g(3)[OF map_or.hyps(2)] g(3)[OF map_or.hyps(3)]
            map_or.hyps(4)]])
next
  case (map_and S A M m m' n S')
  note g = gsD[OF map_and.IH]
  show ?case
    by (rule gs_map[OF map_and.IH
          set_intersection_post[where c = map_tag, OF g(1) g(3)[OF map_and.hyps(2)]
            g(3)[OF map_and.hyps(3)] _ map_and.hyps(4)]]) simp
next
  case (map_and_keys S A M m a n S')
  note g = gsD[OF map_and_keys.IH]
  show ?case
    by (rule gs_map[OF map_and_keys.IH
          set_intersection_ks_post[OF g(1) g(3)[OF map_and_keys.hyps(2)]
            g(2)[OF map_and_keys.hyps(3)] map_and_keys.hyps(4)]])
next
  case (map_minus S A M m m' n S')
  note g = gsD[OF map_minus.IH]
  show ?case
    by (rule gs_map[OF map_minus.IH
          set_difference_post[where c = map_tag, OF g(1) g(3)[OF map_minus.hyps(2)]
            g(3)[OF map_minus.hyps(3)] _ map_minus.hyps(4)]]) simp
next
  case (map_minus_keys S A M m a n S')
  note g = gsD[OF map_minus_keys.IH]
  show ?case
    by (rule gs_map[OF map_minus_keys.IH
          set_difference_ks_post[OF g(1) g(3)[OF map_minus_keys.hyps(2)]
            g(2)[OF map_minus_keys.hyps(3)] map_minus_keys.hyps(4)]])
next
  case (map_includes S A M m m' r S')
  note g = gsD[OF map_includes.IH]
  show ?case
    by (rule gs_same[OF map_includes.IH
          includes_post[where c = map_tag, OF g(1) g(3)[OF map_includes.hyps(2)]
            g(3)[OF map_includes.hyps(3)] _ map_includes.hyps(4)]]) simp
next
  case (map_key_set S A M m)
  note g = gsD[OF map_key_set.IH]
  show ?case
    using map_key_set.IH live_key_set[OF g(1) g(3)[OF map_key_set.hyps(2)]]
    by (simp add: good_state_def)
qed

section \<open>Nodes of a live tree\<close>

lemma subtrees_node:
  "n \<noteq> Null \<Longrightarrow> subtrees n = subtrees (left' n) @ n # subtrees (right' n)"
  by (cases n) auto

lemma subtrees_live:
  "invar e S \<Longrightarrow> live c S n \<Longrightarrow> p \<in> set (subtrees n) \<Longrightarrow> live c S p \<and> p \<noteq> Null"
proof (induction "tsize n" arbitrary: n rule: less_induct)
  case less
  show ?case
  proof (cases "n = Null")
    case True
    with less.prems(3) show ?thesis by simp
  next
    case False
    note N = live_nodeD[OF less.prems(1,2) False]
    from less.prems(3) consider "p \<in> set (subtrees (left' n))" | "p = n"
      | "p \<in> set (subtrees (right' n))"
      by (auto simp: subtrees_node[OF False])
    then show ?thesis
    proof cases
      case 1
      with less.hyps[of "left' n"] less.prems(1) N(6) False show ?thesis by simp
    next
      case 2
      with less.prems(2) False show ?thesis by simp
    next
      case 3
      with less.hyps[of "right' n"] less.prems(1) N(7) False show ?thesis by simp
    qed
  qed
qed

lemma live_vals_cat: "invar e S \<Longrightarrow> live c S n \<Longrightarrow> v \<in> vals n \<Longrightarrow> val_cat v = c"
proof (induction "tsize n" arbitrary: n rule: less_induct)
  case less
  show ?case
  proof (cases "n = Null")
    case True
    with less.prems(3) show ?thesis by simp
  next
    case False
    note N = live_nodeD[OF less.prems(1,2) False]
    from less.prems(3) consider "v \<in> vals (left' n)" | "v = node_value n"
      | "v \<in> vals (right' n)"
      unfolding N(1) by auto
    then show ?thesis
    proof cases
      case 1
      with less.hyps[of "left' n"] less.prems(1) N(6) False show ?thesis by simp
    next
      case 2
      with live_is_cat[OF less.prems(1,2) False] show ?thesis by (cases c; cases n) auto
    next
      case 3
      with less.hyps[of "right' n"] less.prems(1) N(7) False show ?thesis by simp
    qed
  qed
qed

lemma set_vals_keys:
  assumes "invar e S" "live set_tag S a"
  shows "vals a = KeyV ` keys a"
proof -
  have "v = KeyV (val_key v)" if "v \<in> vals a" for v
    using live_vals_cat[OF assms that] by (cases v) auto
  then show ?thesis unfolding keys_vals by force
qed

lemma vals_key_unique:
  assumes "invar e S" "live c S n" "v \<in> vals n" "w \<in> vals n" "val_key v = val_key w"
  shows "v = w"
proof -
  let ?xs = "inorder n"
  note s = live_sorted[OF assms(1,2)]
  from assms(3,4) obtain i j where ij: "i < length ?xs" "?xs ! i = v" "j < length ?xs" "?xs ! j = w"
    unfolding set_inorder[symmetric] in_set_conv_nth by blast
  have "\<not> i < j" using sorted_wrt_nth_less[OF s, of i j] ij assms(5) by auto
  moreover have "\<not> j < i" using sorted_wrt_nth_less[OF s, of j i] ij assms(5) by auto
  ultimately have "i = j" by simp
  with ij show ?thesis by simp
qed

lemma ptr_eq_iff:
  assumes "invar e S" "live c S a" "live c S b"
  shows "ptr_eq a b \<longleftrightarrow> a = b"
proof
  assume p: "ptr_eq a b"
  show "a = b"
  proof (cases "a = Null \<or> b = Null")
    case True
    with p show ?thesis by (cases a; cases b) (auto simp: ptr_eq_def)
  next
    case False
    with assms(2,3) have "a \<in> nodes (table c S)" "b \<in> nodes (table c S)"
      by (simp_all add: live_def)
    moreover from p False have "addr a = addr b" by (cases a; cases b) (auto simp: ptr_eq_def)
    ultimately show ?thesis by (rule live_addr_eq[OF assms(1)])
  qed
qed (simp add: ptr_eq_def)

lemma canonical_ptr:
  assumes "invar e S" "live c S a" "live c S b"
  shows "ptr_eq a b \<longleftrightarrow> vals a = vals b"
  using ptr_eq_iff[OF assms] canonical[OF assms] by auto

section \<open>Lower bound\<close>

declare lower_bound_loop.simps [simp del]

lemma lower_bound_loop_spec:
  "invar e S \<Longrightarrow> live c S p \<Longrightarrow>
     (if \<forall>x \<in> keys p. x < k then fst (lower_bound_loop p (\<lambda>n. key n < k) best i) = fst best
      else fst (lower_bound_loop p (\<lambda>n. key n < k) best i) \<noteq> Null \<and>
           node_value (fst (lower_bound_loop p (\<lambda>n. key n < k) best i)) \<in> vals p \<and>
           \<not> key (fst (lower_bound_loop p (\<lambda>n. key n < k) best i)) < k \<and>
           (\<forall>x \<in> keys p. \<not> x < k \<longrightarrow>
              key (fst (lower_bound_loop p (\<lambda>n. key n < k) best i)) \<le> x))"
proof (induction p "\<lambda>n::('a, 'b) node_ptr. key n < k" best i rule: lower_bound_loop.induct)
  case (1 p best i)
  note inv = "1.prems"(1) and p = "1.prems"(2)
  show ?case
  proof (cases "p = Null")
    case True
    then show ?thesis by (simp add: lower_bound_loop.simps)
  next
    case pn: False
    note P = live_nodeD[OF inv p pn]
    show ?thesis
    proof (cases "key p < k")
      case True
      let ?q = "fst (lower_bound_loop (right' p) (\<lambda>n. key n < k) best
                  (i + (node_size (left' p) + 1)))"
      have eq: "lower_bound_loop p (\<lambda>n. key n < k) best i =
                lower_bound_loop (right' p) (\<lambda>n. key n < k) best (i + (node_size (left' p) + 1))"
        using pn True by (subst lower_bound_loop.simps) simp
      note ih = "1.hyps"(1)[OF pn True inv P(7)]
      have lk: "\<forall>x \<in> keys (left' p). x < k" using P(3) True by (meson order_less_trans)
      show ?thesis
      proof (cases "\<forall>x \<in> keys (right' p). x < k")
        case t: True
        then have "\<forall>x \<in> keys p. x < k" unfolding P(2) using lk True by auto
        moreover from ih t have "?q = fst best" by simp
        ultimately show ?thesis unfolding eq by simp
      next
        case f: False
        then have nall: "\<not> (\<forall>x \<in> keys p. x < k)" unfolding P(2) by blast
        from ih f have q: "?q \<noteq> Null" "node_value ?q \<in> vals (right' p)" "\<not> key ?q < k"
          "\<forall>x \<in> keys (right' p). \<not> x < k \<longrightarrow> key ?q \<le> x"
          by simp_all
        have "node_value ?q \<in> vals p" using q(2) P(1) by simp
        moreover have "\<forall>x \<in> keys p. \<not> x < k \<longrightarrow> key ?q \<le> x"
          unfolding P(2) using q(4) lk True by auto
        ultimately show ?thesis unfolding eq if_not_P[OF nall] using q(1,3) by simp
      qed
    next
      case False
      let ?q = "fst (lower_bound_loop (left' p) (\<lambda>n. key n < k) (p, i + node_size (left' p)) i)"
      have eq: "lower_bound_loop p (\<lambda>n. key n < k) best i =
                lower_bound_loop (left' p) (\<lambda>n. key n < k) (p, i + node_size (left' p)) i"
        using pn False by (subst lower_bound_loop.simps) simp
      note ih = "1.hyps"(2)[OF pn False inv P(6)]
      have nall: "\<not> (\<forall>x \<in> keys p. x < k)" unfolding P(2) using False by blast
      have rk: "\<forall>x \<in> keys (right' p). key p < x" using P(4) .
      show ?thesis
      proof (cases "\<forall>x \<in> keys (left' p). x < k")
        case t: True
        with ih have qp: "?q = p" by simp
        have "node_value p \<in> vals p" using P(1) by simp
        moreover have "\<forall>x \<in> keys p. \<not> x < k \<longrightarrow> key p \<le> x"
          unfolding P(2) using t rk by auto
        ultimately show ?thesis unfolding eq qp if_not_P[OF nall] using pn False by simp
      next
        case f: False
        from ih f have q: "?q \<noteq> Null" "node_value ?q \<in> vals (left' p)" "\<not> key ?q < k"
          "\<forall>x \<in> keys (left' p). \<not> x < k \<longrightarrow> key ?q \<le> x"
          by simp_all
        have "key ?q \<in> keys (left' p)"
          using val_key_in_keys[OF q(2)] q(1) by simp
        then have lt: "key ?q < key p" using P(3) by simp
        have "node_value ?q \<in> vals p" using q(2) P(1) by simp
        moreover have "\<forall>x \<in> keys p. \<not> x < k \<longrightarrow> key ?q \<le> x"
          unfolding P(2) using q(4) lt rk by (auto intro: less_imp_le order_less_trans)
        ultimately show ?thesis unfolding eq if_not_P[OF nall] using q(1,3) by simp
      qed
    qed
  qed
qed

lemma at_spec:
  assumes inv: "invar e S" and m: "live map_tag S m"
  shows "PairV k v \<in> vals m \<Longrightarrow> at m k = Inr v"
    and "\<forall>v. PairV k v \<notin> vals m \<Longrightarrow> at m k = Inl KeyNotFound"
proof -
  let ?q = "fst (lower_bound m (\<lambda>n. key n < k))"
  note lb = lower_bound_loop_spec[OF inv m, of k "(Null, node_size m)" 0,
      folded lower_bound_def]
  have pair: "node_value q = PairV (key q) (mapped q)"
    if "q \<noteq> Null" "node_value q \<in> vals m" for q
  proof -
    have "val_cat (node_value q) = map_tag" using live_vals_cat[OF inv m that(2)] .
    with that(1) show ?thesis by (cases q) auto
  qed
  show "at m k = Inr v" if "PairV k v \<in> vals m"
  proof -
    have km: "k \<in> keys m" using val_key_in_keys[OF that] by simp
    then have "\<not> (\<forall>x \<in> keys m. x < k)" by auto
    with lb have q: "?q \<noteq> Null" "node_value ?q \<in> vals m" "\<not> key ?q < k"
      "\<forall>x \<in> keys m. \<not> x < k \<longrightarrow> key ?q \<le> x"
      by simp_all
    from q(4) km have "key ?q \<le> k" by auto
    with q(3) have kq: "key ?q = k" by simp
    have y: "node_value ?q = PairV k (mapped ?q)" using pair[OF q(1,2)] kq by simp
    have "PairV k (mapped ?q) = PairV k v"
      by (rule vals_key_unique[OF inv m _ that]) (use q(2) y in simp_all)
    then show ?thesis using q(1) kq by (simp add: at_def)
  qed
  show "at m k = Inl KeyNotFound" if "\<forall>v. PairV k v \<notin> vals m"
  proof (cases "?q = Null")
    case True
    then show ?thesis by (simp add: at_def)
  next
    case False
    have nall: "\<not> (\<forall>x \<in> keys m. x < k)"
    proof
      assume "\<forall>x \<in> keys m. x < k"
      with lb have "?q = Null" by simp
      with False show False by simp
    qed
    with lb have q: "node_value ?q \<in> vals m" by simp
    have "node_value ?q = PairV (key ?q) (mapped ?q)" using pair[OF False q] .
    with q that have "key ?q \<noteq> k" by metis
    then show ?thesis by (simp add: at_def)
  qed
qed

section \<open>The key set of a map\<close>

lemma key_set_key_node [simp]: "key_set m = key_node m"
  by (simp add: key_set_def)

lemma key_node_trees:
  "invar e S \<Longrightarrow> live map_tag S m \<Longrightarrow>
     inorder (key_node m) = map (\<lambda>v. KeyV (val_key v)) (inorder m) \<and>
     subtrees (key_node m) = map key_node (subtrees m)"
proof (induction "tsize m" arbitrary: m rule: less_induct)
  case less
  show ?case
  proof (cases "m = Null")
    case True
    then show ?thesis by simp
  next
    case False
    note N = live_nodeD[OF less.prems False]
    note f = key_node_fields[OF less.prems False]
    have l: "inorder (key_node (left' m)) = map (\<lambda>v. KeyV (val_key v)) (inorder (left' m))"
      "subtrees (key_node (left' m)) = map key_node (subtrees (left' m))"
      using less.hyps[of "left' m"] less.prems(1) N(6) False by simp_all
    have r: "inorder (key_node (right' m)) = map (\<lambda>v. KeyV (val_key v)) (inorder (right' m))"
      "subtrees (key_node (right' m)) = map key_node (subtrees (right' m))"
      using less.hyps[of "right' m"] less.prems(1) N(7) False by simp_all
    have lk: "live set_tag S (key_node m)" using live_key_node[OF less.prems] .
    have "is_SNode (key_node m)" using live_is_cat[OF less.prems(1) lk f(1)] by simp
    then have nv: "node_value (key_node m) = KeyV (key m)"
      using f(2) by (cases "key_node m") auto
    show ?thesis
      unfolding inorder_node[OF f(1)] subtrees_node[OF f(1)] inorder_node[OF False]
        subtrees_node[OF False]
      using l r nv f(3,4) N(8) by simp
  qed
qed

section \<open>Set expressions\<close>

fun den :: "('k, 'm) set_expr \<Rightarrow> ('k, 'm) val set" where
  "den (Operand a) = vals a"
| "den (Or_op x y) = den x \<union> den y"
| "den (And_op x y) = den x \<inter> den y"
| "den (Minus_op x y) = den x - den y"
| "den (Xor_op x y) = (den x - den y) \<union> (den y - den x)"

fun operands :: "('k, 'm) set_expr \<Rightarrow> ('k, 'm) node_ptr set" where
  "operands (Operand a) = {a}"
| "operands (Or_op x y) = operands x \<union> operands y"
| "operands (And_op x y) = operands x \<union> operands y"
| "operands (Minus_op x y) = operands x \<union> operands y"
| "operands (Xor_op x y) = operands x \<union> operands y"

lemma set_union_vals:
  assumes "invar e S" "live set_tag S a" "live set_tag S b"
  shows "union_vals a b = vals a \<union> vals b"
  unfolding union_vals_def set_vals_keys[OF assms(1,2)] set_vals_keys[OF assms(1,3)] by auto

lemma set_sym_vals:
  assumes "invar e S" "live set_tag S a" "live set_tag S b"
  shows "sym_vals a b = (vals a - vals b) \<union> (vals b - vals a)"
  unfolding sym_vals_def set_vals_keys[OF assms(1,2)] set_vals_keys[OF assms(1,3)] by auto

lemma eval_bin:
  assumes inv: "invar e S"
    and px: "\<forall>S n S'. invar e S \<longrightarrow> (\<forall>a \<in> operands x. live set_tag S a) \<longrightarrow>
               eval e S x = (n, S') \<longrightarrow> post e set_tag S S' n (den x)"
    and py: "\<forall>S n S'. invar e S \<longrightarrow> (\<forall>a \<in> operands y. live set_tag S a) \<longrightarrow>
               eval e S y = (n, S') \<longrightarrow> post e set_tag S S' n (den y)"
    and ops: "\<forall>a \<in> operands x \<union> operands y. live set_tag S a"
    and ex: "eval e S x = (a, S1)" and ey: "eval e S1 y = (b, S2)"
  shows "invar e S2" "ext S S2" "live set_tag S2 a" "live set_tag S2 b"
    "vals a = den x" "vals b = den y"
proof -
  have ox: "\<forall>a \<in> operands x. live set_tag S a" using ops by simp
  have pdx: "post e set_tag S S1 a (den x)" using px inv ox ex by blast
  note dx = postD[OF pdx]
  have oy: "\<forall>a \<in> operands y. live set_tag S1 a"
  proof
    fix c assume "c \<in> operands y"
    then have "live set_tag S c" using ops by simp
    then show "live set_tag S1 c" using dx(2) by (rule live_ext)
  qed
  have pdy: "post e set_tag S1 S2 b (den y)" using py dx(1) oy ey by blast
  note dy = postD[OF pdy]
  show "invar e S2" by (rule dy(1))
  show "ext S S2" using dx(2) dy(2) by (rule ext_trans)
  show "live set_tag S2 a" using dx(3) dy(2) by (rule live_ext)
  show "live set_tag S2 b" by (rule dy(3))
  show "vals a = den x" by (rule dx(4))
  show "vals b = den y" by (rule dy(4))
qed

lemma eval_post:
  "invar e S \<Longrightarrow> \<forall>a \<in> operands x. live set_tag S a \<Longrightarrow> eval e S x = (n, S') \<Longrightarrow>
     post e set_tag S S' n (den x)"
proof (induction x arbitrary: S n S')
  case (Operand a)
  then show ?case by (simp add: post_def)
next
  case (Or_op x y)
  obtain a S1 where ex: "eval e S x = (a, S1)" by (metis prod.exhaust)
  obtain b S2 where ey: "eval e S1 y = (b, S2)" by (metis prod.exhaust)
  from Or_op.prems(3) ex ey have u: "set_union e S2 a b = (n, S')" by simp
  have ops: "\<forall>a \<in> operands x \<union> operands y. live set_tag S a" using Or_op.prems(2) by simp
  have px: "\<forall>S n S'. invar e S \<longrightarrow> (\<forall>a \<in> operands x. live set_tag S a) \<longrightarrow>
               eval e S x = (n, S') \<longrightarrow> post e set_tag S S' n (den x)"
    by (intro allI impI) (rule Or_op.IH(1))
  have py: "\<forall>S n S'. invar e S \<longrightarrow> (\<forall>a \<in> operands y. live set_tag S a) \<longrightarrow>
               eval e S y = (n, S') \<longrightarrow> post e set_tag S S' n (den y)"
    by (intro allI impI) (rule Or_op.IH(2))
  note b = eval_bin[OF Or_op.prems(1) px py ops ex ey]
  have "post e set_tag S2 S' n (union_vals a b)"
    by (rule set_union_post[OF b(1,3,4) u])
  then have "post e set_tag S S' n (union_vals a b)" by (rule post_trans[OF b(2)])
  then show ?case using set_union_vals[OF b(1,3,4)] b(5,6) by simp
next
  case (And_op x y)
  obtain a S1 where ex: "eval e S x = (a, S1)" by (metis prod.exhaust)
  obtain b S2 where ey: "eval e S1 y = (b, S2)" by (metis prod.exhaust)
  from And_op.prems(3) ex ey have u: "set_intersection rank e S2 a b = (n, S')" by simp
  have ops: "\<forall>a \<in> operands x \<union> operands y. live set_tag S a" using And_op.prems(2) by simp
  have px: "\<forall>S n S'. invar e S \<longrightarrow> (\<forall>a \<in> operands x. live set_tag S a) \<longrightarrow>
               eval e S x = (n, S') \<longrightarrow> post e set_tag S S' n (den x)"
    by (intro allI impI) (rule And_op.IH(1))
  have py: "\<forall>S n S'. invar e S \<longrightarrow> (\<forall>a \<in> operands y. live set_tag S a) \<longrightarrow>
               eval e S y = (n, S') \<longrightarrow> post e set_tag S S' n (den y)"
    by (intro allI impI) (rule And_op.IH(2))
  note b = eval_bin[OF And_op.prems(1) px py ops ex ey]
  have "post e set_tag S2 S' n (vals a \<inter> vals b)"
    by (rule set_intersection_post[OF b(1,3,4) _ u]) simp
  then have "post e set_tag S S' n (vals a \<inter> vals b)" by (rule post_trans[OF b(2)])
  then show ?case using b(5,6) by simp
next
  case (Minus_op x y)
  obtain a S1 where ex: "eval e S x = (a, S1)" by (metis prod.exhaust)
  obtain b S2 where ey: "eval e S1 y = (b, S2)" by (metis prod.exhaust)
  from Minus_op.prems(3) ex ey have u: "set_difference rank e S2 a b = (n, S')" by simp
  have ops: "\<forall>a \<in> operands x \<union> operands y. live set_tag S a" using Minus_op.prems(2) by simp
  have px: "\<forall>S n S'. invar e S \<longrightarrow> (\<forall>a \<in> operands x. live set_tag S a) \<longrightarrow>
               eval e S x = (n, S') \<longrightarrow> post e set_tag S S' n (den x)"
    by (intro allI impI) (rule Minus_op.IH(1))
  have py: "\<forall>S n S'. invar e S \<longrightarrow> (\<forall>a \<in> operands y. live set_tag S a) \<longrightarrow>
               eval e S y = (n, S') \<longrightarrow> post e set_tag S S' n (den y)"
    by (intro allI impI) (rule Minus_op.IH(2))
  note b = eval_bin[OF Minus_op.prems(1) px py ops ex ey]
  have "post e set_tag S2 S' n (vals a - vals b)"
    by (rule set_difference_post[OF b(1,3,4) _ u]) simp
  then have "post e set_tag S S' n (vals a - vals b)" by (rule post_trans[OF b(2)])
  then show ?case using b(5,6) by simp
next
  case (Xor_op x y)
  obtain a S1 where ex: "eval e S x = (a, S1)" by (metis prod.exhaust)
  obtain b S2 where ey: "eval e S1 y = (b, S2)" by (metis prod.exhaust)
  from Xor_op.prems(3) ex ey have u: "set_symmetric e S2 a b = (n, S')" by simp
  have ops: "\<forall>a \<in> operands x \<union> operands y. live set_tag S a" using Xor_op.prems(2) by simp
  have px: "\<forall>S n S'. invar e S \<longrightarrow> (\<forall>a \<in> operands x. live set_tag S a) \<longrightarrow>
               eval e S x = (n, S') \<longrightarrow> post e set_tag S S' n (den x)"
    by (intro allI impI) (rule Xor_op.IH(1))
  have py: "\<forall>S n S'. invar e S \<longrightarrow> (\<forall>a \<in> operands y. live set_tag S a) \<longrightarrow>
               eval e S y = (n, S') \<longrightarrow> post e set_tag S S' n (den y)"
    by (intro allI impI) (rule Xor_op.IH(2))
  note b = eval_bin[OF Xor_op.prems(1) px py ops ex ey]
  have "post e set_tag S2 S' n (sym_vals a b)"
    by (rule set_symmetric_post[OF b(1,3,4) u])
  then have "post e set_tag S S' n (sym_vals a b)" by (rule post_trans[OF b(2)])
  then show ?case using set_sym_vals[OF b(1,3,4)] b(5,6) by simp
qed

lemma equal_exprs_iff:
  assumes "invar e S" "\<forall>a \<in> operands x \<union> operands y. live set_tag S a"
  shows "equal_exprs e S x y \<longleftrightarrow> den x = den y"
proof -
  obtain a S1 where ex: "eval e S x = (a, S1)" by (metis prod.exhaust)
  obtain b S2 where ey: "eval e S1 y = (b, S2)" by (metis prod.exhaust)
  have ox: "\<forall>a \<in> operands x. live set_tag S a" using assms(2) by simp
  note dx = postD[OF eval_post[OF assms(1) ox ex]]
  have "\<forall>a \<in> operands y. live set_tag S1 a"
    using assms(2) dx(2) by (auto intro: live_ext)
  note dy = postD[OF eval_post[OF dx(1) this ey]]
  have "ptr_eq a b \<longleftrightarrow> vals a = vals b"
    by (rule canonical_ptr[OF dy(1) live_ext[OF dx(3) dy(2)] dy(3)])
  then show ?thesis using ex ey dx(4) dy(4) by (simp add: equal_exprs_def)
qed

lemma empty_expr_iff:
  assumes "invar e S" "\<forall>a \<in> operands x. live set_tag S a"
  shows "empty_expr e S x \<longleftrightarrow> den x = {}"
proof -
  obtain a S1 where ex: "eval e S x = (a, S1)" by (metis prod.exhaust)
  note dx = postD[OF eval_post[OF assms ex]]
  show ?thesis using ex dx(4) by (auto simp: empty_expr_def empty_def)
qed

section \<open>The shape of a treap\<close>

text \<open>
  I1: the elements are ascending in the order of the keys. I2: a node comes before
  its children in the order of the priorities, a tie broken by the keys.
\<close>

definition ascending :: "('k::linorder, 'm) node_ptr \<Rightarrow> bool" where
  "ascending n = sorted_wrt (\<lambda>v w. val_key v < val_key w) (inorder n)"

definition heap_child :: "('k::linorder, 'm) node_ptr \<Rightarrow> ('k, 'm) node_ptr \<Rightarrow> bool" where
  "heap_child p ch =
     (ch = Null \<or> priority p < priority ch \<or> (priority p = priority ch \<and> key p < key ch))"

definition heap_ordered :: "('k::linorder, 'm) node_ptr \<Rightarrow> bool" where
  "heap_ordered n =
     list_all (\<lambda>p. heap_child p (left' p) \<and> heap_child p (right' p)) (subtrees n)"

section \<open>A concrete run\<close>

text \<open>
  Keys and mapped values are natural numbers hashed by their value, as \<open>std::hash\<close>
  does for integers. The run inserts 1 into an empty set, 2 into the result, 1 into
  another empty set, and assigns 10 to the key 1 of an empty map.
\<close>

definition ex_env :: "(nat, nat) env" where
  "ex_env = \<lparr>key_hash = word_of_nat, mapped_hash = word_of_nat\<rparr>"

definition ex_a :: "(nat, nat) node_ptr" where
  "ex_a = fst (snd (insert_value ex_env new_providers Null (KeyV 1)))"

definition ex_S1 :: "(nat, nat) providers" where
  "ex_S1 = snd (snd (insert_value ex_env new_providers Null (KeyV 1)))"

definition ex_b :: "(nat, nat) node_ptr" where
  "ex_b = fst (snd (insert_value ex_env ex_S1 ex_a (KeyV 2)))"

definition ex_S2 :: "(nat, nat) providers" where
  "ex_S2 = snd (snd (insert_value ex_env ex_S1 ex_a (KeyV 2)))"

definition ex_c :: "(nat, nat) node_ptr" where
  "ex_c = fst (snd (insert_value ex_env ex_S2 Null (KeyV 1)))"

definition ex_S3 :: "(nat, nat) providers" where
  "ex_S3 = snd (snd (insert_value ex_env ex_S2 Null (KeyV 1)))"

definition ex_m :: "(nat, nat) node_ptr" where
  "ex_m = fst (snd (insert_or_assign ex_env ex_S3 Null (PairV 1 10)))"

definition ex_S4 :: "(nat, nat) providers" where
  "ex_S4 = snd (snd (insert_or_assign ex_env ex_S3 Null (PairV 1 10)))"

definition ex_store :: "(nat, nat) store" where
  "ex_store = (\<lambda>i. \<lparr>provider' = i, node' = (if i = 0 then ex_a else Null)\<rparr>)"

section \<open>The concrete run is reachable\<close>

lemma ex_reach: "reach ex_env ex_S4 {ex_c, ex_b, ex_a, Null} {ex_m, Null}"
proof -
  have 1: "reach ex_env ex_S1 {ex_a, Null} {Null}"
    by (rule reach.set_insert[OF reach.init, of Null _ 1 "fst (insert_value ex_env new_providers Null (KeyV 1))"])
      (simp_all add: ex_a_def ex_S1_def)
  have 2: "reach ex_env ex_S2 {ex_b, ex_a, Null} {Null}"
    by (rule reach.set_insert[OF 1, of ex_a 2 "fst (insert_value ex_env ex_S1 ex_a (KeyV 2))"])
      (simp_all add: ex_b_def ex_S2_def)
  have 3: "reach ex_env ex_S3 {ex_c, ex_b, ex_a, Null} {Null}"
    by (rule reach.set_insert[OF 2, of Null 1 "fst (insert_value ex_env ex_S2 Null (KeyV 1))"])
      (simp_all add: ex_c_def ex_S3_def)
  show ?thesis
    by (rule reach.map_insert_or_assign[OF 3, of Null 1 10
          "fst (insert_or_assign ex_env ex_S3 Null (PairV 1 10))"])
      (simp_all add: ex_m_def ex_S4_def)
qed

lemma ex_vals:
  "vals ex_a = {KeyV 1}" "vals ex_b = {KeyV 1, KeyV 2}" "vals ex_c = {KeyV 1}"
  "vals ex_m = {PairV 1 10}"
  by code_simp+

section \<open>Canonical form\<close>

text \<open>
  C1. Two sets, or two maps, of a reachable state of one provider have the same
  multiset of elements if and only if their roots are the same pointer, which is
  what \<open>operator==\<close> compares.
\<close>

theorem canonical_form:
  assumes "reach e S A M" and "a \<in> A \<and> b \<in> A \<or> a \<in> M \<and> b \<in> M"
  shows "ptr_eq a b \<longleftrightarrow> (\<forall>v. count_list (inorder a) v = count_list (inorder b) v)"
proof -
  note g = gsD[OF reach_good[OF assms(1)]]
  from assms(2) g(2,3) obtain c where l: "live c S a" "live c S b" by blast
  have "(\<forall>v. count_list (inorder a) v = count_list (inorder b) v) \<longleftrightarrow> vals a = vals b"
  proof
    assume h: "\<forall>v. count_list (inorder a) v = count_list (inorder b) v"
    have "v \<in> set (inorder a) \<longleftrightarrow> v \<in> set (inorder b)" for v
      using h count_list_0_iff[of "inorder a" v] count_list_0_iff[of "inorder b" v] by simp
    then show "vals a = vals b" unfolding set_inorder[symmetric] by blast
  next
    assume "vals a = vals b"
    then have "a = b" by (rule canonical[OF g(1) l])
    then show "\<forall>v. count_list (inorder a) v = count_list (inorder b) v" by simp
  qed
  with canonical_ptr[OF g(1) l] show ?thesis by simp
qed

theorem canonical_form_witness:
  "reach ex_env ex_S4 {ex_c, ex_b, ex_a, Null} {ex_m, Null} \<and>
   ex_a \<in> {ex_c, ex_b, ex_a, Null} \<and> ex_c \<in> {ex_c, ex_b, ex_a, Null} \<and>
   inorder ex_a = [KeyV 1] \<and> inorder ex_c = [KeyV 1] \<and> ptr_eq ex_a ex_c"
proof -
  have i: "inorder ex_a = [KeyV 1]" "inorder ex_c = [KeyV 1]" by code_simp+
  have "ptr_eq ex_a ex_c"
    using canonical_form[OF ex_reach, of ex_a ex_c] by (simp add: i)
  with ex_reach i show ?thesis by simp
qed

section \<open>Merge laws\<close>

text \<open>
  C2. For sets \<open>a\<close>, \<open>b\<close>, \<open>c\<close> of one provider: \<open>a | a == a\<close>, \<open>a & a == a\<close>, \<open>a - a\<close> and
  \<open>a ^ a\<close> are empty; \<open>|\<close>, \<open>&\<close> and \<open>^\<close> are commutative and associative;
  \<open>a & (b | c) == (a & b) | (a & c)\<close>; and \<open>a - (b | c) == (a - b) & (a - c)\<close>.
\<close>

theorem merge_laws:
  assumes "reach e S A M" and "a \<in> A" and "b \<in> A" and "c \<in> A"
  shows "equal_exprs e S (Or_op (Operand a) (Operand a)) (Operand a) \<and>
    equal_exprs e S (And_op (Operand a) (Operand a)) (Operand a) \<and>
    empty_expr e S (Minus_op (Operand a) (Operand a)) \<and>
    empty_expr e S (Xor_op (Operand a) (Operand a)) \<and>
    equal_exprs e S (Or_op (Operand a) (Operand b)) (Or_op (Operand b) (Operand a)) \<and>
    equal_exprs e S (And_op (Operand a) (Operand b)) (And_op (Operand b) (Operand a)) \<and>
    equal_exprs e S (Xor_op (Operand a) (Operand b)) (Xor_op (Operand b) (Operand a)) \<and>
    equal_exprs e S (Or_op (Or_op (Operand a) (Operand b)) (Operand c))
      (Or_op (Operand a) (Or_op (Operand b) (Operand c))) \<and>
    equal_exprs e S (And_op (And_op (Operand a) (Operand b)) (Operand c))
      (And_op (Operand a) (And_op (Operand b) (Operand c))) \<and>
    equal_exprs e S (Xor_op (Xor_op (Operand a) (Operand b)) (Operand c))
      (Xor_op (Operand a) (Xor_op (Operand b) (Operand c))) \<and>
    equal_exprs e S (And_op (Operand a) (Or_op (Operand b) (Operand c)))
      (Or_op (And_op (Operand a) (Operand b)) (And_op (Operand a) (Operand c))) \<and>
    equal_exprs e S (Minus_op (Operand a) (Or_op (Operand b) (Operand c)))
      (And_op (Minus_op (Operand a) (Operand b)) (Minus_op (Operand a) (Operand c)))"
proof -
  note g = gsD[OF reach_good[OF assms(1)]]
  have l: "live set_tag S a" "live set_tag S b" "live set_tag S c"
    using g(2) assms(2,3,4) by simp_all
  have E: "equal_exprs e S x y \<longleftrightarrow> den x = den y"
    if "operands x \<union> operands y \<subseteq> {a, b, c}" for x y
    by (rule equal_exprs_iff[OF g(1)]) (use that l in auto)
  have Z: "empty_expr e S x \<longleftrightarrow> den x = {}" if "operands x \<subseteq> {a, b, c}" for x
    by (rule empty_expr_iff[OF g(1)]) (use that l in auto)
  have 1: "equal_exprs e S (Or_op (Operand a) (Operand a)) (Operand a)"
    by (subst E) auto
  have 2: "equal_exprs e S (And_op (Operand a) (Operand a)) (Operand a)"
    by (subst E) auto
  have 3: "empty_expr e S (Minus_op (Operand a) (Operand a))"
    by (subst Z) auto
  have 4: "empty_expr e S (Xor_op (Operand a) (Operand a))"
    by (subst Z) auto
  have 5: "equal_exprs e S (Or_op (Operand a) (Operand b)) (Or_op (Operand b) (Operand a))"
    by (subst E) auto
  have 6: "equal_exprs e S (And_op (Operand a) (Operand b)) (And_op (Operand b) (Operand a))"
    by (subst E) auto
  have 7: "equal_exprs e S (Xor_op (Operand a) (Operand b)) (Xor_op (Operand b) (Operand a))"
    by (subst E) auto
  have 8: "equal_exprs e S (Or_op (Or_op (Operand a) (Operand b)) (Operand c))
      (Or_op (Operand a) (Or_op (Operand b) (Operand c)))"
    by (subst E) auto
  have 9: "equal_exprs e S (And_op (And_op (Operand a) (Operand b)) (Operand c))
      (And_op (Operand a) (And_op (Operand b) (Operand c)))"
    by (subst E) auto
  have 10: "equal_exprs e S (Xor_op (Xor_op (Operand a) (Operand b)) (Operand c))
      (Xor_op (Operand a) (Xor_op (Operand b) (Operand c)))"
    by (subst E) auto
  have 11: "equal_exprs e S (And_op (Operand a) (Or_op (Operand b) (Operand c)))
      (Or_op (And_op (Operand a) (Operand b)) (And_op (Operand a) (Operand c)))"
    by (subst E) auto
  have 12: "equal_exprs e S (Minus_op (Operand a) (Or_op (Operand b) (Operand c)))
      (And_op (Minus_op (Operand a) (Operand b)) (Minus_op (Operand a) (Operand c)))"
    by (subst E) auto
  from 1 2 3 4 5 6 7 8 9 10 11 12 show ?thesis by (intro conjI)
qed

theorem merge_laws_witness:
  "reach ex_env ex_S4 {ex_c, ex_b, ex_a, Null} {ex_m, Null} \<and>
   ex_a \<in> {ex_c, ex_b, ex_a, Null} \<and> ex_b \<in> {ex_c, ex_b, ex_a, Null} \<and>
   Null \<in> {ex_c, ex_b, ex_a, Null} \<and>
   equal_exprs ex_env ex_S4 (Or_op (Operand ex_a) (Operand ex_b))
     (Or_op (Operand ex_b) (Operand ex_a)) \<and>
   equal_exprs ex_env ex_S4 (Minus_op (Operand ex_a) (Or_op (Operand ex_b) (Operand Null)))
     (And_op (Minus_op (Operand ex_a) (Operand ex_b)) (Minus_op (Operand ex_a) (Operand Null)))"
  using merge_laws[OF ex_reach, of ex_a ex_b Null] ex_reach by simp

section \<open>Inclusion\<close>

text \<open>
  C3. \<open>a.includes(b)\<close> is true if and only if \<open>(b - a).size() == 0\<close>, that is, if and
  only if every element of \<open>b\<close> is in \<open>a\<close>; and when \<open>a\<close> is smaller than \<open>b\<close> it is false
  at once, no node having been visited or created.
\<close>

theorem includes_subset:
  assumes "reach e S A M" and "a \<in> A" and "b \<in> A"
    and "includes' rank e S a b = (r, S1)"
    and "set_difference rank e S1 b a = (d, S2)"
  shows "(r \<longleftrightarrow> node_size d = 0) \<and> (r \<longleftrightarrow> vals b \<subseteq> vals a) \<and>
         (node_size a < node_size b \<longrightarrow> \<not> r \<and> S1 = S)"
proof -
  note g = gsD[OF reach_good[OF assms(1)]]
  note la = g(2)[OF assms(2)] and lb = g(2)[OF assms(3)]
  have i: "invar e S1" "ext S S1" "r \<longleftrightarrow> vals b \<subseteq> vals a"
    using includes_post[where c = set_tag, OF g(1) la lb _ assms(4)] by simp_all
  have "post e set_tag S1 S2 d (vals b - vals a)"
    by (rule set_difference_post[OF i(1) live_ext[OF lb i(2)] live_ext[OF la i(2)] _ assms(5)])
      simp
  note dd = postD[OF this]
  have "node_size d = 0 \<longleftrightarrow> keys d = {}"
    using live_size_card[OF dd(1,3)] by simp
  also have "\<dots> \<longleftrightarrow> vals d = {}" by simp
  also have "\<dots> \<longleftrightarrow> vals b \<subseteq> vals a" unfolding dd(4) by blast
  finally have s: "node_size d = 0 \<longleftrightarrow> vals b \<subseteq> vals a" .
  have "\<not> r \<and> S1 = S" if "node_size a < node_size b"
  proof -
    from that have "b \<noteq> Null" "a \<noteq> b" by auto
    with that assms(4) show ?thesis by (subst (asm) includes'.simps) simp
  qed
  with s i(3) show ?thesis by simp
qed

theorem includes_subset_witness:
  "reach ex_env ex_S4 {ex_c, ex_b, ex_a, Null} {ex_m, Null} \<and>
   ex_a \<in> {ex_c, ex_b, ex_a, Null} \<and> ex_b \<in> {ex_c, ex_b, ex_a, Null} \<and>
   node_size ex_a < node_size ex_b \<and>
   \<not> fst (includes' rank ex_env ex_S4 ex_a ex_b) \<and>
   snd (includes' rank ex_env ex_S4 ex_a ex_b) = ex_S4 \<and>
   node_size (fst (set_difference rank ex_env ex_S4 ex_b ex_a)) \<noteq> 0"
proof -
  have n: "node_size ex_a < node_size ex_b" by code_simp
  obtain r S1 where i: "includes' rank ex_env ex_S4 ex_a ex_b = (r, S1)" by (metis prod.exhaust)
  obtain d S2 where s: "set_difference rank ex_env S1 ex_b ex_a = (d, S2)"
    by (metis prod.exhaust)
  from includes_subset[OF ex_reach _ _ i s] n have r: "\<not> r" "S1 = ex_S4" "node_size d \<noteq> 0"
    by auto
  with ex_reach n i s show ?thesis by simp
qed

section \<open>Treap shape\<close>

text \<open>
  C4. After every public operation, every tree of a container is ascending in the
  order of the keys (I1), and each of its nodes has a priority at most that of either
  child, a tie broken by the keys (I2); the priority is the mixed hash of the key.
\<close>

theorem treap_shape:
  assumes "reach e S A M" and "n \<in> A \<union> M"
  shows "ascending n \<and> heap_ordered n \<and>
         list_all (\<lambda>p. priority p = intmix (key_hash e (key p))) (subtrees n)"
proof -
  note g = gsD[OF reach_good[OF assms(1)]]
  from assms(2) g(2,3) obtain c where l: "live c S n" by blast
  have hc: "heap_child p ch"
    if p: "live c S p" "p \<noteq> Null" and ch: "ch = left' p \<or> ch = right' p" for p ch
  proof (cases "ch = Null")
    case True
    then show ?thesis by (simp add: heap_child_def)
  next
    case False
    note P = live_nodeD[OF g(1) p]
    from ch P(6,7) have lc: "live c S ch" by auto
    have "key ch \<in> keys (left' p) \<union> keys (right' p)" using ch False by auto
    then have "before e (key p) (key ch)" using P(5) by blast
    then show ?thesis
      using live_priority[OF g(1) p] live_priority[OF g(1) lc False]
      by (simp add: heap_child_def before_def)
  qed
  have "heap_child p (left' p) \<and> heap_child p (right' p) \<and>
        priority p = intmix (key_hash e (key p))" if "p \<in> set (subtrees n)" for p
  proof -
    from subtrees_live[OF g(1) l that] have p: "live c S p" "p \<noteq> Null" by simp_all
    show ?thesis using hc[OF p] live_priority[OF g(1) p] by (simp add: prio_def)
  qed
  then show ?thesis
    using live_sorted[OF g(1) l] by (simp add: ascending_def heap_ordered_def list_all_iff)
qed

theorem treap_shape_witness:
  "reach ex_env ex_S4 {ex_c, ex_b, ex_a, Null} {ex_m, Null} \<and>
   ex_b \<in> {ex_c, ex_b, ex_a, Null} \<union> {ex_m, Null} \<and>
   inorder ex_b = [KeyV 1, KeyV 2] \<and> ascending ex_b \<and> heap_ordered ex_b"
proof -
  have "inorder ex_b = [KeyV 1, KeyV 2]" by code_simp
  with treap_shape[OF ex_reach, of ex_b] ex_reach show ?thesis by simp
qed

section \<open>Lookup in a map\<close>

text \<open>
  C5. If the map has an element with the key \<open>k\<close>, \<open>at\<close> returns its mapped value;
  otherwise it fails with \<open>KeyNotFound\<close>, which no present result equals. The map is
  not touched: \<open>at\<close> only reads the root.
\<close>

theorem at_found_or_error:
  assumes "reach e S A M" and "m \<in> M"
  shows "(PairV k v \<in> vals m \<longrightarrow> at m k = Inr v) \<and>
         ((\<forall>w. PairV k w \<notin> vals m) \<longrightarrow> at m k = Inl KeyNotFound)"
proof -
  note g = gsD[OF reach_good[OF assms(1)]]
  show ?thesis using at_spec[OF g(1) g(3)[OF assms(2)], of k] by blast
qed

theorem at_found_or_error_witness:
  "reach ex_env ex_S4 {ex_c, ex_b, ex_a, Null} {ex_m, Null} \<and> ex_m \<in> {ex_m, Null} \<and>
   PairV 1 10 \<in> vals ex_m \<and> at ex_m 1 = Inr 10 \<and>
   (\<forall>w. PairV 2 w \<notin> vals ex_m) \<and> at ex_m 2 = Inl KeyNotFound"
proof -
  have "PairV 1 10 \<in> vals ex_m" "\<forall>w. PairV 2 w \<notin> vals ex_m" by (simp_all add: ex_vals)
  with at_found_or_error[OF ex_reach, of ex_m 1 10] at_found_or_error[OF ex_reach, of ex_m 2]
    ex_reach
  show ?thesis by simp
qed

section \<open>Element operations of a set\<close>

text \<open>
  C6. \<open>insert(v)\<close> returns 1 and adds \<open>v\<close> when \<open>v\<close> was absent, else returns 0 and
  leaves the set as it was; \<open>erase(k)\<close> returns 1 and removes the element when it was
  present, else returns 0 and leaves the set as it was; \<open>insert\<close> of a range or of
  another set returns the number of elements added; \<open>clear()\<close> leaves the set empty.
\<close>

theorem set_element_ops:
  assumes "reach e S A M" and "s \<in> A" and "t \<in> A"
  shows "(insert_value e S s (KeyV v) = (c1, n1, S1) \<longrightarrow>
            (if KeyV v \<in> vals s then c1 = 0 \<and> n1 = s
             else c1 = 1 \<and> vals n1 = insert (KeyV v) (vals s))) \<and>
         (erase_key e S s (KeyV k) = (c2, n2, S2) \<longrightarrow>
            (if KeyV k \<in> vals s then c2 = 1 \<and> vals n2 = vals s - {KeyV k}
             else c2 = 0 \<and> n2 = s)) \<and>
         (insert_range e S s (map KeyV xs) = (c3, n3, S3) \<longrightarrow>
            c3 = word_of_nat (card (keys n3 - keys s)) \<and> vals s \<subseteq> vals n3 \<and>
            vals n3 \<subseteq> vals s \<union> KeyV ` set xs \<and>
            (length xs < 2 ^ 64 \<longrightarrow> vals n3 = vals s \<union> KeyV ` set xs)) \<and>
         (add e S s t = (c4, n4, S4) \<longrightarrow>
            c4 = word_of_nat (card (keys t - keys s)) \<and> vals n4 = vals s \<union> vals t) \<and>
         empty (clear s) \<and> vals (clear s) = {}"
proof -
  note g = gsD[OF reach_good[OF assms(1)]]
  note ls = g(2)[OF assms(2)] and lt = g(2)[OF assms(3)]
  note vs = set_vals_keys[OF g(1) ls]
  have ins: "insert_value e S s (KeyV v) = (c1, n1, S1) \<longrightarrow>
      (if KeyV v \<in> vals s then c1 = 0 \<and> n1 = s
             else c1 = 1 \<and> vals n1 = insert (KeyV v) (vals s))"
  proof (rule impI)
    assume h: "insert_value e S s (KeyV v) = (c1, n1, S1)"
    show "if KeyV v \<in> vals s then c1 = 0 \<and> n1 = s
             else c1 = 1 \<and> vals n1 = insert (KeyV v) (vals s)"
    proof -
    note p = insert_value_post[where v = "KeyV v", simplified, OF g(1) ls h]
    note d = postD[OF p(1)]
    note ls1 = live_ext[OF ls d(2)]
    show ?thesis
    proof (cases "KeyV v \<in> vals s")
      case True
      then have "v \<in> keys s" using val_key_in_keys[of "KeyV v" s] by simp
      then have "vals n1 = vals s" using d(4) by auto
      then have "n1 = s" by (rule canonical[OF d(1,3) ls1])
      then show ?thesis using True p(2) by (simp add: size_diff_def)
    next
      case False
      then have nk: "v \<notin> keys s" unfolding vs by auto
      then have vn: "vals n1 = insert (KeyV v) (vals s)" using d(4) by auto
      then have kn1: "keys n1 = insert v (keys s)" unfolding keys_vals[of n1] keys_vals[of s] by simp
      then have "keys n1 - keys s = {v}" using nk by auto
      moreover have "keys s \<subseteq> keys n1" using kn1 by auto
      ultimately have "c1 = 1" using size_diff_card[OF d(1) ls1 d(3)] p(2) by simp
      with False vn show ?thesis by simp
    qed
    qed
  qed
  have ers: "erase_key e S s (KeyV k) = (c2, n2, S2) \<longrightarrow>
      (if KeyV k \<in> vals s then c2 = 1 \<and> vals n2 = vals s - {KeyV k}
             else c2 = 0 \<and> n2 = s)"
  proof (rule impI)
    assume h: "erase_key e S s (KeyV k) = (c2, n2, S2)"
    show "if KeyV k \<in> vals s then c2 = 1 \<and> vals n2 = vals s - {KeyV k}
             else c2 = 0 \<and> n2 = s"
    proof -
    note p = erase_key_post[OF g(1) ls h]
    note d = postD[OF p(1)]
    note ls2 = live_ext[OF ls d(2)]
    have "{w \<in> vals s. \<not> equal_val w (KeyV k)} = vals s - {KeyV k}"
      unfolding vs by auto
    with d(4) have vn: "vals n2 = vals s - {KeyV k}" by simp
    show ?thesis
    proof (cases "KeyV k \<in> vals s")
      case True
      then have ks: "k \<in> keys s" using val_key_in_keys[of "KeyV k" s] by simp
      have kv: "w = KeyV (val_key w)" if "w \<in> vals s" for w
        using live_vals_cat[OF g(1) ls that] by (cases w) auto
      have kn: "keys n2 = keys s - {k}"
      proof (intro set_eqI iffI)
        fix x assume "x \<in> keys n2"
        then obtain w where w: "w \<in> vals s" "w \<noteq> KeyV k" "x = val_key w"
          unfolding keys_vals[of n2] vn by blast
        from kv[OF w(1)] w(2,3) have "x \<noteq> k" by auto
        then show "x \<in> keys s - {k}" using val_key_in_keys[OF w(1)] w(3) by simp
      next
        fix x assume x: "x \<in> keys s - {k}"
        then obtain w where w: "w \<in> vals s" "val_key w = x"
          unfolding keys_vals[of s] by blast
        with x have "w \<noteq> KeyV k" by auto
        with w show "x \<in> keys n2" unfolding keys_vals[of n2] vn by blast
      qed
      then have "keys s - keys n2 = {k}" using ks by auto
      moreover have "keys n2 \<subseteq> keys s" using kn by auto
      ultimately have "c2 = 1" using size_diff_card[OF d(1,3) ls2] p(2) by simp
      with True vn show ?thesis by simp
    next
      case False
      with vn have "vals n2 = vals s" by auto
      then have "n2 = s" by (rule canonical[OF d(1,3) ls2])
      then show ?thesis using False p(2) by (simp add: size_diff_def)
    qed
    qed
  qed
  have rng: "insert_range e S s (map KeyV xs) = (c3, n3, S3) \<longrightarrow>
      (c3 = word_of_nat (card (keys n3 - keys s)) \<and> vals s \<subseteq> vals n3 \<and>
            vals n3 \<subseteq> vals s \<union> KeyV ` set xs \<and>
            (length xs < 2 ^ 64 \<longrightarrow> vals n3 = vals s \<union> KeyV ` set xs))"
  proof (rule impI)
    assume h: "insert_range e S s (map KeyV xs) = (c3, n3, S3)"
    show "c3 = word_of_nat (card (keys n3 - keys s)) \<and> vals s \<subseteq> vals n3 \<and>
            vals n3 \<subseteq> vals s \<union> KeyV ` set xs \<and>
            (length xs < 2 ^ 64 \<longrightarrow> vals n3 = vals s \<union> KeyV ` set xs)"
    proof -
    note p = insert_range_post[OF g(1) ls cat_keys h]
    note d = postD[OF p(1)]
    note ls3 = live_ext[OF ls d(2)]
    have "keys s \<subseteq> keys n3" using p(4) by (rule keys_mono)
    then have c: "c3 = word_of_nat (card (keys n3 - keys s))"
      using size_diff_card[OF d(1) ls3 d(3)] p(2) by simp
    have "vals n3 = vals s \<union> KeyV ` set xs" if "length xs < 2 ^ 64"
    proof -
      from p(3) that have "keys n3 = keys s \<union> set xs" by (simp add: image_image)
      then show ?thesis
        unfolding set_vals_keys[OF d(1,3)] vs by auto
    qed
    with c p(4,5) show ?thesis by simp
    qed
  qed
  have ad: "add e S s t = (c4, n4, S4) \<longrightarrow>
      (c4 = word_of_nat (card (keys t - keys s)) \<and> vals n4 = vals s \<union> vals t)"
  proof (rule impI)
    assume h: "add e S s t = (c4, n4, S4)"
    show "c4 = word_of_nat (card (keys t - keys s)) \<and> vals n4 = vals s \<union> vals t"
    proof -
    note p = add_post[OF g(1) ls lt h]
    note d = postD[OF p(1)]
    note ls4 = live_ext[OF ls d(2)]
    have vn: "vals n4 = vals s \<union> vals t" using d(4) set_union_vals[OF g(1) ls lt] by simp
    then have kn: "keys n4 = keys s \<union> keys t"
      unfolding keys_vals[of n4] keys_vals[of s] keys_vals[of t] by (simp add: image_Un)
    then have "keys n4 - keys s = keys t - keys s" by auto
    moreover have "keys s \<subseteq> keys n4" using kn by auto
    ultimately have "c4 = word_of_nat (card (keys t - keys s))"
      using size_diff_card[OF d(1) ls4 d(3)] p(2) by simp
    with vn show ?thesis by simp
    qed
  qed
  have cl: "empty (clear s)" "vals (clear s) = {}" by (simp_all add: empty_def clear_def)
  from ins ers rng ad cl show ?thesis by (intro conjI)
qed

theorem set_element_ops_witness:
  "reach ex_env ex_S4 {ex_c, ex_b, ex_a, Null} {ex_m, Null} \<and>
   ex_a \<in> {ex_c, ex_b, ex_a, Null} \<and> ex_b \<in> {ex_c, ex_b, ex_a, Null} \<and>
   KeyV 1 \<in> vals ex_a \<and>
   fst (insert_value ex_env ex_S4 ex_a (KeyV 1)) = 0 \<and>
   fst (snd (insert_value ex_env ex_S4 ex_a (KeyV 1))) = ex_a \<and>
   fst (erase_key ex_env ex_S4 ex_a (KeyV 1)) = 1 \<and>
   vals (fst (snd (erase_key ex_env ex_S4 ex_a (KeyV 1)))) = {} \<and>
   fst (add ex_env ex_S4 ex_a ex_b) = 1"
proof -
  obtain c1 n1 S1 where 1: "insert_value ex_env ex_S4 ex_a (KeyV 1) = (c1, n1, S1)"
    by (metis prod_cases3)
  obtain c2 n2 S2 where 2: "erase_key ex_env ex_S4 ex_a (KeyV 1) = (c2, n2, S2)"
    by (metis prod_cases3)
  obtain c4 n4 S4 where 4: "add ex_env ex_S4 ex_a ex_b = (c4, n4, S4)"
    by (metis prod_cases3)
  have k: "keys ex_a = {1}" "keys ex_b = {1, 2}" by (simp_all add: keys_vals ex_vals)
  from set_element_ops[OF ex_reach, of ex_a ex_b 1 c1 n1 S1 1 c2 n2 S2 "[]" 0 ex_a ex_S4
      c4 n4 S4] 1 2 4
  have "c1 = 0" "n1 = ex_a" "c2 = 1" "vals n2 = {}" "c4 = 1"
    by (simp_all add: ex_vals k)
  with 1 2 4 ex_reach show ?thesis by (simp add: ex_vals)
qed

section \<open>Insert or assign\<close>

text \<open>
  C7. \<open>insert_or_assign((k, v))\<close> makes the map contain \<open>(k, v)\<close> in place of any
  element with the key \<open>k\<close>, and returns true exactly when the map changed, that is,
  when it did not already contain \<open>(k, v)\<close>.
\<close>

theorem insert_or_assign_changed:
  assumes "reach e S A M" and "m \<in> M"
    and "insert_or_assign e S m (PairV k v) = (chg, n, S')"
  shows "vals n = insert (PairV k v) {w \<in> vals m. val_key w \<noteq> k} \<and>
         (chg \<longleftrightarrow> PairV k v \<notin> vals m) \<and> (\<not> chg \<longrightarrow> n = m)"
proof -
  note g = gsD[OF reach_good[OF assms(1)]]
  note lm = g(3)[OF assms(2)]
  note p = insert_or_assign_post[where v = "PairV k v", simplified, OF g(1) lm assms(3)]
  note d = postD[OF p(1)]
  note lm' = live_ext[OF lm d(2)]
  have "n = m \<longleftrightarrow> vals n = vals m" using canonical[OF d(1,3) lm'] by auto
  also have "\<dots> \<longleftrightarrow> PairV k v \<in> vals m"
  proof
    assume "vals n = vals m"
    with d(4) show "PairV k v \<in> vals m" by auto
  next
    assume in_m: "PairV k v \<in> vals m"
    have u: "w = PairV k v" if "w \<in> vals m" "val_key w = k" for w
      by (rule vals_key_unique[OF g(1) lm that(1) in_m]) (simp add: that(2))
    show "vals n = vals m" unfolding d(4)
    proof (intro set_eqI iffI)
      fix w assume "w \<in> insert (PairV k v) {w \<in> vals m. val_key w \<noteq> k}"
      then show "w \<in> vals m" using in_m by blast
    next
      fix w assume w: "w \<in> vals m"
      show "w \<in> insert (PairV k v) {w \<in> vals m. val_key w \<noteq> k}"
      proof (cases "val_key w = k")
        case True
        then show ?thesis using u[OF w] by simp
      next
        case False
        then show ?thesis using w by simp
      qed
    qed
  qed
  finally show ?thesis using p(2) d(4) by simp
qed

theorem insert_or_assign_changed_witness:
  "reach ex_env ex_S4 {ex_c, ex_b, ex_a, Null} {ex_m, Null} \<and> ex_m \<in> {ex_m, Null} \<and>
   PairV 1 10 \<in> vals ex_m \<and>
   \<not> fst (insert_or_assign ex_env ex_S4 ex_m (PairV 1 10)) \<and>
   fst (insert_or_assign ex_env ex_S4 ex_m (PairV 1 11)) \<and>
   vals (fst (snd (insert_or_assign ex_env ex_S4 ex_m (PairV 1 11)))) = {PairV 1 11}"
proof -
  have m: "ex_m \<in> {ex_m, Null}" by simp
  obtain c1 n1 S1 where 1: "insert_or_assign ex_env ex_S4 ex_m (PairV 1 10) = (c1, n1, S1)"
    by (metis prod_cases3)
  obtain c2 n2 S2 where 2: "insert_or_assign ex_env ex_S4 ex_m (PairV 1 11) = (c2, n2, S2)"
    by (metis prod_cases3)
  have in10: "PairV 1 10 \<in> vals ex_m" and nin11: "PairV 1 11 \<notin> vals ex_m"
    unfolding ex_vals(4) by simp_all
  have c1: "\<not> c1" using insert_or_assign_changed[OF ex_reach m 1] in10 by blast
  have c2: "c2" using insert_or_assign_changed[OF ex_reach m 2] nin11 by blast
  have "vals n2 = insert (PairV 1 11) {w \<in> vals ex_m. val_key w \<noteq> 1}"
    using insert_or_assign_changed[OF ex_reach m 2] by blast
  also have "\<dots> = {PairV 1 11}" unfolding ex_vals(4) by auto
  finally have v2: "vals n2 = {PairV 1 11}" .
  have r: "fst (insert_or_assign ex_env ex_S4 ex_m (PairV 1 10)) = c1"
    "fst (insert_or_assign ex_env ex_S4 ex_m (PairV 1 11)) = c2"
    "fst (snd (insert_or_assign ex_env ex_S4 ex_m (PairV 1 11))) = n2"
    unfolding 1 2 by simp_all
  show ?thesis unfolding r using ex_reach m in10 c1 c2 v2 by (intro conjI)
qed

section \<open>The key set of a map\<close>

text \<open>
  C8. \<open>key_set()\<close> returns a set of the linked set provider whose elements are the
  keys of the map, in the same order; its root is the key node of the root of the
  map, and each of its nodes is the key node of the node of the map at the same
  place, so that no node is created; a set with these keys is this very set.
\<close>

theorem key_set_shares:
  assumes "reach e S A M" and "m \<in> M"
  shows "reach e S (insert (key_set m) A) M \<and>
         inorder (key_set m) = map (\<lambda>v. KeyV (val_key v)) (inorder m) \<and>
         subtrees (key_set m) = map key_node (subtrees m) \<and>
         (\<forall>a \<in> A. vals a = KeyV ` keys m \<longrightarrow> ptr_eq a (key_set m)) \<and>
         (if m = Null then key_set m = Null else key_set m = key_node m)"
proof -
  note g = gsD[OF reach_good[OF assms(1)]]
  note lm = g(3)[OF assms(2)]
  note t = key_node_trees[OF g(1) lm]
  have lk: "live set_tag S (key_set m)" by (rule live_key_set[OF g(1) lm])
  have vk: "vals (key_set m) = KeyV ` keys m"
    using set_vals_keys[OF g(1) lk] keys_key_node[OF g(1) lm] by simp
  have "ptr_eq a (key_set m)" if "a \<in> A" "vals a = KeyV ` keys m" for a
    using canonical_ptr[OF g(1) g(2)[OF that(1)] lk] that(2) vk by simp
  moreover have "reach e S (insert (key_set m) A) M"
    using assms by (rule reach.map_key_set)
  ultimately show ?thesis using t by simp
qed

theorem key_set_shares_witness:
  "reach ex_env ex_S4 {ex_c, ex_b, ex_a, Null} {ex_m, Null} \<and> ex_m \<in> {ex_m, Null} \<and>
   vals ex_a = KeyV ` keys ex_m \<and> inorder (key_set ex_m) = [KeyV 1] \<and>
   ptr_eq ex_a (key_set ex_m)"
proof -
  have v: "vals ex_a = KeyV ` keys ex_m" by (simp add: keys_vals ex_vals)
  have i: "inorder ex_m = [PairV 1 10]" by code_simp
  from key_set_shares[OF ex_reach, of ex_m] v i ex_reach show ?thesis by simp
qed

section \<open>The structural hash\<close>

text \<open>
  C9. \<open>hash()\<close> of a set is 0 when the set is empty and the hash of the root
  otherwise; the hash of a node combines the hashes of the two children and the
  priority, where combining \<open>h1\<close> and \<open>h2\<close> gives
  \<open>h1 XOR (h2 + 0x9e3779b9 + (h1 << 6) + (h1 >> 2))\<close> in 64-bit arithmetic, three
  inputs are combined from the left, and an absent child has the hash 0.
\<close>

theorem hash_structure:
  assumes "reach e S A M" and "a \<in> A"
  shows "(if empty a then hash a = 0 else hash a = hash' a) \<and>
         list_all (\<lambda>n. hash' n =
            (let h1 = hash (left' n); h2 = hash (right' n);
                 h12 = h1 XOR (h2 + 0x9e3779b9 + push_bit 6 h1 + drop_bit 2 h1)
             in h12 XOR (priority n + 0x9e3779b9 + push_bit 6 h12 + drop_bit 2 h12)))
           (subtrees a) \<and>
         hash Null = 0"
proof -
  note g = gsD[OF reach_good[OF assms(1)]]
  note la = g(2)[OF assms(2)]
  have "hash' n = (let h1 = hash (left' n); h2 = hash (right' n);
                 h12 = h1 XOR (h2 + 0x9e3779b9 + push_bit 6 h1 + drop_bit 2 h1)
             in h12 XOR (priority n + 0x9e3779b9 + push_bit 6 h12 + drop_bit 2 h12))"
    if "n \<in> set (subtrees a)" for n
  proof -
    from subtrees_live[OF g(1) la that] have n: "live set_tag S n" "n \<noteq> Null" by simp_all
    from live_good[OF g(1) n] show ?thesis
      by (cases n) (auto simp: good_def hash_combine3_def hash_combine_def Let_def)
  qed
  moreover have "if empty a then hash a = 0 else hash a = hash' a"
    by (cases a) (auto simp: empty_def)
  ultimately show ?thesis by (simp add: list_all_iff)
qed

theorem hash_structure_witness:
  "reach ex_env ex_S4 {ex_c, ex_b, ex_a, Null} {ex_m, Null} \<and>
   ex_a \<in> {ex_c, ex_b, ex_a, Null} \<and> \<not> empty ex_a \<and> subtrees ex_a = [ex_a] \<and>
   hash ex_a = hash' ex_a \<and>
   hash' ex_a =
     (let h1 = hash (left' ex_a); h2 = hash (right' ex_a);
          h12 = h1 XOR (h2 + 0x9e3779b9 + push_bit 6 h1 + drop_bit 2 h1)
      in h12 XOR (priority ex_a + 0x9e3779b9 + push_bit 6 h12 + drop_bit 2 h12))"
proof -
  have s: "subtrees ex_a = [ex_a]" by code_simp
  have n: "\<not> empty ex_a" by code_simp
  from hash_structure[OF ex_reach, of ex_a] s n ex_reach show ?thesis by simp
qed

section \<open>Copy assignment and swap\<close>

text \<open>
  C10. Neither copy assignment nor \<open>swap\<close> looks at the providers of the two
  containers: after \<open>a = b\<close>, for two containers \<open>a\<close> and \<open>b\<close>, \<open>a\<close> has the provider and
  the root of \<open>b\<close>, so that \<open>a == b\<close>; \<open>swap\<close> exchanges the providers and the roots.
\<close>

theorem assign_swap_any_provider:
  "(this \<noteq> other \<longrightarrow>
      provider' (assign H this other this) = provider' (H other) \<and>
      node' (assign H this other this) = node' (H other) \<and>
      assign H this other other = H other) \<and>
   ptr_eq (node' (assign H this other this)) (node' (assign H this other other)) \<and>
   provider' (swap H this other this) = provider' (H other) \<and>
   node' (swap H this other this) = node' (H other) \<and>
   provider' (swap H this other other) = provider' (H this) \<and>
   node' (swap H this other other) = node' (H this)"
  by (simp add: assign_def swap_def clear_at_def Let_def ptr_eq_def)

theorem assign_swap_any_provider_witness:
  "(0 :: nat) \<noteq> 1 \<and> provider' (ex_store 0) \<noteq> provider' (ex_store 1) \<and>
   provider' (assign ex_store 0 1 0) = 1 \<and> node' (assign ex_store 0 1 0) = Null \<and>
   provider' (swap ex_store 0 1 1) = 0 \<and> node' (swap ex_store 0 1 1) = ex_a"
  using assign_swap_any_provider[of 0 1 ex_store] by (simp add: ex_store_def)

text \<open>
  Assigning a container to itself is different: \<open>clear()\<close> runs first, so the
  container ends up empty.
\<close>

lemma assign_self: "node' (assign H this this this) = Null"
  by (simp add: assign_def clear_at_def clear_def Let_def)

end
